(* ===== verification/Textos_Prelude.thy ===== *)
theory Textos_Prelude
  imports Main "HOL-Library.Word" "HOL-Library.Monad_Syntax" "HOL-Library.Sublist"
begin

text \<open>
  Shared vocabulary of the TextOS development.

  \<^item> Machine integers of the C sources as words of their width; \<open>size_t\<close> and
    \<open>addr_t\<close> are 64 bits wide on the only supported target (x86_64).
  \<^item> A result of type \<open>'a option\<close> is \<open>None\<close> exactly where the kernel stops: a failed
    \<open>ASSERTK\<close>, a \<open>PANIC\<close>, or a memory access outside the object it is meant for.
    Error codes that the C code returns to its caller are ordinary values.
  \<^item> \<open>circ\<close> reads a window of a circular buffer as a list. The kernel's circular
    buffers (\<open>fifo_t\<close>, \<open>ring_t\<close>, \<open>tty_buf_t\<close>) all use it as their abstraction.
\<close>

unbundle bit_operations_syntax

type_synonym u8 = "8 word"
type_synonym u16 = "16 word"
type_synonym u32 = "32 word"
type_synonym u64 = "64 word"
type_synonym size_t = "64 word"
type_synonym addr_t = "64 word"
type_synonym task_ref = nat

named_theorems circ_simps \<open>rewriting of windows of circular buffers\<close>

definition assertk :: "bool \<Rightarrow> unit option" where
  "assertk b = (if b then Some () else None)"

lemma assertk_eq_Some [simp]: "assertk b = Some u \<longleftrightarrow> b"
  by (simp add: assertk_def)

lemma assertk_True [simp]: "assertk True = Some ()"
  by (simp add: assertk_def)

lemma assertk_False [simp]: "assertk False = None"
  by (simp add: assertk_def)

text \<open>Counting loops whose body may stop the kernel.\<close>

fun foldM :: "('x \<Rightarrow> 's \<Rightarrow> 's option) \<Rightarrow> 'x list \<Rightarrow> 's \<Rightarrow> 's option" where
  "foldM f [] s = Some s"
| "foldM f (x # xs) s = do { s \<leftarrow> f x s; foldM f xs s }"

lemma foldM_append: "foldM f (xs @ ys) s = Option.bind (foldM f xs s) (foldM f ys)"
  by (induction xs arbitrary: s) (auto split: bind_splits)

lemma foldM_invar:
  assumes "\<And>x s. x \<in> set xs \<Longrightarrow> P s \<Longrightarrow> \<exists>s'. f x s = Some s' \<and> P s'"
  shows "P s \<Longrightarrow> \<exists>s'. foldM f xs s = Some s' \<and> P s'"
  using assms
proof (induction xs arbitrary: s)
  case (Cons x xs)
  then obtain s1 where "f x s = Some s1" "P s1" by (metis list.set_intros(1))
  then show ?case using Cons by auto
qed simp

section \<open>Words\<close>

lemma unat_of_nat_lt:
  "n < 2 ^ LENGTH('a) \<Longrightarrow> unat (of_nat n :: 'a::len word) = n"
  by (simp add: unat_of_nat take_bit_nat_eq_self)

lemma unat_add_lt:
  "unat (a :: 'a::len word) + unat b < 2 ^ LENGTH('a) \<Longrightarrow> unat (a + b) = unat a + unat b"
  by (simp add: unat_word_ariths)

lemma unat_Suc_lt:
  "unat (a :: 'a::len word) + 1 < 2 ^ LENGTH('a) \<Longrightarrow> unat (a + 1) = unat a + 1"
  by (simp add: unat_word_ariths)

lemma unat_sub_le:
  "b \<le> a \<Longrightarrow> unat ((a :: 'a::len word) - b) = unat a - unat b"
  by (simp add: unat_sub)

lemma unat_lt2p: "unat (x :: 'a::len word) < 2 ^ LENGTH('a)"
  by (rule unsigned_less)

lemma unat_ucast_up:
  "LENGTH('a) \<le> LENGTH('b) \<Longrightarrow> unat (ucast (x :: 'a::len word) :: 'b::len word) = unat x"
  by (metis order_less_le_trans power_increasing_iff one_less_numeral_iff semiring_norm(76) take_bit_nat_eq_self
      unat_lt2p unsigned_ucast_eq)

lemma ucast_of_nat_lt: "n < 2 ^ LENGTH('a) \<Longrightarrow> (ucast (of_nat n :: 'a::len word) :: 'b::len word) = of_nat n"
  by (metis of_nat_unat unat_of_nat_lt)

lemma unat_min: "unat (min a b :: 'a::len word) = min (unat a) (unat b)"
  by (simp add: min_def word_le_nat_alt)

text \<open>An index computed modulo a divisor of the word range does not notice wrap-around.\<close>

lemma unat_add_mod_dvd:
  assumes "s dvd 2 ^ LENGTH('a)"
  shows "unat (a + b :: 'a::len word) mod s = (unat a + unat b) mod s"
  using assms by (simp add: unat_word_ariths mod_mod_cancel)

section \<open>Searching\<close>

lemma find_upt_least:
  assumes "a \<le> i" "i < b" "P i"
  obtains j where "find P [a..<b] = Some j" "a \<le> j" "j < b" "P j" "\<forall>k. a \<le> k \<and> k < j \<longrightarrow> \<not> P k"
proof -
  have "find P [a..<b] \<noteq> None" using assms by (auto simp: find_None_iff)
  then obtain j where j: "find P [a..<b] = Some j" by blast
  then obtain m where m: "m < b - a" "P (a + m)" "j = a + m" "\<forall>n<m. \<not> P (a + n)"
    by (auto simp: find_Some_iff)
  have "\<not> P k" if "a \<le> k" "k < j" for k
    using m(4) that m(3) by (metis add_diff_cancel_left' le_add_diff_inverse less_diff_iff le_add1)
  then show thesis using that [OF j] m by auto
qed

section \<open>Characters and strings\<close>

abbreviation chr :: "char \<Rightarrow> u8" where
  "chr c \<equiv> of_char c"

definition cstr :: "string \<Rightarrow> u8 list" where
  "cstr s = map of_char s"

section \<open>Windows of circular buffers\<close>

definition circ :: "nat \<Rightarrow> nat \<Rightarrow> nat \<Rightarrow> 'a list \<Rightarrow> 'a list" where
  "circ h s n buf = map (\<lambda>i. buf ! ((h + i) mod s)) [0..<n]"

lemma length_circ [simp]: "length (circ h s n buf) = n"
  by (simp add: circ_def)

lemma circ_0 [simp]: "circ h s 0 buf = []"
  by (simp add: circ_def)

lemma circ_eq_Nil [simp]: "circ h s n buf = [] \<longleftrightarrow> n = 0"
  by (simp add: circ_def)

lemma nth_circ: "i < n \<Longrightarrow> circ h s n buf ! i = buf ! ((h + i) mod s)"
  by (simp add: circ_def)

lemma circ_mod [circ_simps]: "circ (h mod s) s n buf = circ h s n buf"
  by (simp add: circ_def mod_add_left_eq)

lemma circ_cong: "h mod s = h' mod s \<Longrightarrow> circ h s n buf = circ h' s n buf"
  by (metis circ_mod)

lemma circ_Suc: "circ h s (Suc n) buf = buf ! (h mod s) # circ (Suc h) s n buf"
  by (rule nth_equalityI) (auto simp: nth_circ nth_Cons split: nat.split)

lemma circ_snoc_read: "circ h s (Suc n) buf = circ h s n buf @ [buf ! ((h + n) mod s)]"
  by (simp add: circ_def)

lemma circ_take: "m \<le> n \<Longrightarrow> take m (circ h s n buf) = circ h s m buf"
  by (simp add: circ_def take_map)

lemma circ_drop: "m \<le> n \<Longrightarrow> drop m (circ h s n buf) = circ (h + m) s (n - m) buf"
  by (rule nth_equalityI) (auto simp: nth_circ algebra_simps)

lemma mod_window_inj:
  fixes h i j s :: nat
  assumes "(h + i) mod s = (h + j) mod s" "i < s" "j < s"
  shows "i = j"
proof -
  have "s dvd i - j \<and> s dvd j - i"
    using assms(1) by (metis add_diff_cancel_left mod_eq_dvd_iff_nat nat_le_linear diff_is_0_eq dvd_0_right)
  then show ?thesis
    using assms(2,3) by (metis diff_is_0_eq dvd_imp_le leD le_antisym less_imp_diff_less not_gr_zero)
qed

text \<open>Storing the element just behind the window extends the window by it.\<close>

lemma circ_store:
  assumes "n < s" "length buf = s"
  shows "circ h s (Suc n) (buf[(h + n) mod s := x]) = circ h s n buf @ [x]"
proof (rule nth_equalityI)
  fix i assume "i < length (circ h s (Suc n) (buf[(h + n) mod s := x]))"
  then have i: "i \<le> n" by simp
  show "circ h s (Suc n) (buf[(h + n) mod s := x]) ! i = (circ h s n buf @ [x]) ! i"
  proof (cases "i = n")
    case True
    then show ?thesis using assms by (simp add: nth_circ nth_append)
  next
    case False
    then have "(h + i) mod s \<noteq> (h + n) mod s"
      using assms(1) i mod_window_inj [of h i s n] by auto
    then show ?thesis using False i by (simp add: nth_circ nth_append)
  qed
qed simp

text \<open>Storing outside the window does not change it.\<close>

lemma circ_store_outside:
  assumes "n < s"
  shows "circ h s n (buf[(h + n) mod s := x]) = circ h s n buf"
proof (rule nth_equalityI)
  fix i assume "i < length (circ h s n (buf[(h + n) mod s := x]))"
  then have i: "i < n" by simp
  then have "(h + i) mod s \<noteq> (h + n) mod s"
    using assms mod_window_inj [of h i s n] by auto
  then show "circ h s n (buf[(h + n) mod s := x]) ! i = circ h s n buf ! i"
    using i by (simp add: nth_circ)
qed simp

end
