(* ===== verification/Queue_Interface.thy ===== *)
theory Queue_Interface
  imports Textos_Prelude
begin

text \<open>
  What the users of the kernel's byte queues rely on. \<open>byte_queue\<close> is the contract of
  the block-wise queue that pipes use (\<open>fifo_write\<close>, \<open>fifo_read\<close>), \<open>char_queue\<close> that
  of the queues that store one element at a time. The lemmas proved here once hold for
  every implementation: whatever sequence of reads and writes is performed, the queue
  delivers the accepted elements in order, each exactly once.
\<close>

datatype 'a queue_op = QWrite "'a list" | QRead size_t

text \<open>
  Running a list of operations collects the elements that writes accepted and the
  elements that reads delivered.
\<close>

fun queue_run ::
  "('q \<Rightarrow> 'a list \<Rightarrow> 'q \<times> size_t) \<Rightarrow> ('q \<Rightarrow> size_t \<Rightarrow> 'q \<times> 'a list) \<Rightarrow> 'q \<Rightarrow> 'a queue_op list
    \<Rightarrow> 'q \<times> 'a list \<times> 'a list" where
  "queue_run wr rd q [] = (q, [], [])"
| "queue_run wr rd q (QWrite d # ops) =
     (let (q1, n) = wr q d; (q2, acc, dlv) = queue_run wr rd q1 ops
      in (q2, take (unat n) d @ acc, dlv))"
| "queue_run wr rd q (QRead n # ops) =
     (let (q1, out) = rd q n; (q2, acc, dlv) = queue_run wr rd q1 ops
      in (q2, acc, out @ dlv))"

fun queue_op_ok :: "'a queue_op \<Rightarrow> bool" where
  "queue_op_ok (QWrite d) \<longleftrightarrow> length d < 2 ^ 64"
| "queue_op_ok (QRead n) \<longleftrightarrow> True"

locale byte_queue =
  fixes invar :: "'q \<Rightarrow> bool"
    and contents :: "'q \<Rightarrow> 'a list"
    and cap :: "'q \<Rightarrow> nat"
    and wr :: "'q \<Rightarrow> 'a list \<Rightarrow> 'q \<times> size_t"
    and rd :: "'q \<Rightarrow> size_t \<Rightarrow> 'q \<times> 'a list"
  assumes bounded: "invar q \<Longrightarrow> length (contents q) \<le> cap q"
    and wr_invar: "invar q \<Longrightarrow> length d < 2 ^ 64 \<Longrightarrow> invar (fst (wr q d))"
    and wr_cap: "invar q \<Longrightarrow> length d < 2 ^ 64 \<Longrightarrow> cap (fst (wr q d)) = cap q"
    and wr_contents: "invar q \<Longrightarrow> length d < 2 ^ 64 \<Longrightarrow>
      contents (fst (wr q d)) = contents q @ take (cap q - length (contents q)) d"
    and wr_count: "invar q \<Longrightarrow> length d < 2 ^ 64 \<Longrightarrow>
      unat (snd (wr q d)) = min (length d) (cap q - length (contents q))"
    and rd_invar: "invar q \<Longrightarrow> invar (fst (rd q n))"
    and rd_cap: "invar q \<Longrightarrow> cap (fst (rd q n)) = cap q"
    and rd_contents: "invar q \<Longrightarrow> contents (fst (rd q n)) = drop (unat n) (contents q)"
    and rd_data: "invar q \<Longrightarrow> snd (rd q n) = take (unat n) (contents q)"
begin

lemma wr_accepted:
  "invar q \<Longrightarrow> length d < 2 ^ 64 \<Longrightarrow>
    contents (fst (wr q d)) = contents q @ take (unat (snd (wr q d))) d"
  by (simp add: wr_contents wr_count min_def)

lemma run_invar:
  "invar q \<Longrightarrow> list_all queue_op_ok ops \<Longrightarrow> invar (fst (queue_run wr rd q ops))"
proof (induction ops arbitrary: q)
  case (Cons x ops)
  then show ?case
    by (cases x) (auto simp: split_beta Let_def wr_invar rd_invar)
qed simp

lemma run_cap:
  "invar q \<Longrightarrow> list_all queue_op_ok ops \<Longrightarrow> cap (fst (queue_run wr rd q ops)) = cap q"
proof (induction ops arbitrary: q)
  case (Cons x ops)
  then show ?case
    by (cases x) (auto simp: split_beta Let_def wr_invar rd_invar wr_cap rd_cap)
qed simp

text \<open>Conservation and order of the elements over any run.\<close>

lemma run_stream:
  "invar q \<Longrightarrow> list_all queue_op_ok ops \<Longrightarrow> queue_run wr rd q ops = (q', acc, dlv) \<Longrightarrow>
    contents q @ acc = dlv @ contents q'"
proof (induction ops arbitrary: q q' acc dlv)
  case Nil
  then show ?case by simp
next
  case (Cons x ops)
  show ?case
  proof (cases x)
    case (QWrite d)
    obtain q2 acc2 dlv2 where r: "queue_run wr rd (fst (wr q d)) ops = (q2, acc2, dlv2)"
      by (cases "queue_run wr rd (fst (wr q d)) ops")
    have "contents (fst (wr q d)) @ acc2 = dlv2 @ contents q2"
      using Cons.prems(1,2) QWrite r by (intro Cons.IH) (auto intro: wr_invar)
    then show ?thesis
      using Cons.prems QWrite r by (auto simp: split_beta wr_accepted)
  next
    case (QRead n)
    obtain q2 acc2 dlv2 where r: "queue_run wr rd (fst (rd q n)) ops = (q2, acc2, dlv2)"
      by (cases "queue_run wr rd (fst (rd q n)) ops")
    have "contents (fst (rd q n)) @ acc2 = dlv2 @ contents q2"
      using Cons.prems(1,2) QRead r by (intro Cons.IH) (auto intro: rd_invar)
    then show ?thesis
      using Cons.prems QRead r
      by (auto simp: split_beta rd_contents rd_data)
        (metis append.assoc append_take_drop_id)
  qed
qed

lemma run_prefix:
  assumes "invar q" "contents q = []" "list_all queue_op_ok ops"
    and "queue_run wr rd q ops = (q', acc, dlv)"
  shows "prefix dlv acc"
  using run_stream [OF assms(1,3,4)] assms(2) by simp

lemma rd_after_wr:
  assumes "invar q" "contents q = []" "length d < 2 ^ 64" "length d \<le> cap q"
  shows "snd (rd (fst (wr q d)) (of_nat (length d))) = d"
  using assms by (simp add: rd_data wr_invar wr_contents unat_of_nat_lt)

end

text \<open>
  One element at a time: \<open>put\<close> fails when the queue is full, \<open>get\<close> when it is empty.
  \<open>elem x\<close> is the element that the queue stores for the value \<open>x\<close>.
\<close>

locale char_queue =
  fixes invar :: "'q \<Rightarrow> bool"
    and contents :: "'q \<Rightarrow> 'a list"
    and cap :: nat
    and elem :: "'b \<Rightarrow> 'a"
    and put :: "'q \<Rightarrow> 'b \<Rightarrow> 'q option"
    and get :: "'q \<Rightarrow> ('q \<times> 'a) option"
  assumes put_full: "invar q \<Longrightarrow> put q x = None \<longleftrightarrow> length (contents q) = cap"
    and put_invar: "invar q \<Longrightarrow> put q x = Some q' \<Longrightarrow> invar q'"
    and put_contents: "invar q \<Longrightarrow> put q x = Some q' \<Longrightarrow> contents q' = contents q @ [elem x]"
    and get_empty: "invar q \<Longrightarrow> get q = None \<longleftrightarrow> contents q = []"
    and get_invar: "invar q \<Longrightarrow> get q = Some (q', y) \<Longrightarrow> invar q'"
    and get_contents: "invar q \<Longrightarrow> get q = Some (q', y) \<Longrightarrow> contents q = y # contents q'"
    and len_cap: "invar q \<Longrightarrow> length (contents q) \<le> cap"
begin

text \<open>Elements put into an empty queue come out in the order they went in.\<close>

fun put_all :: "'q \<Rightarrow> 'b list \<Rightarrow> 'q option" where
  "put_all q [] = Some q"
| "put_all q (x # xs) = Option.bind (put q x) (\<lambda>q'. put_all q' xs)"

fun get_n :: "nat \<Rightarrow> 'q \<Rightarrow> ('q \<times> 'a list) option" where
  "get_n 0 q = Some (q, [])"
| "get_n (Suc n) q = Option.bind (get q) (\<lambda>(q1, y).
     Option.bind (get_n n q1) (\<lambda>(q2, ys). Some (q2, y # ys)))"

lemma put_all_fits:
  "invar q \<Longrightarrow> length (contents q) + length xs \<le> cap \<Longrightarrow>
    \<exists>q'. put_all q xs = Some q' \<and> invar q' \<and> contents q' = contents q @ map elem xs"
proof (induction xs arbitrary: q)
  case (Cons x xs)
  then obtain q1 where q1: "put q x = Some q1"
    using put_full [of q x] by fastforce
  then have "invar q1" "contents q1 = contents q @ [elem x]"
    using Cons.prems(1) put_invar put_contents by blast+
  then show ?case
    using Cons.IH [of q1] Cons.prems(2) q1 by auto
qed simp

lemma get_n_contents:
  "invar q \<Longrightarrow> contents q = xs @ ys \<Longrightarrow>
    \<exists>q'. get_n (length xs) q = Some (q', xs) \<and> invar q' \<and> contents q' = ys"
proof (induction xs arbitrary: q)
  case (Cons x xs)
  then obtain q1 y where q1: "get q = Some (q1, y)"
    using get_empty [of q] by fastforce
  then have "invar q1" "y = x" "contents q1 = xs @ ys"
    using Cons.prems get_invar get_contents by fastforce+
  then show ?case
    using Cons.IH [of q1] q1 by auto
qed simp

lemma put_all_get_n:
  assumes "invar q" "contents q = []" "length xs \<le> cap"
  shows "\<exists>q1 q2. put_all q xs = Some q1 \<and> get_n (length xs) q1 = Some (q2, map elem xs) \<and>
    contents q2 = []"
  using put_all_fits [of q xs] get_n_contents [of _ "map elem xs" "[]"] assms by fastforce

end

end
