(* ===== verification/Klib_Fifo.thy ===== *)
theory Klib_Fifo
  imports Queue_Interface
begin

text \<open>
  The character queue \<open>fifo_t\<close> of \<open>src/kernel/klib/fifo.c\<close>. The read and the write
  counter run freely through all 64-bit values and are reduced modulo the size on each
  access; the write counter starts one buffer size ahead of the read counter.
\<close>

record fifo_t =
  fifo_buf :: "u8 list"
  fifo_siz :: size_t
  fifo_head :: size_t
  fifo_tail :: size_t

definition fifo_clear :: "fifo_t \<Rightarrow> fifo_t" where
  "fifo_clear f = f\<lparr>fifo_head := 0, fifo_tail := fifo_siz f\<rparr>"

text \<open>The outer option is the assertion, the inner one the \<open>NULL\<close> result.\<close>

definition fifo_init :: "fifo_t option \<Rightarrow> u8 list option \<Rightarrow> size_t \<Rightarrow> fifo_t option option" where
  "fifo_init fifo buf siz = do {
     assertk (siz \<noteq> 0);
     Some (case buf of
       None \<Rightarrow> None
     | Some b \<Rightarrow>
         (case fifo of
           None \<Rightarrow> None
         | Some f \<Rightarrow> Some (fifo_clear (f\<lparr>fifo_buf := b, fifo_siz := siz\<rparr>))))
   }"

definition HEAD :: "fifo_t \<Rightarrow> nat" where
  "HEAD f = unat (fifo_head f mod fifo_siz f)"

definition TAIL :: "fifo_t \<Rightarrow> nat" where
  "TAIL f = unat (fifo_tail f mod fifo_siz f)"

text \<open>
  The copy loop of \<open>fifo_write\<close>; \<open>p\<close> is the rest of the caller's data and
  \<open>rem\<close> the loop counter.
\<close>

fun fifo_write_loop :: "nat \<Rightarrow> u8 list \<Rightarrow> fifo_t \<Rightarrow> size_t \<Rightarrow> fifo_t \<times> size_t" where
  "fifo_write_loop 0 p f ret = (f, ret)"
| "fifo_write_loop (Suc rem) p f ret =
     fifo_write_loop rem (tl p)
       (f\<lparr>fifo_buf := (fifo_buf f)[TAIL f := hd p], fifo_tail := fifo_tail f + 1\<rparr>) (ret + 1)"

definition fifo_write :: "fifo_t \<Rightarrow> u8 list \<Rightarrow> fifo_t \<times> size_t" where
  "fifo_write f data =
     (let siz = of_nat (length data);
          rem = min siz (fifo_siz f - (fifo_tail f - fifo_siz f - fifo_head f))
      in fifo_write_loop (unat rem) data f 0)"

fun fifo_read_loop :: "nat \<Rightarrow> fifo_t \<Rightarrow> u8 list \<Rightarrow> fifo_t \<times> u8 list" where
  "fifo_read_loop 0 f out = (f, out)"
| "fifo_read_loop (Suc rem) f out =
     fifo_read_loop rem (f\<lparr>fifo_head := fifo_head f + 1\<rparr>) (out @ [fifo_buf f ! HEAD f])"

text \<open>The bytes stored through \<open>buf\<close>; their number is the C function's result.\<close>

definition fifo_read :: "fifo_t \<Rightarrow> size_t \<Rightarrow> fifo_t \<times> u8 list" where
  "fifo_read f siz =
     fifo_read_loop (unat (min siz (fifo_tail f - fifo_siz f - fifo_head f))) f []"

definition fifo_full :: "fifo_t \<Rightarrow> bool" where
  "fifo_full f \<longleftrightarrow> fifo_head f = fifo_tail f"

definition fifo_empty :: "fifo_t \<Rightarrow> bool" where
  "fifo_empty f \<longleftrightarrow> fifo_head f + fifo_siz f = fifo_tail f"

section \<open>Invariant and contents\<close>

text \<open>The number of unread bytes, as the code computes it.\<close>

definition fifo_used :: "fifo_t \<Rightarrow> nat" where
  "fifo_used f = unat (fifo_tail f - fifo_siz f - fifo_head f)"

text \<open>
  The counters wrap at \<open>2 ^ 64\<close>; the positions in the buffer stay consistent across the
  wrap when the size divides \<open>2 ^ 64\<close>, as the page size that pipes use does.
\<close>

definition fifo_invar :: "fifo_t \<Rightarrow> bool" where
  "fifo_invar f \<longleftrightarrow> fifo_siz f \<noteq> 0 \<and> length (fifo_buf f) = unat (fifo_siz f) \<and>
     unat (fifo_siz f) dvd 2 ^ 64 \<and> fifo_used f \<le> unat (fifo_siz f)"

definition fifo_contents :: "fifo_t \<Rightarrow> u8 list" where
  "fifo_contents f = circ (unat (fifo_head f)) (unat (fifo_siz f)) (fifo_used f) (fifo_buf f)"

definition fifo_cap :: "fifo_t \<Rightarrow> nat" where
  "fifo_cap f = unat (fifo_siz f)"

lemma length_fifo_contents [simp]: "length (fifo_contents f) = fifo_used f"
  by (simp add: fifo_contents_def)

lemma HEAD_eq: "HEAD f = unat (fifo_head f) mod unat (fifo_siz f)"
  by (simp add: HEAD_def unat_mod)

lemma TAIL_eq:
  assumes "fifo_invar f"
  shows "TAIL f = (unat (fifo_head f) + fifo_used f) mod unat (fifo_siz f)"
proof -
  let ?s = "unat (fifo_siz f)"
  have dvd: "?s dvd 2 ^ LENGTH(64)" using assms by (simp add: fifo_invar_def)
  have "fifo_tail f = (fifo_head f + (fifo_tail f - fifo_siz f - fifo_head f)) + fifo_siz f"
    by simp
  then have "unat (fifo_tail f) mod ?s =
      (unat (fifo_head f + (fifo_tail f - fifo_siz f - fifo_head f)) + ?s) mod ?s"
    using unat_add_mod_dvd [OF dvd] by metis
  also have "\<dots> = unat (fifo_head f + (fifo_tail f - fifo_siz f - fifo_head f)) mod ?s"
    by simp
  also have "\<dots> = (unat (fifo_head f) + fifo_used f) mod ?s"
    unfolding fifo_used_def by (rule unat_add_mod_dvd [OF dvd])
  finally show ?thesis by (simp add: TAIL_def unat_mod)
qed

section \<open>Writing\<close>

definition fifo_put :: "fifo_t \<Rightarrow> u8 \<Rightarrow> fifo_t" where
  "fifo_put f c = f\<lparr>fifo_buf := (fifo_buf f)[TAIL f := c], fifo_tail := fifo_tail f + 1\<rparr>"

lemma fifo_used_put:
  assumes "fifo_used f < unat (fifo_siz f)"
  shows "fifo_used (fifo_put f c) = Suc (fifo_used f)"
proof -
  let ?u = "fifo_tail f - fifo_siz f - fifo_head f"
  have "unat ?u + 1 < 2 ^ LENGTH(64)"
    using assms unat_lt2p [of "fifo_siz f"] by (simp add: fifo_used_def)
  then have "unat (?u + 1) = Suc (unat ?u)" by (simp add: unat_Suc_lt)
  moreover have "fifo_tail f + 1 - fifo_siz f - fifo_head f = ?u + 1" by simp
  ultimately have "unat (fifo_tail f + 1 - fifo_siz f - fifo_head f) = Suc (unat ?u)" by metis
  then show ?thesis by (simp add: fifo_used_def fifo_put_def)
qed

lemma fifo_put_correct:
  assumes "fifo_invar f" "fifo_used f < unat (fifo_siz f)"
  shows "fifo_invar (fifo_put f c)" "fifo_contents (fifo_put f c) = fifo_contents f @ [c]"
    "fifo_siz (fifo_put f c) = fifo_siz f"
proof -
  show siz: "fifo_siz (fifo_put f c) = fifo_siz f" by (simp add: fifo_put_def)
  have used: "fifo_used (fifo_put f c) = Suc (fifo_used f)" by (rule fifo_used_put [OF assms(2)])
  then show "fifo_invar (fifo_put f c)"
    using assms siz by (simp add: fifo_invar_def) (simp add: fifo_put_def)
  show "fifo_contents (fifo_put f c) = fifo_contents f @ [c]"
    using assms by (simp add: fifo_contents_def used)
      (simp add: fifo_put_def TAIL_eq circ_store fifo_invar_def)
qed

lemma fifo_write_loop_correct:
  "fifo_invar f \<Longrightarrow> n \<le> length p \<Longrightarrow> fifo_used f + n \<le> unat (fifo_siz f) \<Longrightarrow>
    fifo_write_loop n p f ret = (f', ret') \<Longrightarrow>
    fifo_invar f' \<and> fifo_contents f' = fifo_contents f @ take n p \<and>
    fifo_siz f' = fifo_siz f \<and> ret' = ret + of_nat n"
proof (induction n p f ret rule: fifo_write_loop.induct)
  case (1 p f ret)
  then show ?case by simp
next
  case (2 n p f ret)
  obtain c cs where p: "p = c # cs" using "2.prems"(2) by (cases p) auto
  have lt: "fifo_used f < unat (fifo_siz f)" using "2.prems"(3) by simp
  note put = fifo_put_correct [OF "2.prems"(1) lt, of c]
  have "fifo_invar f' \<and> fifo_contents f' = fifo_contents (fifo_put f c) @ take n cs \<and>
      fifo_siz f' = fifo_siz (fifo_put f c) \<and> ret' = ret + 1 + of_nat n"
    using "2.IH" "2.prems" put p fifo_used_put [OF lt, of c] by (simp add: fifo_put_def [symmetric])
  then show ?case using put p by simp
qed

lemma fifo_free:
  assumes "fifo_invar f"
  shows "unat (fifo_siz f - (fifo_tail f - fifo_siz f - fifo_head f)) = unat (fifo_siz f) - fifo_used f"
proof -
  have "fifo_tail f - fifo_siz f - fifo_head f \<le> fifo_siz f"
    using assms by (simp add: fifo_invar_def fifo_used_def word_le_nat_alt)
  then show ?thesis unfolding fifo_used_def by (rule unat_sub_le)
qed

lemma fifo_write_correct:
  assumes "fifo_invar f" "length d < 2 ^ 64" "fifo_write f d = (f', n)"
  shows "fifo_invar f' \<and> fifo_siz f' = fifo_siz f \<and>
    fifo_contents f' = fifo_contents f @ take (fifo_cap f - fifo_used f) d \<and>
    unat n = min (length d) (fifo_cap f - fifo_used f)"
proof -
  let ?n = "min (length d) (fifo_cap f - fifo_used f)"
  have n: "unat (min (of_nat (length d)) (fifo_siz f - (fifo_tail f - fifo_siz f - fifo_head f))) = ?n"
    using assms(2) unfolding unat_min fifo_free [OF assms(1)]
    by (simp add: fifo_cap_def unat_of_nat_lt)
  have "fifo_write_loop ?n d f 0 = (f', n)"
    using assms(3) unfolding fifo_write_def Let_def n .
  then have "fifo_invar f' \<and> fifo_contents f' = fifo_contents f @ take ?n d \<and>
      fifo_siz f' = fifo_siz f \<and> n = 0 + of_nat ?n"
    using assms(1) by (intro fifo_write_loop_correct) (auto simp: fifo_cap_def fifo_invar_def)
  moreover have "take ?n d = take (fifo_cap f - fifo_used f) d" by (simp add: min_def)
  moreover have "?n < 2 ^ LENGTH(64)" using assms(2) by simp
  then have "unat (of_nat ?n :: size_t) = ?n" by (rule unat_of_nat_lt)
  ultimately show ?thesis by auto
qed

section \<open>Reading\<close>

lemma fifo_used_get:
  assumes "0 < fifo_used f"
  shows "fifo_used (f\<lparr>fifo_head := fifo_head f + 1\<rparr>) = fifo_used f - 1"
proof -
  let ?u = "fifo_tail f - fifo_siz f - fifo_head f"
  have "1 \<le> ?u" using assms by (simp add: fifo_used_def word_le_nat_alt)
  then have "unat (?u - 1) = unat ?u - 1" by (simp add: unat_sub_le)
  moreover have "fifo_tail f - fifo_siz f - (fifo_head f + 1) = ?u - 1"
    by (simp add: algebra_simps)
  ultimately have "unat (fifo_tail f - fifo_siz f - (fifo_head f + 1)) = unat ?u - 1" by metis
  then show ?thesis by (simp add: fifo_used_def)
qed

lemma fifo_get_correct:
  assumes "fifo_invar f" "0 < fifo_used f"
  shows "fifo_invar (f\<lparr>fifo_head := fifo_head f + 1\<rparr>)"
    "fifo_contents f = fifo_buf f ! HEAD f # fifo_contents (f\<lparr>fifo_head := fifo_head f + 1\<rparr>)"
proof -
  let ?s = "unat (fifo_siz f)"
  show "fifo_invar (f\<lparr>fifo_head := fifo_head f + 1\<rparr>)"
    using assms fifo_used_get [OF assms(2)] by (auto simp: fifo_invar_def)
  have "Suc (unat (fifo_head f)) mod ?s = unat (fifo_head f + 1) mod ?s"
    using unat_add_mod_dvd [of ?s "fifo_head f" 1] assms(1) by (simp add: fifo_invar_def)
  then have "circ (Suc (unat (fifo_head f))) ?s n b = circ (unat (fifo_head f + 1)) ?s n b" for n b
    by (rule circ_cong)
  moreover obtain k where "fifo_used f = Suc k" using assms(2) by (cases "fifo_used f") auto
  ultimately show "fifo_contents f =
      fifo_buf f ! HEAD f # fifo_contents (f\<lparr>fifo_head := fifo_head f + 1\<rparr>)"
    using fifo_used_get [OF assms(2)] by (simp add: fifo_contents_def circ_Suc HEAD_eq)
qed

lemma fifo_read_loop_correct:
  "fifo_invar f \<Longrightarrow> n \<le> fifo_used f \<Longrightarrow> fifo_read_loop n f out = (f', out') \<Longrightarrow>
    fifo_invar f' \<and> fifo_siz f' = fifo_siz f \<and> fifo_contents f' = drop n (fifo_contents f) \<and>
    out' = out @ take n (fifo_contents f)"
proof (induction n f out rule: fifo_read_loop.induct)
  case (1 f out)
  then show ?case by simp
next
  case (2 n f out)
  let ?f = "f\<lparr>fifo_head := fifo_head f + 1\<rparr>"
  have pos: "0 < fifo_used f" using "2.prems"(2) by simp
  note get = fifo_get_correct [OF "2.prems"(1) pos]
  have "fifo_invar f' \<and> fifo_siz f' = fifo_siz ?f \<and> fifo_contents f' = drop n (fifo_contents ?f) \<and>
      out' = (out @ [fifo_buf f ! HEAD f]) @ take n (fifo_contents ?f)"
    using "2.prems" get(1) fifo_used_get [OF pos] by (intro "2.IH") auto
  then show ?case using get(2) by simp
qed

lemma fifo_read_correct:
  assumes "fifo_invar f" "fifo_read f n = (f', out)"
  shows "fifo_invar f' \<and> fifo_siz f' = fifo_siz f \<and> fifo_contents f' = drop (unat n) (fifo_contents f) \<and>
    out = take (unat n) (fifo_contents f)"
proof -
  let ?n = "min (unat n) (fifo_used f)"
  have "fifo_read_loop ?n f [] = (f', out)"
    using assms(2) by (simp add: fifo_read_def fifo_used_def unat_min)
  then have "fifo_invar f' \<and> fifo_siz f' = fifo_siz f \<and> fifo_contents f' = drop ?n (fifo_contents f) \<and>
      out = [] @ take ?n (fifo_contents f)"
    using assms(1) by (intro fifo_read_loop_correct) auto
  then show ?thesis by (auto simp: min_def split: if_splits)
qed

section \<open>The queue contract\<close>

interpretation fifo: byte_queue fifo_invar fifo_contents fifo_cap fifo_write fifo_read
proof unfold_locales
  fix f :: fifo_t and d :: "u8 list"
  assume f: "fifo_invar f"
  show "length (fifo_contents f) \<le> fifo_cap f"
    using f by (simp add: fifo_invar_def fifo_cap_def)
  assume "length d < 2 ^ 64"
  then have w: "fifo_invar (fst (fifo_write f d)) \<and> fifo_siz (fst (fifo_write f d)) = fifo_siz f \<and>
      fifo_contents (fst (fifo_write f d)) = fifo_contents f @ take (fifo_cap f - fifo_used f) d \<and>
      unat (snd (fifo_write f d)) = min (length d) (fifo_cap f - fifo_used f)"
    using f by (intro fifo_write_correct) auto
  then show "fifo_invar (fst (fifo_write f d))"
    and "fifo_cap (fst (fifo_write f d)) = fifo_cap f"
    and "fifo_contents (fst (fifo_write f d)) =
        fifo_contents f @ take (fifo_cap f - length (fifo_contents f)) d"
    and "unat (snd (fifo_write f d)) = min (length d) (fifo_cap f - length (fifo_contents f))"
    by (auto simp: fifo_cap_def)
next
  fix f :: fifo_t and n :: size_t
  assume f: "fifo_invar f"
  have r: "fifo_invar (fst (fifo_read f n)) \<and> fifo_siz (fst (fifo_read f n)) = fifo_siz f \<and>
      fifo_contents (fst (fifo_read f n)) = drop (unat n) (fifo_contents f) \<and>
      snd (fifo_read f n) = take (unat n) (fifo_contents f)"
    using f by (intro fifo_read_correct) auto
  then show "fifo_invar (fst (fifo_read f n))"
    and "fifo_cap (fst (fifo_read f n)) = fifo_cap f"
    and "fifo_contents (fst (fifo_read f n)) = drop (unat n) (fifo_contents f)"
    and "snd (fifo_read f n) = take (unat n) (fifo_contents f)"
    by (auto simp: fifo_cap_def)
qed

section \<open>Creation and the state tests\<close>

lemma fifo_clear_invar:
  assumes "fifo_siz f \<noteq> 0" "length (fifo_buf f) = unat (fifo_siz f)" "unat (fifo_siz f) dvd 2 ^ 64"
  shows "fifo_invar (fifo_clear f)" "fifo_contents (fifo_clear f) = []"
  using assms by (simp_all add: fifo_invar_def fifo_clear_def fifo_used_def fifo_contents_def)

lemma fifo_empty_iff: "fifo_empty f \<longleftrightarrow> fifo_contents f = []"
proof -
  have "fifo_head f + fifo_siz f = fifo_tail f \<longleftrightarrow> fifo_tail f - fifo_siz f - fifo_head f = 0"
    by (auto simp: algebra_simps)
  also have "\<dots> \<longleftrightarrow> fifo_used f = 0"
    by (simp add: fifo_used_def unat_eq_0)
  finally show ?thesis
    by (simp add: fifo_empty_def fifo_contents_def)
qed

lemma fifo_full_iff: "fifo_full f \<longleftrightarrow> fifo_tail f - fifo_siz f - fifo_head f = - fifo_siz f"
  by (auto simp: fifo_full_def algebra_simps)

section \<open>Properties\<close>

abbreviation fifo_example :: fifo_t where
  "fifo_example \<equiv> \<lparr>fifo_buf = [0, 0, 0, 0], fifo_siz = 4, fifo_head = -2, fifo_tail = 2\<rparr>"

text \<open>
  C15: A fifo set up by \<open>fifo_init\<close> on a buffer whose size divides \<open>2 ^ 64\<close> delivers, over
  any sequence of reads and writes, exactly the bytes its writes accepted, in order: the
  accepted bytes are the delivered bytes followed by what is still stored. This covers the
  wrap-around of the position in the buffer and of the 64-bit counters.
\<close>

theorem fifo_stream:
  assumes "unat siz dvd 2 ^ 64" "length b = unat siz" "siz \<noteq> 0" "list_all queue_op_ok ops"
  shows "\<exists>f f' acc dlv. fifo_init (Some f0) (Some b) siz = Some (Some f) \<and>
    queue_run fifo_write fifo_read f ops = (f', acc, dlv) \<and>
    acc = dlv @ fifo_contents f' \<and> length (fifo_contents f') \<le> unat siz \<and>
    fifo_invar f' \<and> (fifo_empty f' \<longleftrightarrow> acc = dlv)"
proof -
  let ?f = "fifo_clear (f0\<lparr>fifo_buf := b, fifo_siz := siz\<rparr>)"
  have f: "fifo_invar ?f" "fifo_contents ?f = []"
    using assms by (simp_all add: fifo_clear_invar)
  obtain f' acc dlv where run: "queue_run fifo_write fifo_read ?f ops = (f', acc, dlv)"
    by (cases "queue_run fifo_write fifo_read ?f ops")
  have stream: "acc = dlv @ fifo_contents f'"
    using fifo.run_stream [OF f(1) assms(4) run] f(2) by simp
  moreover have "fifo_invar f'" using fifo.run_invar [OF f(1) assms(4)] run by simp
  moreover have "fifo_cap f' = unat siz"
    using fifo.run_cap [OF f(1) assms(4)] run by (simp add: fifo_cap_def fifo_clear_def)
  ultimately show ?thesis
    using run assms(3) fifo.bounded [of f'] fifo_empty_iff [of f'] by (auto simp: fifo_init_def)
qed

theorem fifo_stream_witness:
  "\<exists>f f' acc dlv. fifo_init (Some fifo_example) (Some [9, 9]) 2 = Some (Some f) \<and>
    queue_run fifo_write fifo_read f [QWrite [1, 2, 3], QRead 1, QWrite [4]] = (f', acc, dlv) \<and>
    acc = dlv @ fifo_contents f' \<and> length (fifo_contents f') \<le> unat (2 :: size_t) \<and>
    fifo_invar f' \<and> (fifo_empty f' \<longleftrightarrow> acc = dlv)"
  by (rule fifo_stream) simp_all

text \<open>
  Data that fits into an empty queue is read back unchanged by the next read, and the
  write reports its full length.
\<close>

lemma fifo_write_read_roundtrip:
  assumes "fifo_invar f" "fifo_empty f" "length d \<le> unat (fifo_siz f)"
  shows "unat (snd (fifo_write f d)) = length d \<and>
    snd (fifo_read (fst (fifo_write f d)) (of_nat (length d))) = d"
proof -
  have "length d < 2 ^ 64" using assms(3) unat_lt2p [of "fifo_siz f"] by simp
  then show ?thesis
    using fifo.rd_after_wr [of f d] fifo.wr_count [of f d] assms
    by (simp add: fifo_empty_iff fifo_cap_def flip: length_fifo_contents)
qed

text \<open>
  C2: \<open>fifo_full\<close> answers false for every valid queue of less than \<open>2 ^ 63\<close> bytes, even
  when the queue has no room left: the counters it compares start one size apart.
\<close>

lemma fifo_full_never:
  assumes "fifo_invar f" "unat (fifo_siz f) < 2 ^ 63"
  shows "\<not> fifo_full f"
proof
  assume "fifo_full f"
  then have "fifo_used f = unat (- fifo_siz f)" by (simp add: fifo_full_iff fifo_used_def)
  moreover have "unat (- fifo_siz f) + unat (fifo_siz f) \<ge> 2 ^ 64"
  proof (rule ccontr)
    assume "\<not> ?thesis"
    then have "unat (- fifo_siz f + fifo_siz f) = unat (- fifo_siz f) + unat (fifo_siz f)"
      by (intro unat_add_lt) simp
    then show False using assms(1) by (simp add: fifo_invar_def unat_eq_0)
  qed
  ultimately show False using assms by (simp add: fifo_invar_def)
qed

end
