(* ===== verification/Klib_Bitmap.thy ===== *)
theory Klib_Bitmap
  imports Textos_Prelude
begin

text \<open>
  The bitmap of \<open>src/kernel/klib/bitmap.c\<close>, which hands out page slots, ports, inodes
  and blocks. The contract its users rely on is the locale \<open>slot_alloc\<close>.
  The unit \<open>mpunit\<close> is a byte, so \<open>mpembs\<close> is 8 and \<open>mpfull\<close> is \<open>0xff\<close>.
\<close>

record bitmap_t =
  bm_map :: "u8 list"
  bm_bits :: size_t

definition mpfull :: u8 where
  "mpfull = 255"

definition bm_bytes :: "size_t \<Rightarrow> nat" where
  "bm_bytes bits = unat ((bits + 7) div 8)"

text \<open>
  \<open>bitmap_init\<close>: both arguments may be \<open>NULL\<close>; \<open>heap1\<close> and \<open>heap2\<close> are what the two
  \<open>malloc\<close> calls return. The buffer is cleared only when the descriptor is allocated too.
\<close>

definition bitmap_init ::
  "bitmap_t option \<Rightarrow> u8 list option \<Rightarrow> size_t \<Rightarrow> u8 list option \<Rightarrow> bool \<Rightarrow> bitmap_t option" where
  "bitmap_init bmp buf bits heap1 heap2 =
     (case (case buf of None \<Rightarrow> heap1 | Some b \<Rightarrow> Some b) of
        None \<Rightarrow> None
      | Some b \<Rightarrow>
          (case bmp of
             Some d \<Rightarrow> Some (d\<lparr>bm_map := b, bm_bits := bits\<rparr>)
           | None \<Rightarrow>
               if heap2
               then Some \<lparr>bm_map = replicate (bm_bytes bits) 0 @ drop (bm_bytes bits) b, bm_bits = bits\<rparr>
               else None))"

text \<open>\<open>__builtin_ffs\<close> on a byte: one plus the index of the lowest set bit, 0 if there is none.\<close>

definition ffs8 :: "u8 \<Rightarrow> int" where
  "ffs8 x = (case find (\<lambda>i. bit x i) [0..<8] of None \<Rightarrow> 0 | Some i \<Rightarrow> int i + 1)"

definition poplow :: "u8 \<Rightarrow> int" where
  "poplow x = ffs8 (NOT x) - 1"

definition bm_SET :: "u8 \<Rightarrow> nat \<Rightarrow> u8" where
  "bm_SET x i = x OR push_bit i 1"

definition bm_CLR :: "u8 \<Rightarrow> nat \<Rightarrow> u8" where
  "bm_CLR x i = x AND NOT (push_bit i 1)"

definition bm_TEST :: "u8 \<Rightarrow> nat \<Rightarrow> bool" where
  "bm_TEST x i \<longleftrightarrow> x AND push_bit i 1 \<noteq> 0"

function bitmap_find_loop :: "bitmap_t \<Rightarrow> nat \<Rightarrow> nat \<Rightarrow> u8 \<Rightarrow> bitmap_t \<times> size_t" where
  "bitmap_find_loop bmp bytes idx msk =
     (if idx < bytes then
        let unit = bm_map bmp ! idx OR msk in
        if unit = mpfull then bitmap_find_loop bmp bytes (Suc idx) 0
        else
          let low = poplow unit; tlb = unat (bm_bits bmp mod 8) in
          if idx = bytes - 1 \<and> tlb \<noteq> 0 \<and> low \<ge> int tlb then (bmp, -1)
          else (bmp\<lparr>bm_map := (bm_map bmp)[idx := bm_SET (bm_map bmp ! idx) (nat low)]\<rparr>,
                of_int low + 8 * of_nat idx)
      else (bmp, -1))"
  by pat_completeness auto
termination
  by (relation "measure (\<lambda>(bmp, bytes, idx, msk). bytes - idx)") auto

declare bitmap_find_loop.simps [simp del]

definition bitmap_find_range :: "bitmap_t \<Rightarrow> size_t \<Rightarrow> size_t \<Rightarrow> (bitmap_t \<times> size_t) option" where
  "bitmap_find_range bmp from to = do {
     assertk (to \<le> bm_bits bmp);
     assertk (from \<le> to);
     let bytes = bm_bytes (bm_bits bmp);
     let msk = push_bit (unat (from mod 8)) 1 - 1;
     Some (bitmap_find_loop bmp bytes (unat (from div 8)) msk)
   }"

definition bitmap_find :: "bitmap_t \<Rightarrow> (bitmap_t \<times> size_t) option" where
  "bitmap_find bmp = bitmap_find_range bmp 0 (bm_bits bmp)"

definition bitmap_find_from :: "bitmap_t \<Rightarrow> size_t \<Rightarrow> (bitmap_t \<times> size_t) option" where
  "bitmap_find_from bmp from = bitmap_find_range bmp from (bm_bits bmp)"

definition bitmap_test :: "bitmap_t \<Rightarrow> size_t \<Rightarrow> bool option" where
  "bitmap_test bmp i = do {
     assertk (bm_bits bmp > i);
     Some (bm_TEST (bm_map bmp ! unat (i div 8)) (unat (i mod 8)))
   }"

definition bitmap_set :: "bitmap_t \<Rightarrow> size_t \<Rightarrow> bitmap_t option" where
  "bitmap_set bmp i = do {
     assertk (bm_bits bmp > i);
     let idx = unat (i div 8);
     Some (bmp\<lparr>bm_map := (bm_map bmp)[idx := bm_SET (bm_map bmp ! idx) (unat (i mod 8))]\<rparr>)
   }"

definition bitmap_reset :: "bitmap_t \<Rightarrow> size_t \<Rightarrow> bitmap_t option" where
  "bitmap_reset bmp i = do {
     assertk (bm_bits bmp > i);
     let idx = unat (i div 8);
     Some (bmp\<lparr>bm_map := (bm_map bmp)[idx := bm_CLR (bm_map bmp ! idx) (unat (i mod 8))]\<rparr>)
   }"

definition bitmap_clear :: "bitmap_t \<Rightarrow> bitmap_t" where
  "bitmap_clear bmp =
     (let n = bm_bytes (bm_bits bmp)
      in bmp\<lparr>bm_map := replicate n 0 @ drop n (bm_map bmp)\<rparr>)"

section \<open>Bits and the set they represent\<close>

definition bm_bit :: "bitmap_t \<Rightarrow> nat \<Rightarrow> bool" where
  "bm_bit bmp i \<longleftrightarrow> bit (bm_map bmp ! (i div 8)) (i mod 8)"

definition bm_invar :: "bitmap_t \<Rightarrow> bool" where
  "bm_invar bmp \<longleftrightarrow> unat (bm_bits bmp) + 7 < 2 ^ 64 \<and> length (bm_map bmp) = bm_bytes (bm_bits bmp)"

definition bm_used :: "bitmap_t \<Rightarrow> nat set" where
  "bm_used bmp = {i. i < unat (bm_bits bmp) \<and> bm_bit bmp i}"

lemma bit_SET [simp]: "i < 8 \<Longrightarrow> bit (bm_SET x i) j \<longleftrightarrow> bit x j \<or> (j = i)"
  by (auto simp: bm_SET_def bit_simps)

lemma bit_CLR [simp]: "i < 8 \<Longrightarrow> bit (bm_CLR x i) j \<longleftrightarrow> bit x j \<and> j \<noteq> i"
  by (auto simp: bm_CLR_def bit_simps dest: bit_imp_le_length)

lemma TEST_iff: "i < 8 \<Longrightarrow> bm_TEST x i \<longleftrightarrow> bit x i"
  by (auto simp: bm_TEST_def bit_eq_iff [where 'a = u8] bit_simps)

lemma byte_index:
  assumes "bm_invar bmp" "i < unat (bm_bits bmp)"
  shows "i div 8 < length (bm_map bmp)"
  using assms by (auto simp: bm_invar_def bm_bytes_def unat_div unat_word_ariths)

lemma bm_bytes_eq: "bm_invar bmp \<Longrightarrow> bm_bytes (bm_bits bmp) = (unat (bm_bits bmp) + 7) div 8"
  by (simp add: bm_invar_def bm_bytes_def unat_div unat_word_ariths)

lemma mpfull_iff: "x = mpfull \<longleftrightarrow> (\<forall>i<8. bit x i)"
proof -
  have "mpfull = mask 8" by (simp add: mpfull_def mask_eq_exp_minus_1)
  then show ?thesis by (auto simp: bit_eq_iff bit_simps dest: bit_imp_le_length)
qed

lemma bit_low_mask: "k < 8 \<Longrightarrow> bit (push_bit k 1 - 1 :: u8) i \<longleftrightarrow> i < k"
proof -
  assume "k < 8"
  have "push_bit k 1 - 1 = (mask k :: u8)"
    by (simp add: mask_eq_exp_minus_1 push_bit_eq_mult)
  then show ?thesis using \<open>k < 8\<close> by (auto simp: bit_simps)
qed

text \<open>\<open>poplow\<close> is the lowest clear bit of a byte that has one.\<close>

lemma poplow_least:
  assumes "x \<noteq> mpfull"
  obtains l where "poplow x = int l" "l < 8" "\<not> bit x l" "\<And>i. i < l \<Longrightarrow> bit x i"
proof -
  obtain i where i: "i < 8" "\<not> bit x i" using assms by (auto simp: mpfull_iff)
  have nb: "bit (NOT x) j \<longleftrightarrow> \<not> bit x j" if "j < 8" for j
    using that by (simp add: bit_simps)
  then obtain l where l: "find (\<lambda>i. bit (NOT x) i) [0..<8] = Some l"
    using i by (cases "find (\<lambda>i. bit (NOT x) i) [0..<8]") (auto simp: find_None_iff)
  then obtain k where "k < 8" "bit (NOT x) ([0..<8] ! k)" "l = [0..<8] ! k"
      "\<forall>j<k. \<not> bit (NOT x) ([0..<8] ! j)"
    by (auto simp: find_Some_iff)
  then show ?thesis
    using that [of l] l nb by (simp add: poplow_def ffs8_def)
qed

section \<open>Finding a clear bit\<close>

definition bm_take :: "bitmap_t \<Rightarrow> nat \<Rightarrow> bitmap_t" where
  "bm_take bmp j = bmp\<lparr>bm_map := (bm_map bmp)[j div 8 := bm_SET (bm_map bmp ! (j div 8)) (j mod 8)]\<rparr>"

definition least_free :: "bitmap_t \<Rightarrow> nat \<Rightarrow> nat \<Rightarrow> bool" where
  "least_free bmp from j \<longleftrightarrow> from \<le> j \<and> j < unat (bm_bits bmp) \<and> \<not> bm_bit bmp j \<and>
     (\<forall>i. from \<le> i \<and> i < j \<longrightarrow> bm_bit bmp i)"

definition none_free :: "bitmap_t \<Rightarrow> nat \<Rightarrow> bool" where
  "none_free bmp from \<longleftrightarrow> (\<forall>i. from \<le> i \<and> i < unat (bm_bits bmp) \<longrightarrow> bm_bit bmp i)"

lemma none_free_step:
  assumes "none_free bmp (8 * Suc idx)" "\<And>m. k \<le> m \<Longrightarrow> m < 8 \<Longrightarrow> bm_bit bmp (8 * idx + m)"
  shows "none_free bmp (8 * idx + k)"
  unfolding none_free_def
proof (intro allI impI)
  fix i assume i: "8 * idx + k \<le> i \<and> i < unat (bm_bits bmp)"
  show "bm_bit bmp i"
  proof (cases "i < 8 * Suc idx")
    case True
    then show ?thesis using i assms(2) [of "i - 8 * idx"] by auto
  next
    case False
    then show ?thesis using i assms(1) by (simp add: none_free_def)
  qed
qed

lemma least_free_step:
  assumes "least_free bmp (8 * Suc idx) j" "\<And>m. k \<le> m \<Longrightarrow> m < 8 \<Longrightarrow> bm_bit bmp (8 * idx + m)" "k < 8"
  shows "least_free bmp (8 * idx + k) j"
  unfolding least_free_def
proof (intro conjI allI impI)
  fix i assume i: "8 * idx + k \<le> i \<and> i < j"
  show "bm_bit bmp i"
  proof (cases "i < 8 * Suc idx")
    case True
    then show ?thesis using i assms(2) [of "i - 8 * idx"] by auto
  next
    case False
    then show ?thesis using i assms(1) by (simp add: least_free_def)
  qed
qed (use assms in \<open>auto simp: least_free_def\<close>)

lemma bit_unit:
  "k < 8 \<Longrightarrow> m < 8 \<Longrightarrow>
    bit (bm_map bmp ! idx OR (push_bit k 1 - 1)) m \<longleftrightarrow> bm_bit bmp (8 * idx + m) \<or> m < k"
  by (simp add: bit_or_iff bit_low_mask bm_bit_def del: push_bit_of_1)

lemma of_nat_word_neq_max:
  "n < 2 ^ LENGTH('a) - 1 \<Longrightarrow> (of_nat n :: 'a::len word) \<noteq> -1"
proof
  assume "n < 2 ^ LENGTH('a) - 1" "(of_nat n :: 'a word) = -1"
  then have "unat (of_nat n :: 'a word) = unat (-1 :: 'a word)" "n < 2 ^ LENGTH('a)" by simp_all
  with \<open>n < 2 ^ LENGTH('a) - 1\<close> show False
    by (simp add: unat_of_nat_lt unsigned_minus_1_eq_mask mask_eq_exp_minus_1)
qed

lemma round_up_8:
  fixes N :: nat
  shows "(N + 7) div 8 = N div 8 + (if N mod 8 = 0 then 0 else 1)"
proof -
  obtain q r where q: "N = 8 * q + r" "r < 8" by (metis mod_less_divisor mult_div_mod_eq zero_less_numeral)
  have "(8 * q + r + 7) div 8 = q + (r + 7) div 8" by (simp add: add.assoc)
  moreover have "(r + 7) div 8 = (if r = 0 then 0 else 1)" using q(2) by (auto intro: div_nat_eqI)
  ultimately show ?thesis using q by simp
qed

lemma last_unit_below:
  fixes N idx i :: nat
  assumes "idx = (N + 7) div 8 - 1" "N mod 8 \<noteq> 0" "8 * idx \<le> i" "i < N"
  shows "i - 8 * idx < N mod 8"
proof -
  have "idx = N div 8" using assms(1,2) by (simp add: round_up_8)
  then show ?thesis using assms(3,4) mult_div_mod_eq [of 8 N] by linarith
qed

lemma last_unit_in_range:
  fixes N idx l :: nat
  assumes "idx < (N + 7) div 8" "l < 8" "\<not> (idx = (N + 7) div 8 - 1 \<and> N mod 8 \<noteq> 0 \<and> N mod 8 \<le> l)"
  shows "8 * idx + l < N"
proof (cases "N mod 8 = 0")
  case True
  then have "idx < N div 8" "N = 8 * (N div 8)" using assms(1) by (auto simp: round_up_8)
  then show ?thesis using assms(2) by linarith
next
  case False
  then have "idx < N div 8 \<or> (idx = N div 8 \<and> l < N mod 8)" using assms(1,3) by (auto simp: round_up_8)
  then show ?thesis using assms(2) mult_div_mod_eq [of 8 N] by linarith
qed

lemma bitmap_find_loop_correct:
  "bm_invar bmp \<Longrightarrow> bytes = bm_bytes (bm_bits bmp) \<Longrightarrow> k < 8 \<Longrightarrow> msk = push_bit k 1 - 1 \<Longrightarrow>
    bitmap_find_loop bmp bytes idx msk = (bmp', r) \<Longrightarrow>
    (r = -1 \<and> bmp' = bmp \<and> none_free bmp (8 * idx + k)) \<or>
    (\<exists>j. r = of_nat j \<and> least_free bmp (8 * idx + k) j \<and> bmp' = bm_take bmp j)"
proof (induction bmp bytes idx msk arbitrary: k rule: bitmap_find_loop.induct)
  case (1 bmp bytes idx msk)
  let ?unit = "bm_map bmp ! idx OR msk"
  have bytes: "bytes = (unat (bm_bits bmp) + 7) div 8"
    using "1.prems"(1,2) bm_bytes_eq by simp
  have unit: "m < 8 \<Longrightarrow> bit ?unit m \<longleftrightarrow> bm_bit bmp (8 * idx + m) \<or> m < k" for m
    using "1.prems"(3,4) bit_unit by blast
  consider (stop) "\<not> idx < bytes" | (full) "idx < bytes" "?unit = mpfull"
    | (free) "idx < bytes" "?unit \<noteq> mpfull" by blast
  then show ?case
  proof cases
    case stop
    then have "r = -1 \<and> bmp' = bmp"
      using "1.prems"(5) by (subst (asm) bitmap_find_loop.simps) simp
    moreover have "none_free bmp (8 * idx + k)" using stop bytes by (auto simp: none_free_def)
    ultimately show ?thesis by blast
  next
    case full
    then have call: "bitmap_find_loop bmp bytes (Suc idx) 0 = (bmp', r)"
      using "1.prems"(5) by (subst (asm) bitmap_find_loop.simps) (simp add: Let_def)
    have all: "bm_bit bmp (8 * idx + m)" if "k \<le> m" "m < 8" for m
      using full(2) unit [of m] that by (auto simp: mpfull_iff)
    have "(r = -1 \<and> bmp' = bmp \<and> none_free bmp (8 * Suc idx + 0)) \<or>
        (\<exists>j. r = of_nat j \<and> least_free bmp (8 * Suc idx + 0) j \<and> bmp' = bm_take bmp j)"
      using full "1.prems"(1,2) call by (intro "1.IH") auto
    then show ?thesis
      using none_free_step [of bmp idx k] least_free_step [of bmp idx _ k] all "1.prems"(3) by auto
  next
    case free
    obtain l where l: "poplow ?unit = int l" "l < 8" "\<not> bit ?unit l" "\<And>i. i < l \<Longrightarrow> bit ?unit i"
      using poplow_least [OF free(2)] by blast
    then have kl: "k \<le> l" and clear: "\<not> bm_bit bmp (8 * idx + l)"
      and below: "\<And>m. k \<le> m \<Longrightarrow> m < l \<Longrightarrow> bm_bit bmp (8 * idx + m)"
      using unit by (auto, fastforce)
    let ?t = "unat (bm_bits bmp) mod 8"
    have t: "unat (bm_bits bmp mod 8) = ?t" by (simp add: unat_mod)
    have low: "of_int (int l) + 8 * of_nat idx = (of_nat (8 * idx + l) :: size_t)" by simp
    have dm: "(8 * idx + l) div 8 = idx" "(8 * idx + l) mod 8 = l" using l(2) by simp_all
    have res: "(bmp', r) = (if idx = bytes - 1 \<and> ?t \<noteq> 0 \<and> ?t \<le> l then (bmp, -1)
        else (bm_take bmp (8 * idx + l), of_nat (8 * idx + l)))"
      unfolding bm_take_def dm using "1.prems"(5) [symmetric]
      by (subst (asm) bitmap_find_loop.simps)
        (simp only: Let_def l(1) t low free nat_int of_nat_le_iff if_True if_False)
    show ?thesis
    proof (cases "idx = bytes - 1 \<and> ?t \<noteq> 0 \<and> ?t \<le> l")
      case True
      have "none_free bmp (8 * idx + k)"
        unfolding none_free_def
      proof (intro allI impI)
        fix i assume i: "8 * idx + k \<le> i \<and> i < unat (bm_bits bmp)"
        then have "i - 8 * idx < ?t"
          using True unfolding bytes by (intro last_unit_below) auto
        then have "bm_bit bmp (8 * idx + (i - 8 * idx))"
          using i True by (intro below) linarith+
        then show "bm_bit bmp i" using i by simp
      qed
      then show ?thesis using res True by auto
    next
      case False
      have "8 * idx + l < unat (bm_bits bmp)"
        using False free(1) l(2) unfolding bytes by (intro last_unit_in_range) auto
      moreover have "bm_bit bmp i" if "8 * idx + k \<le> i" "i < 8 * idx + l" for i
        using below [of "i - 8 * idx"] that by auto
      ultimately have "least_free bmp (8 * idx + k) (8 * idx + l)"
        using kl clear by (simp add: least_free_def)
      moreover have "bmp' = bm_take bmp (8 * idx + l)" "r = of_nat (8 * idx + l)"
        using res unfolding if_not_P [OF False] by blast+
      ultimately show ?thesis by blast
    qed
  qed
qed

lemma bm_bit_take:
  assumes "bm_invar bmp" "j < unat (bm_bits bmp)"
  shows "bm_bit (bm_take bmp j) i \<longleftrightarrow> bm_bit bmp i \<or> i = j"
proof (cases "i div 8 = j div 8")
  case True
  then have "i = j \<longleftrightarrow> i mod 8 = j mod 8"
    by (metis mult_div_mod_eq)
  then show ?thesis
    using True byte_index [OF assms] by (simp add: bm_bit_def bm_take_def)
next
  case False
  then show ?thesis by (auto simp: bm_bit_def bm_take_def)
qed

lemma bm_used_take:
  assumes "bm_invar bmp" "j < unat (bm_bits bmp)"
  shows "bm_used (bm_take bmp j) = insert j (bm_used bmp)"
  using assms by (auto simp: bm_used_def bm_bit_take) (simp_all add: bm_take_def)

lemma bm_invar_take: "bm_invar bmp \<Longrightarrow> bm_invar (bm_take bmp j)"
  by (simp add: bm_invar_def bm_take_def)

lemma bm_bits_take [simp]: "bm_bits (bm_take bmp j) = bm_bits bmp"
  by (simp add: bm_take_def)

lemma low_bits_start:
  fixes x :: size_t
  shows "8 * unat (x div 8) + unat (x mod 8) = unat x" "unat (x mod 8) < 8"
  by (simp_all add: unat_div unat_mod)

lemma bitmap_find_range_correct:
  assumes "bm_invar bmp" "to \<le> bm_bits bmp" "from \<le> to"
  obtains (none) "bitmap_find_range bmp from to = Some (bmp, -1)" "none_free bmp (unat from)"
  | (found) j where "bitmap_find_range bmp from to = Some (bm_take bmp j, of_nat j)"
      "least_free bmp (unat from) j"
proof -
  obtain bmp' r where call: "bitmap_find_loop bmp (bm_bytes (bm_bits bmp)) (unat (from div 8))
      (push_bit (unat (from mod 8)) 1 - 1) = (bmp', r)"
    by fastforce
  then have "bitmap_find_range bmp from to = Some (bmp', r)"
    using assms(2,3) by (simp add: bitmap_find_range_def del: push_bit_of_1)
  moreover have "(r = -1 \<and> bmp' = bmp \<and> none_free bmp (unat from)) \<or>
      (\<exists>j. r = of_nat j \<and> least_free bmp (unat from) j \<and> bmp' = bm_take bmp j)"
    using bitmap_find_loop_correct [OF assms(1) refl low_bits_start(2) refl call]
    by (simp add: low_bits_start(1))
  ultimately show thesis using none found by blast
qed

lemma least_free_bounds:
  assumes "bm_invar bmp" "least_free bmp from j"
  shows "of_nat j \<noteq> (-1 :: size_t)" "unat (of_nat j :: size_t) = j"
proof -
  have j: "j < 2 ^ 64 - 1" using assms by (auto simp: bm_invar_def least_free_def)
  then show "of_nat j \<noteq> (-1 :: size_t)" by (intro of_nat_word_neq_max) simp
  show "unat (of_nat j :: size_t) = j" using j by (intro unat_of_nat_lt) simp
qed

lemma bitmap_reset_correct:
  assumes "bm_invar bmp" "unat i < unat (bm_bits bmp)"
  obtains bmp' where "bitmap_reset bmp i = Some bmp'" "bm_invar bmp'"
    "bm_used bmp' = bm_used bmp - {unat i}" "bm_bits bmp' = bm_bits bmp"
proof -
  let ?k = "unat (i div 8)" and ?m = "unat (i mod 8)"
  let ?b = "bmp\<lparr>bm_map := (bm_map bmp)[?k := bm_CLR (bm_map bmp ! ?k) ?m]\<rparr>"
  have i: "?k = unat i div 8" "?m = unat i mod 8" by (simp_all add: unat_div unat_mod)
  have bit: "bm_bit ?b j \<longleftrightarrow> bm_bit bmp j \<and> j \<noteq> unat i" for j
  proof (cases "j div 8 = unat i div 8")
    case True
    then have "j = unat i \<longleftrightarrow> j mod 8 = unat i mod 8" by (metis mult_div_mod_eq)
    then show ?thesis
      using True byte_index [OF assms] by (simp add: bm_bit_def i)
  qed (auto simp: bm_bit_def i)
  show thesis
  proof (rule that)
    show "bitmap_reset bmp i = Some ?b"
      using assms(2) by (simp add: bitmap_reset_def word_less_nat_alt Let_def)
    show "bm_invar ?b" using assms(1) by (simp add: bm_invar_def)
    show "bm_used ?b = bm_used bmp - {unat i}" using bit by (auto simp: bm_used_def)
  qed simp
qed

section \<open>The slot allocator contract\<close>

locale slot_alloc =
  fixes invar :: "'b \<Rightarrow> bool"
    and used :: "'b \<Rightarrow> nat set"
    and slots :: "'b \<Rightarrow> nat"
    and alloc :: "'b \<Rightarrow> ('b \<times> size_t) option"
    and release :: "'b \<Rightarrow> size_t \<Rightarrow> 'b option"
  assumes used_slots: "invar b \<Longrightarrow> used b \<subseteq> {..<slots b}"
    and alloc_total: "invar b \<Longrightarrow> \<exists>b' r. alloc b = Some (b', r)"
    and alloc_invar: "invar b \<Longrightarrow> alloc b = Some (b', r) \<Longrightarrow> invar b' \<and> slots b' = slots b"
    and alloc_none: "invar b \<Longrightarrow> alloc b = Some (b', r) \<Longrightarrow> r = -1 \<Longrightarrow> b' = b \<and> used b = {..<slots b}"
    and alloc_some: "invar b \<Longrightarrow> alloc b = Some (b', r) \<Longrightarrow> r \<noteq> -1 \<Longrightarrow>
      unat r < slots b \<and> unat r \<notin> used b \<and> used b' = insert (unat r) (used b)"
    and release_ok: "invar b \<Longrightarrow> unat i < slots b \<Longrightarrow>
      \<exists>b'. release b i = Some b' \<and> invar b' \<and> slots b' = slots b \<and> used b' = used b - {unat i}"
begin

lemma alloc_fails_iff_full:
  "invar b \<Longrightarrow> alloc b = Some (b', r) \<Longrightarrow> r = -1 \<longleftrightarrow> used b = {..<slots b}"
  using alloc_none alloc_some by blast

text \<open>Two slots that are held at the same time differ.\<close>

lemma alloc_twice:
  assumes "invar b" "alloc b = Some (b1, r1)" "r1 \<noteq> -1" "alloc b1 = Some (b2, r2)" "r2 \<noteq> -1"
  shows "r1 \<noteq> r2"
  using alloc_some [OF assms(1-3)] alloc_invar [OF assms(1,2)] alloc_some [OF _ assms(4,5)] by auto

text \<open>A slot that is given back makes room again, and the other slots stay taken.\<close>

lemma release_alloc:
  assumes "invar b" "unat i \<in> used b"
  obtains b1 b2 r where "release b i = Some b1" "alloc b1 = Some (b2, r)" "r \<noteq> -1"
    "used b - {unat i} \<subseteq> used b2" "unat r \<notin> used b - {unat i}"
proof -
  have i: "unat i < slots b" using assms used_slots by blast
  then obtain b1 where b1: "release b i = Some b1" "invar b1" "slots b1 = slots b"
      "used b1 = used b - {unat i}"
    using release_ok [OF assms(1)] by blast
  obtain b2 r where b2: "alloc b1 = Some (b2, r)" using alloc_total [OF b1(2)] by blast
  have r: "r \<noteq> -1" using alloc_fails_iff_full [OF b1(2) b2] b1(3,4) i by auto
  show thesis
    using that [OF b1(1) b2 r] alloc_some [OF b1(2) b2 r] b1(4) by auto
qed

end

interpretation bm: slot_alloc bm_invar bm_used "\<lambda>b. unat (bm_bits b)" bitmap_find bitmap_reset
proof unfold_locales
  fix b b' :: bitmap_t and r i :: size_t
  assume b: "bm_invar b"
  show "bm_used b \<subseteq> {..<unat (bm_bits b)}" by (auto simp: bm_used_def)
  have le: "bm_bits b \<le> bm_bits b" "0 \<le> bm_bits b" by simp_all
  show "\<exists>b' r. bitmap_find b = Some (b', r)"
    by (rule bitmap_find_range_correct [OF b le]) (auto simp: bitmap_find_def)
  show "\<exists>b'. bitmap_reset b i = Some b' \<and> bm_invar b' \<and> unat (bm_bits b') = unat (bm_bits b) \<and>
      bm_used b' = bm_used b - {unat i}" if "unat i < unat (bm_bits b)"
    by (rule bitmap_reset_correct [OF b that]) auto
  assume f: "bitmap_find b = Some (b', r)"
  from b le show "bm_invar b' \<and> unat (bm_bits b') = unat (bm_bits b)"
    by (rule bitmap_find_range_correct) (use f b in \<open>auto simp: bitmap_find_def bm_invar_take\<close>)
  from b le show "b' = b \<and> bm_used b = {..<unat (bm_bits b)}" if "r = -1"
    by (rule bitmap_find_range_correct)
      (use f that in \<open>auto simp: bitmap_find_def none_free_def bm_used_def dest: least_free_bounds(1) [OF b]\<close>)
  from b le show "unat r < unat (bm_bits b) \<and> unat r \<notin> bm_used b \<and>
      bm_used b' = insert (unat r) (bm_used b)" if "r \<noteq> -1"
  proof (rule bitmap_find_range_correct)
    fix j assume j: "bitmap_find_range b 0 (bm_bits b) = Some (bm_take b j, of_nat j)"
      "least_free b (unat 0) j"
    then have "b' = bm_take b j" "unat r = j" "j < unat (bm_bits b)"
      using f least_free_bounds [OF b j(2)] by (auto simp: bitmap_find_def least_free_def)
    then show ?thesis using j(2) b by (simp add: bm_used_take) (simp add: bm_used_def least_free_def)
  qed (use f that in \<open>auto simp: bitmap_find_def\<close>)
qed

section \<open>Properties\<close>

abbreviation bitmap_example :: bitmap_t where
  "bitmap_example \<equiv> \<lparr>bm_map = [0xFF, 0x0B], bm_bits = 12\<rparr>"

lemma bitmap_example_ok: "bm_invar bitmap_example"
  by (simp add: bm_invar_def bm_bytes_def)



text \<open>
  A slot that is given back can be allocated again: after \<open>bitmap_reset\<close> of a used bit
  the next \<open>bitmap_find\<close> succeeds, and it never returns a bit that another user holds.
\<close>

lemma bitmap_reset_find:
  assumes "bm_invar bmp" "unat i \<in> bm_used bmp"
  shows "\<exists>b1 b2 r. bitmap_reset bmp i = Some b1 \<and> bitmap_find b1 = Some (b2, r) \<and> r \<noteq> -1 \<and>
    unat r \<notin> bm_used bmp - {unat i} \<and> bm_used bmp - {unat i} \<subseteq> bm_used b2"
  using bm.release_alloc [OF assms] by metis

text \<open>
  C6: \<open>bitmap_find_range\<close> does not keep to the upper end of the range: asked for a bit of
  \<open>[0, 1)\<close> in a map whose bit 0 is taken it returns bit 1.
\<close>

lemma bitmap_find_range_ignores_to:
  "bitmap_find_range \<lparr>bm_map = [1], bm_bits = 8\<rparr> 0 1 = Some (\<lparr>bm_map = [3], bm_bits = 8\<rparr>, 1)"
  by code_simp

end
