(* ===== verification/Mm_Pmm.thy ===== *)
theory Mm_Pmm
  imports Textos_Prelude
begin

text \<open>
  The physical page allocator of \<open>src/kernel/mm/pmm.c\<close>: a singly linked list of free
  regions in ascending order of address, searched first fit.

  The list is a HOL list of its nodes \<open>(addr, pages)\<close>. Before the kernel switches to
  virtual memory the nodes live inside the free pages, afterwards on the kernel heap
  (\<open>__pmm_tovmm\<close>); where a node is stored makes no difference to the list, so the
  storage is left out. The one exception, releasing pages before the switch, is not
  modelled: \<open>pmm_freepages\<close> below is the code after the switch.

  Following a \<open>NULL\<close> link, as the do-while loops do on an empty list, is \<open>None\<close>.
\<close>

record free_t =
  fr_pages :: size_t
  fr_addr :: addr_t

record pmm_t =
  page_total :: u64
  page_free :: u64
  pm_list :: "free_t list"

definition PAGE_SIZ :: u64 where
  "PAGE_SIZ = 4096"

definition PAGE_MASK :: u64 where
  "PAGE_MASK = 4095"

text \<open>\<open>pmm_allocpages\<close>: the first region with enough pages is shortened from below.\<close>

fun pmm_alloc_loop :: "size_t \<Rightarrow> free_t list \<Rightarrow> (free_t list \<times> addr_t) option" where
  "pmm_alloc_loop num [] = None"
| "pmm_alloc_loop num (n # ns) =
     (if fr_pages n \<ge> num then
        let n' = n\<lparr>fr_pages := fr_pages n - num\<rparr>; page = fr_addr n in
        if fr_pages n' = 0 then Some (ns, page)
        else Some (n'\<lparr>fr_addr := fr_addr n + num * PAGE_SIZ\<rparr> # ns, page)
      else if ns = [] then Some ([n], 0)
      else do { (ns', page) \<leftarrow> pmm_alloc_loop num ns; Some (n # ns', page) })"

definition pmm_allocpages :: "pmm_t \<Rightarrow> size_t \<Rightarrow> (pmm_t \<times> addr_t) option" where
  "pmm_allocpages p num = do {
     (l, page) \<leftarrow> pmm_alloc_loop num (pm_list p);
     let p' = p\<lparr>pm_list := l\<rparr>;
     Some (if page \<noteq> 0 then p'\<lparr>page_free := page_free p - num\<rparr> else p', page)
   }"

text \<open>
  \<open>pmm_allochard\<close> reserves a given range. The loop advances \<open>prev\<close> by \<open>prev->next\<close>
  after it has unlinked \<open>n\<close>, so from the first removal on \<open>prev\<close> and \<open>n\<close> are the same
  node (\<open>same\<close>), and unlinking through \<open>prev\<close> has no effect any more. In the splitting
  case the new upper node starts at \<open>end\<close>, so that the next iteration skips it.
\<close>

fun pmm_hard_loop :: "addr_t \<Rightarrow> addr_t \<Rightarrow> bool \<Rightarrow> free_t list \<Rightarrow> free_t list" where
  "pmm_hard_loop start end same [] = []"
| "pmm_hard_loop start end same (n # ns) =
     (let phy_start = fr_addr n; phy_end = fr_addr n + fr_pages n * PAGE_SIZ in
      if phy_end \<le> start \<or> phy_start \<ge> end then n # pmm_hard_loop start end same ns
      else if phy_start < start \<and> phy_end > end then
        n\<lparr>fr_pages := (start - phy_start) div PAGE_SIZ\<rparr>
        # \<lparr>fr_pages = (phy_end - end) div PAGE_SIZ, fr_addr = end\<rparr>
        # pmm_hard_loop start end same ns
      else if phy_start \<ge> start \<and> phy_end \<le> end then
        (if same then n # pmm_hard_loop start end True ns
         else pmm_hard_loop start end True ns)
      else if phy_start < start \<and> phy_end > start then
        n\<lparr>fr_pages := (start - phy_start) div PAGE_SIZ\<rparr> # pmm_hard_loop start end same ns
      else if phy_start < end \<and> phy_end > end then
        n\<lparr>fr_addr := end, fr_pages := (phy_end - end) div PAGE_SIZ\<rparr> # pmm_hard_loop start end same ns
      else n # pmm_hard_loop start end same ns)"

definition pmm_allochard :: "pmm_t \<Rightarrow> addr_t \<Rightarrow> size_t \<Rightarrow> pmm_t option" where
  "pmm_allochard p page num = do {
     assertk (page AND PAGE_MASK = 0);
     Some (if num = 0 then p
           else p\<lparr>pm_list := pmm_hard_loop page (page + num * PAGE_SIZ) False (pm_list p)\<rparr>)
   }"

fun pmm_isfree_loop :: "addr_t \<Rightarrow> addr_t \<Rightarrow> free_t list \<Rightarrow> bool option" where
  "pmm_isfree_loop start end [] = None"
| "pmm_isfree_loop start end (n # ns) =
     (let ps = fr_addr n; pe = fr_addr n + fr_pages n * PAGE_SIZ in
      if max ps start < min pe end then Some True
      else if ns = [] then Some False
      else pmm_isfree_loop start end ns)"

definition pmm_isfree :: "pmm_t \<Rightarrow> addr_t \<Rightarrow> size_t \<Rightarrow> bool option" where
  "pmm_isfree p page num = pmm_isfree_loop page (page + num * PAGE_SIZ) (pm_list p)"

text \<open>
  The loop of \<open>pmm_freepages\<close>. When no case applies until the last node, the list is left
  as it is.
\<close>

fun pmm_free_loop :: "addr_t \<Rightarrow> addr_t \<Rightarrow> size_t \<Rightarrow> free_t list \<Rightarrow> free_t list option" where
  "pmm_free_loop start end num [] = None"
| "pmm_free_loop start end num (n # ns) =
     (let ps = fr_addr n; pe = fr_addr n + fr_pages n * PAGE_SIZ in
      if ps = end then Some (n\<lparr>fr_addr := start, fr_pages := fr_pages n + num\<rparr> # ns)
      else if pe = start then Some (n\<lparr>fr_pages := fr_pages n + num\<rparr> # ns)
      else if pe < start \<and> (ns = [] \<or> fr_addr (hd ns) > end) then do {
        assertk (ns = [] \<or> end < fr_addr (hd ns));
        Some (n # \<lparr>fr_pages = num, fr_addr = start\<rparr> # ns)
      }
      else if ns = [] then Some [n]
      else do { ns' \<leftarrow> pmm_free_loop start end num ns; Some (n # ns') })"

definition pmm_freepages :: "pmm_t \<Rightarrow> addr_t \<Rightarrow> size_t \<Rightarrow> pmm_t option" where
  "pmm_freepages p page num = do {
     assertk (page AND PAGE_MASK = 0);
     busy \<leftarrow> pmm_isfree p page num;
     assertk (\<not> busy);
     l \<leftarrow> pmm_free_loop page (page + num * PAGE_SIZ) num (pm_list p);
     Some (p\<lparr>pm_list := l, page_free := page_free p + num\<rparr>)
   }"

section \<open>Boot-time construction of the list\<close>

text \<open>
  \<open>__pmm_pre\<close> walks the memory map of the firmware: (type, start, pages) descriptors for
  UEFI, (type, address, length) records for multiboot.
\<close>

datatype efi_mem = EfiBootServicesCode | EfiBootServicesData | EfiConventionalMemory | EfiOther

fun pmm_pre_efi :: "(efi_mem \<times> addr_t \<times> u64) list \<Rightarrow> pmm_t \<Rightarrow> pmm_t" where
  "pmm_pre_efi [] p = p"
| "pmm_pre_efi ((ty, phys, num) # ds) p =
     (let p = p\<lparr>page_total := page_total p + num\<rparr> in
      if num = 0 \<or> phys = 0 then pmm_pre_efi ds p
      else
        let ty' = (if ty = EfiBootServicesData \<or> ty = EfiBootServicesCode
                   then EfiConventionalMemory else ty) in
        if ty' \<noteq> EfiConventionalMemory then pmm_pre_efi ds p
        else pmm_pre_efi ds (p\<lparr>page_free := page_free p + num,
               pm_list := pm_list p @ [\<lparr>fr_pages = num, fr_addr = phys\<rparr>]\<rparr>))"

definition MULTIBOOT_MEMORY_AVAILABLE :: u32 where
  "MULTIBOOT_MEMORY_AVAILABLE = 1"

fun pmm_pre_mb1 :: "(u32 \<times> u64 \<times> u64) list \<Rightarrow> pmm_t \<Rightarrow> pmm_t" where
  "pmm_pre_mb1 [] p = p"
| "pmm_pre_mb1 ((ty, addr, len) # ms) p =
     (let p = p\<lparr>page_total := page_total p + len div PAGE_SIZ\<rparr> in
      if len = 0 \<or> addr = 0 then pmm_pre_mb1 ms p
      else if ty \<noteq> MULTIBOOT_MEMORY_AVAILABLE then pmm_pre_mb1 ms p
      else pmm_pre_mb1 ms (p\<lparr>page_free := page_free p + len div PAGE_SIZ,
             pm_list := pm_list p @ [\<lparr>fr_pages = len div PAGE_SIZ, fr_addr = addr\<rparr>]\<rparr>))"

datatype boot_map = Boot_EFI "(efi_mem \<times> addr_t \<times> u64) list" | Boot_MB1 "(u32 \<times> u64 \<times> u64) list"

definition pmm_pre :: "boot_map \<Rightarrow> pmm_t option" where
  "pmm_pre m =
     (let p0 = \<lparr>page_total = 0, page_free = 0, pm_list = []\<rparr>;
          p = (case m of Boot_EFI ds \<Rightarrow> pmm_pre_efi ds p0 | Boot_MB1 ms \<Rightarrow> pmm_pre_mb1 ms p0)
      in pmm_allochard p 0x1000 63)"

section \<open>Page frames\<close>

definition pfn :: "free_t \<Rightarrow> nat" where
  "pfn n = unat (fr_addr n) div 4096"

definition pfn_end :: "free_t \<Rightarrow> nat" where
  "pfn_end n = pfn n + unat (fr_pages n)"

definition node_frames :: "free_t \<Rightarrow> nat set" where
  "node_frames n = {pfn n..<pfn_end n}"

definition frames :: "free_t list \<Rightarrow> nat set" where
  "frames l = (\<Union>n\<in>set l. node_frames n)"

definition run_frames :: "addr_t \<Rightarrow> size_t \<Rightarrow> nat set" where
  "run_frames a num = {unat a div 4096..<unat a div 4096 + unat num}"

definition run_ok :: "addr_t \<Rightarrow> size_t \<Rightarrow> bool" where
  "run_ok a num \<longleftrightarrow> unat a mod 4096 = 0 \<and> unat a + unat num * 4096 < 2 ^ 64"

definition node_ok :: "free_t \<Rightarrow> bool" where
  "node_ok n \<longleftrightarrow> run_ok (fr_addr n) (fr_pages n) \<and> fr_addr n \<noteq> 0 \<and> fr_pages n \<noteq> 0"

definition list_ok :: "free_t list \<Rightarrow> bool" where
  "list_ok l \<longleftrightarrow> list_all node_ok l \<and> sorted_wrt (\<lambda>n m. pfn_end n \<le> pfn m) l"

lemma frames_Nil [simp]: "frames [] = {}"
  by (simp add: frames_def)

lemma frames_Cons [simp]: "frames (n # l) = node_frames n \<union> frames l"
  by (simp add: frames_def)

lemma list_ok_Nil [simp]: "list_ok []"
  by (simp add: list_ok_def)

lemma list_ok_Cons [simp]:
  "list_ok (n # l) \<longleftrightarrow> node_ok n \<and> (\<forall>m\<in>set l. pfn_end n \<le> pfn m) \<and> list_ok l"
  by (auto simp: list_ok_def)

lemma list_ok_nodes: "list_ok l \<Longrightarrow> m \<in> set l \<Longrightarrow> node_ok m"
  by (auto simp: list_ok_def list_all_iff)

lemma frames_above: "(\<forall>m\<in>set l. k \<le> pfn m) \<Longrightarrow> f \<in> frames l \<Longrightarrow> k \<le> f"
  by (force simp: frames_def node_frames_def)

lemma run_advance:
  assumes "run_ok a num" "k \<le> num"
  shows "unat (a + k * PAGE_SIZ) = unat a + unat k * 4096"
    "unat (a + k * PAGE_SIZ) div 4096 = unat a div 4096 + unat k"
    "run_ok (a + k * PAGE_SIZ) (num - k)"
proof -
  have k: "unat k \<le> unat num" using assms(2) by (simp add: word_le_nat_alt)
  have lt: "unat a + unat num * 4096 < 2 ^ 64" and al: "unat a mod 4096 = 0"
    using assms(1) by (simp_all add: run_ok_def)
  have "unat k * 4096 \<le> unat num * 4096" using k by simp
  then have "unat (k * PAGE_SIZ) = unat k * 4096"
    using lt by (simp add: PAGE_SIZ_def unat_word_ariths)
  then show e: "unat (a + k * PAGE_SIZ) = unat a + unat k * 4096"
    using lt \<open>unat k * 4096 \<le> unat num * 4096\<close> by (simp add: unat_word_ariths)
  show "unat (a + k * PAGE_SIZ) div 4096 = unat a div 4096 + unat k"
    using e by simp
  show "run_ok (a + k * PAGE_SIZ) (num - k)"
    using e al lt k unat_sub_le [OF assms(2)] by (simp add: run_ok_def)
qed

section \<open>Allocation\<close>

text \<open>The region that the first-fit search takes, with what is left of it.\<close>

lemma node_split:
  assumes "node_ok n" "num \<le> fr_pages n" "num \<noteq> fr_pages n"
  defines "r \<equiv> n\<lparr>fr_pages := fr_pages n - num, fr_addr := fr_addr n + num * PAGE_SIZ\<rparr>"
  shows "node_ok r" "pfn r = pfn n + unat num" "pfn_end r = pfn_end n"
    "node_frames r = node_frames n - run_frames (fr_addr n) num"
    "run_frames (fr_addr n) num \<subseteq> node_frames n"
proof -
  have ok: "run_ok (fr_addr n) (fr_pages n)" using assms(1) by (simp add: node_ok_def)
  note adv = run_advance [OF ok assms(2)]
  have sub: "unat (fr_pages n - num) = unat (fr_pages n) - unat num" and
    le: "unat num \<le> unat (fr_pages n)"
    using assms(2) by (simp_all add: unat_sub_le word_le_nat_alt)
  have "0 < unat (fr_addr n)" using assms(1) by (simp add: node_ok_def unat_gt_0)
  then have "fr_addr n + num * PAGE_SIZ \<noteq> 0" using adv(1) by (metis add_is_0 neq0_conv unat_0)
  then show "node_ok r" using adv(3) assms(3) by (simp add: node_ok_def r_def)
  show p: "pfn r = pfn n + unat num" using adv(2) by (simp add: pfn_def r_def)
  show e: "pfn_end r = pfn_end n" using p sub le by (simp add: pfn_end_def r_def)
  show "node_frames r = node_frames n - run_frames (fr_addr n) num"
    using p e by (auto simp: node_frames_def run_frames_def pfn_def)
  show "run_frames (fr_addr n) num \<subseteq> node_frames n"
    using le by (auto simp: node_frames_def run_frames_def pfn_def pfn_end_def)
qed

text \<open>
  What the search does on a well-formed list: it fails exactly when no region is large
  enough, and otherwise removes a run from the first region that is.
\<close>

definition alloc_post :: "size_t \<Rightarrow> free_t list \<Rightarrow> free_t list \<Rightarrow> addr_t \<Rightarrow> bool" where
  "alloc_post num l l' a \<longleftrightarrow>
     (if a = 0 then l' = l \<and> (\<forall>n\<in>set l. fr_pages n < num)
      else list_ok l' \<and> run_ok a num \<and> run_frames a num \<subseteq> frames l \<and>
        frames l' = frames l - run_frames a num \<and>
        (\<exists>us n vs. l = us @ n # vs \<and> (\<forall>u\<in>set us. fr_pages u < num) \<and> num \<le> fr_pages n \<and> fr_addr n = a))"

lemma alloc_here:
  assumes "list_ok (n # ns)" "num \<le> fr_pages n" "pmm_alloc_loop num (n # ns) = Some (l', a)"
  shows "alloc_post num (n # ns) l' a"
proof -
  have n: "node_ok n" and above: "\<forall>m\<in>set ns. pfn_end n \<le> pfn m" and ns: "list_ok ns"
    using assms(1) by auto
  have a: "a = fr_addr n" "a \<noteq> 0"
    using assms n by (auto simp: Let_def node_ok_def split: if_splits)
  have ok: "run_ok a num"
    using n assms(2) a by (auto simp: node_ok_def run_ok_def word_le_nat_alt)
  have disj: "node_frames n \<inter> frames ns = {}"
    using frames_above [OF above] by (fastforce simp: node_frames_def)
  have found: "\<exists>us m vs. n # ns = us @ m # vs \<and> (\<forall>u\<in>set us. fr_pages u < num) \<and>
      num \<le> fr_pages m \<and> fr_addr m = a"
    using assms(2) a(1) by (intro exI [of _ "[]"] exI [of _ n] exI [of _ ns]) simp
  show ?thesis
  proof (cases "fr_pages n = num")
    case True
    then have "l' = ns" using assms(3) by (simp add: Let_def)
    moreover have "run_frames a num = node_frames n"
      using True a by (simp add: run_frames_def node_frames_def pfn_def pfn_end_def)
    ultimately show ?thesis using ns ok disj found a(2) by (auto simp: alloc_post_def)
  next
    case False
    note sp = node_split [OF n assms(2) False [symmetric]]
    have "l' = n\<lparr>fr_pages := fr_pages n - num, fr_addr := fr_addr n + num * PAGE_SIZ\<rparr> # ns"
      using assms(2,3) False by (auto simp: Let_def)
    then show ?thesis
      using sp above ns ok disj found a by (auto simp: alloc_post_def)
  qed
qed

lemma pmm_alloc_loop_correct:
  "list_ok l \<Longrightarrow> pmm_alloc_loop num l = Some (l', a) \<Longrightarrow> alloc_post num l l' a"
proof (induction num l arbitrary: l' a rule: pmm_alloc_loop.induct)
  case (1 num)
  then show ?case by simp
next
  case (2 num n ns)
  consider (here) "num \<le> fr_pages n" | (last) "fr_pages n < num" "ns = []"
    | (later) "fr_pages n < num" "ns \<noteq> []" by fastforce
  then show ?case
  proof cases
    case here
    with "2.prems" show ?thesis by (blast intro: alloc_here)
  next
    case last
    then show ?thesis using "2.prems" by (auto simp: alloc_post_def not_le [symmetric])
  next
    case later
    then obtain ns' where rec: "pmm_alloc_loop num ns = Some (ns', a)" and l': "l' = n # ns'"
      using "2.prems"(2) by (auto simp: bind_eq_Some_conv not_le [symmetric])
    have ns: "list_ok ns" and above: "\<forall>m\<in>set ns. pfn_end n \<le> pfn m" and n: "node_ok n"
      using "2.prems"(1) by auto
    have post: "alloc_post num ns ns' a"
      using "2.IH" later rec ns by (simp add: linorder_not_le [symmetric])
    show ?thesis
    proof (cases "a = 0")
      case True
      then show ?thesis using post l' later(1) by (simp add: alloc_post_def)
    next
      case False
      then obtain us m vs where split: "ns = us @ m # vs" "\<forall>u\<in>set us. fr_pages u < num"
          "num \<le> fr_pages m" "fr_addr m = a" and ok: "list_ok ns'" "run_ok a num"
          "run_frames a num \<subseteq> frames ns" "frames ns' = frames ns - run_frames a num"
        using post by (auto simp: alloc_post_def)
      have "node_frames n \<inter> frames ns = {}"
        using frames_above [OF above] by (fastforce simp: node_frames_def)
      moreover have "\<forall>x\<in>set ns'. pfn_end n \<le> pfn x"
      proof
        fix x assume x: "x \<in> set ns'"
        then have "pfn x \<in> node_frames x"
          using list_ok_nodes [OF ok(1)] by (auto simp: node_frames_def pfn_end_def node_ok_def unat_gt_0)
        then have "pfn x \<in> frames ns" using x ok(4) by (auto simp: frames_def)
        then show "pfn_end n \<le> pfn x" by (rule frames_above [OF above])
      qed
      moreover have "\<exists>us m vs. n # ns = us @ m # vs \<and> (\<forall>u\<in>set us. fr_pages u < num) \<and>
          num \<le> fr_pages m \<and> fr_addr m = a"
        using split later(1) by (intro exI [of _ "n # us"] exI [of _ m] exI [of _ vs]) simp
      ultimately show ?thesis
        using False l' n ok by (auto simp: alloc_post_def)
    qed
  qed
qed

lemma pmm_alloc_loop_total: "l \<noteq> [] \<Longrightarrow> \<exists>l' a. pmm_alloc_loop num l = Some (l', a)"
  by (induction num l rule: pmm_alloc_loop.induct) (auto simp: Let_def)

section \<open>Release\<close>

text \<open>Comparing page-aligned addresses is comparing frame numbers.\<close>

lemma aligned_eq_iff:
  fixes a b :: addr_t
  assumes "unat a mod 4096 = 0" "unat b mod 4096 = 0"
  shows "a = b \<longleftrightarrow> unat a div 4096 = unat b div 4096"
    and "a < b \<longleftrightarrow> unat a div 4096 < unat b div 4096"
    and "a \<le> b \<longleftrightarrow> unat a div 4096 \<le> unat b div 4096"
proof -
  have e: "unat a = 4096 * (unat a div 4096)" "unat b = 4096 * (unat b div 4096)"
    using assms mult_div_mod_eq [of 4096 "unat a"] mult_div_mod_eq [of 4096 "unat b"] by simp_all
  show "a = b \<longleftrightarrow> unat a div 4096 = unat b div 4096"
    using e by (metis word_unat_eq_iff)
  show "a < b \<longleftrightarrow> unat a div 4096 < unat b div 4096"
    using e unfolding word_less_nat_alt by linarith
  show "a \<le> b \<longleftrightarrow> unat a div 4096 \<le> unat b div 4096"
    using e unfolding word_le_nat_alt by linarith
qed

lemma run_end:
  assumes "run_ok a num"
  shows "unat (a + num * PAGE_SIZ) div 4096 = unat a div 4096 + unat num"
    "unat (a + num * PAGE_SIZ) mod 4096 = 0"
    "unat (a + num * PAGE_SIZ) = unat a + unat num * 4096"
  using run_advance [OF assms order_refl] assms by (simp_all add: run_ok_def)

lemma node_end:
  assumes "node_ok n"
  shows "unat (fr_addr n + fr_pages n * PAGE_SIZ) div 4096 = pfn_end n"
    "unat (fr_addr n + fr_pages n * PAGE_SIZ) mod 4096 = 0" "unat (fr_addr n) mod 4096 = 0"
    "pfn n < pfn_end n"
  using assms run_end [of "fr_addr n" "fr_pages n"]
  by (simp_all add: node_ok_def pfn_end_def pfn_def run_ok_def unat_gt_0)

lemma node_disjoint_run:
  assumes "node_ok n" "num \<noteq> 0" "node_frames n \<inter> run_frames a num = {}"
  shows "pfn_end n \<le> unat a div 4096 \<or> unat a div 4096 + unat num \<le> pfn n"
proof (rule ccontr)
  assume "\<not> ?thesis"
  moreover have "0 < unat num" using assms(2) by (simp add: unat_gt_0)
  ultimately have "max (pfn n) (unat a div 4096) \<in> node_frames n \<inter> run_frames a num"
    using node_end(4) [OF assms(1)] by (auto simp: node_frames_def run_frames_def)
  then show False using assms(3) by blast
qed

lemma node_extend_up:
  assumes "node_ok n" "run_ok a num" "pfn_end n = unat a div 4096"
  defines "r \<equiv> n\<lparr>fr_pages := fr_pages n + num\<rparr>"
  shows "node_ok r" "pfn r = pfn n" "pfn_end r = unat a div 4096 + unat num"
    "node_frames r = node_frames n \<union> run_frames a num"
proof -
  have e: "unat (fr_addr n) + unat (fr_pages n) * 4096 = unat a"
    using assms(1-3) run_end(3) [of "fr_addr n" "fr_pages n"] node_end(1,2) [OF assms(1)]
    by (metis mult_div_mod_eq node_ok_def run_ok_def)
  have lt: "unat a + unat num * 4096 < 2 ^ 64" using assms(2) by (simp add: run_ok_def)
  have "unat (fr_pages n) + unat num < 2 ^ LENGTH(64)" using e lt by simp
  then have sum: "unat (fr_pages n + num) = unat (fr_pages n) + unat num" by (rule unat_add_lt)
  have "0 < unat (fr_pages n)" using assms(1) by (simp add: node_ok_def unat_gt_0)
  then have "fr_pages n + num \<noteq> 0" using sum by (metis add_is_0 neq0_conv unat_0)
  then show "node_ok r"
    using assms(1) e lt sum by (simp add: node_ok_def run_ok_def r_def algebra_simps)
  show "pfn r = pfn n" by (simp add: pfn_def r_def)
  then show "pfn_end r = unat a div 4096 + unat num"
    using assms(3) sum by (simp add: pfn_end_def r_def)
  then show "node_frames r = node_frames n \<union> run_frames a num"
    using \<open>pfn r = pfn n\<close> assms(3) node_end(4) [OF assms(1)]
    by (auto simp: node_frames_def run_frames_def)
qed

lemma node_extend_down:
  assumes "node_ok n" "run_ok a num" "a \<noteq> 0" "num \<noteq> 0" "pfn n = unat a div 4096 + unat num"
  defines "r \<equiv> n\<lparr>fr_addr := a, fr_pages := fr_pages n + num\<rparr>"
  shows "node_ok r" "pfn r = unat a div 4096" "pfn_end r = pfn_end n"
    "node_frames r = node_frames n \<union> run_frames a num"
proof -
  have e: "unat a + unat num * 4096 = unat (fr_addr n)"
    using assms(1,2,5) run_end [OF assms(2)] node_end(3) [OF assms(1)]
    by (metis mult_div_mod_eq pfn_def)
  have lt: "unat (fr_addr n) + unat (fr_pages n) * 4096 < 2 ^ 64"
    using assms(1) by (simp add: node_ok_def run_ok_def)
  have "unat (fr_pages n) + unat num < 2 ^ LENGTH(64)" using e lt by simp
  then have sum: "unat (fr_pages n + num) = unat (fr_pages n) + unat num" by (rule unat_add_lt)
  have "0 < unat num" using assms(4) by (simp add: unat_gt_0)
  then have "fr_pages n + num \<noteq> 0" using sum by (metis add_is_0 neq0_conv unat_0)
  then show "node_ok r"
    using assms(2,3) e lt sum by (simp add: node_ok_def run_ok_def r_def algebra_simps)
  show "pfn r = unat a div 4096" by (simp add: pfn_def r_def)
  then show "pfn_end r = pfn_end n"
    using assms(5) sum by (simp add: pfn_end_def r_def)
  then show "node_frames r = node_frames n \<union> run_frames a num"
    using \<open>pfn r = unat a div 4096\<close> assms(5) node_end(4) [OF assms(1)]
    by (auto simp: node_frames_def run_frames_def)
qed

definition free_post :: "addr_t \<Rightarrow> size_t \<Rightarrow> free_t list \<Rightarrow> free_t list \<Rightarrow> bool" where
  "free_post a num l l' \<longleftrightarrow> list_ok l' \<and> frames l' = frames l \<union> run_frames a num"

lemma frames_bound:
  assumes "list_ok l'" "x \<in> set l'" "\<And>f. f \<in> frames l' \<Longrightarrow> k \<le> f"
  shows "k \<le> pfn x"
proof -
  have "pfn x \<in> node_frames x"
    using node_end(4) [OF list_ok_nodes [OF assms(1,2)]] by (simp add: node_frames_def)
  then have "pfn x \<in> frames l'" using assms(2) by (auto simp: frames_def)
  then show ?thesis by (rule assms(3))
qed

text \<open>
  The pages are added to the list whenever some region lies below them or directly
  behind them; the regions are sorted, so this is a condition on the first one.
\<close>

lemma pmm_free_loop_correct:
  "list_ok l \<Longrightarrow> l \<noteq> [] \<Longrightarrow> pfn (hd l) \<le> unat a div 4096 + unat num \<Longrightarrow>
    run_ok a num \<Longrightarrow> a \<noteq> 0 \<Longrightarrow> num \<noteq> 0 \<Longrightarrow> frames l \<inter> run_frames a num = {} \<Longrightarrow>
    \<exists>l'. pmm_free_loop a (a + num * PAGE_SIZ) num l = Some l' \<and> free_post a num l l'"
proof (induction l)
  case Nil
  then show ?case by simp
next
  case (Cons n ns)
  let ?S = "unat a div 4096" and ?e = "a + num * PAGE_SIZ"
  let ?pe = "fr_addr n + fr_pages n * PAGE_SIZ"
  have n: "node_ok n" and ns: "list_ok ns" and above: "\<forall>m\<in>set ns. pfn_end n \<le> pfn m"
    using Cons.prems(1) by auto
  have a: "unat a mod 4096 = 0" using Cons.prems(4) by (simp add: run_ok_def)
  note e = run_end [OF Cons.prems(4)]
  note nd = node_end [OF n]
  have tests: "fr_addr n = ?e \<longleftrightarrow> pfn n = ?S + unat num" "?pe = a \<longleftrightarrow> pfn_end n = ?S"
      "?pe < a \<longleftrightarrow> pfn_end n < ?S"
    using aligned_eq_iff(1) [OF nd(3) e(2)] aligned_eq_iff(1,2) [OF nd(2) a] e(1) nd(1)
    by (simp_all add: pfn_def)
  have test_hd: "?e < fr_addr m \<longleftrightarrow> ?S + unat num < pfn m" if "m \<in> set ns" for m
    using aligned_eq_iff(2) [OF e(2) node_end(3)] e(1) list_ok_nodes [OF ns that] by (simp add: pfn_def)
  have pos: "0 < unat num" using Cons.prems(6) by (simp add: unat_gt_0)
  have side: "pfn_end n \<le> ?S \<or> pfn n = ?S + unat num"
    using node_disjoint_run [OF n Cons.prems(6), of a] Cons.prems(3,7) by fastforce
  have ns_side: "pfn_end n \<le> ?S \<Longrightarrow> m \<in> set ns \<Longrightarrow> pfn_end m \<le> ?S \<or> ?S + unat num \<le> pfn m" for m
    using node_disjoint_run [OF list_ok_nodes [OF ns] Cons.prems(6), of m a] Cons.prems(7)
    by (auto simp: frames_def)
  consider (down) "pfn n = ?S + unat num" | (up) "pfn_end n = ?S"
    | (insert) "pfn_end n < ?S" "ns = [] \<or> ?S + unat num < pfn (hd ns)"
    | (later) "pfn_end n < ?S" "ns \<noteq> []" "pfn (hd ns) \<le> ?S + unat num"
    using side by fastforce
  then show ?case
  proof cases
    case down
    note r = node_extend_down [OF n Cons.prems(4-6) down]
    show ?thesis using down tests r above ns by (auto simp: free_post_def)
  next
    case up
    note r = node_extend_up [OF n Cons.prems(4) up]
    have "pfn n \<noteq> ?S + unat num" using up nd(4) by simp
    moreover have "\<forall>m\<in>set ns. ?S + unat num \<le> pfn m"
      using ns_side above up node_end(4) list_ok_nodes [OF ns] by fastforce
    ultimately show ?thesis using up tests r ns by (auto simp: free_post_def)
  next
    case insert
    let ?new = "\<lparr>fr_pages = num, fr_addr = a\<rparr>"
    have new: "node_ok ?new" "pfn ?new = ?S" "pfn_end ?new = ?S + unat num"
        "node_frames ?new = run_frames a num"
      using Cons.prems(4-6) by (simp_all add: node_ok_def pfn_def pfn_end_def node_frames_def run_frames_def)
    have "pfn n \<noteq> ?S + unat num" using insert(1) nd(4) by simp
    moreover have "ns = [] \<or> ?e < fr_addr (hd ns)"
      using insert(2) test_hd by (cases ns) auto
    moreover have "\<forall>m\<in>set ns. ?S + unat num \<le> pfn m"
      using insert(2) ns by (cases ns) (auto simp: pfn_end_def)
    ultimately show ?thesis
      using insert(1) tests new n ns above by (auto simp: free_post_def)
  next
    case later
    have "\<exists>l'. pmm_free_loop a ?e num ns = Some l' \<and> free_post a num ns l'"
      using ns later Cons.prems(4-7) by (intro Cons.IH) auto
    then obtain l' where l': "pmm_free_loop a ?e num ns = Some l'" "free_post a num ns l'" by blast
    have "pfn n \<noteq> ?S + unat num" using later(1) nd(4) by simp
    moreover have "\<not> ?e < fr_addr (hd ns)" using later(2,3) test_hd [of "hd ns"] by simp
    moreover have "\<forall>x\<in>set l'. pfn_end n \<le> pfn x"
    proof
      fix x assume "x \<in> set l'"
      then show "pfn_end n \<le> pfn x"
        by (rule frames_bound [rotated])
          (use l'(2) later(1) frames_above [OF above] in \<open>auto simp: free_post_def run_frames_def\<close>)
    qed
    ultimately show ?thesis
      using later(1,2) tests l' n by (auto simp: free_post_def)
  qed
qed

text \<open>Otherwise the pages are dropped.\<close>

lemma pmm_free_loop_drops:
  "list_ok l \<Longrightarrow> l \<noteq> [] \<Longrightarrow> \<forall>n\<in>set l. unat a div 4096 + unat num < pfn n \<Longrightarrow> run_ok a num \<Longrightarrow>
    pmm_free_loop a (a + num * PAGE_SIZ) num l = Some l"
proof (induction l)
  case (Cons n ns)
  let ?pe = "fr_addr n + fr_pages n * PAGE_SIZ"
  have n: "node_ok n" using Cons.prems(1) by simp
  have a: "unat a mod 4096 = 0" using Cons.prems(4) by (simp add: run_ok_def)
  note e = run_end [OF Cons.prems(4)]
  note nd = node_end [OF n]
  have "fr_addr n \<noteq> a + num * PAGE_SIZ" "?pe \<noteq> a" "\<not> ?pe < a"
    using aligned_eq_iff(1) [OF nd(3) e(2)] aligned_eq_iff(1,2) [OF nd(2) a] e(1) nd(1,4) Cons.prems(3)
    by (auto simp: pfn_def)
  then show ?case using Cons by auto
qed simp

lemma pmm_isfree_loop_correct:
  "list_ok l \<Longrightarrow> l \<noteq> [] \<Longrightarrow> run_ok a num \<Longrightarrow> num \<noteq> 0 \<Longrightarrow>
    pmm_isfree_loop a (a + num * PAGE_SIZ) l = Some (frames l \<inter> run_frames a num \<noteq> {})"
proof (induction l)
  case (Cons n ns)
  let ?pe = "fr_addr n + fr_pages n * PAGE_SIZ" and ?e = "a + num * PAGE_SIZ"
  have n: "node_ok n" using Cons.prems(1) by simp
  have a: "unat a mod 4096 = 0" using Cons.prems(3) by (simp add: run_ok_def)
  note e = run_end [OF Cons.prems(3)]
  note nd = node_end [OF n]
  have pos: "0 < unat num" using Cons.prems(4) by (simp add: unat_gt_0)
  have lt: "fr_addr n < ?pe" "a < ?e"
    using aligned_eq_iff(2) [OF nd(3) nd(2)] aligned_eq_iff(2) [OF a e(2)] nd(1,4) e(1) pos
    by (simp_all add: pfn_def)
  have "max (fr_addr n) a < min ?pe ?e \<longleftrightarrow> fr_addr n < ?e \<and> a < ?pe"
    using lt by (auto simp: max_def min_def)
  also have "\<dots> \<longleftrightarrow> pfn n < unat a div 4096 + unat num \<and> unat a div 4096 < pfn_end n"
    using aligned_eq_iff(2) [OF nd(3) e(2)] aligned_eq_iff(2) [OF a nd(2)] e(1) nd(1)
    by (simp add: pfn_def)
  also have "\<dots> \<longleftrightarrow> node_frames n \<inter> run_frames a num \<noteq> {}"
    using node_disjoint_run [OF n Cons.prems(4), of a] nd(4) pos
    by (auto simp: node_frames_def run_frames_def)
  finally show ?case
    using Cons by (cases ns) (auto simp: Let_def Int_Un_distrib2)
qed simp

section \<open>Reserving a range\<close>

lemma page_count_diff:
  fixes a b :: addr_t
  assumes "unat a mod 4096 = 0" "unat b mod 4096 = 0" "b \<le> a"
  shows "unat ((a - b) div PAGE_SIZ) = unat a div 4096 - unat b div 4096"
proof -
  obtain p q where pq: "unat a = 4096 * p" "unat b = 4096 * q"
    using assms(1,2) by (metis mult_div_mod_eq add.right_neutral)
  then show ?thesis
    using unat_sub_le [OF assms(3)]
    by (simp add: unat_div PAGE_SIZ_def diff_mult_distrib2 [symmetric])
qed

definition inside :: "addr_t \<Rightarrow> size_t \<Rightarrow> free_t list \<Rightarrow> free_t list" where
  "inside a num l = filter (\<lambda>n. node_frames n \<subseteq> run_frames a num) l"

text \<open>
  The exact effect: the range is taken out, except that of the regions lying completely
  inside it only the first one is removed.
\<close>

lemma pmm_hard_loop_correct:
  "list_ok l \<Longrightarrow> run_ok a num \<Longrightarrow>
    frames (pmm_hard_loop a (a + num * PAGE_SIZ) same l) =
      (frames l - run_frames a num) \<union> frames (if same then inside a num l else tl (inside a num l))"
proof (induction l arbitrary: same)
  case Nil
  then show ?case by (simp add: inside_def)
next
  case (Cons n ns)
  let ?e = "a + num * PAGE_SIZ" and ?pe = "fr_addr n + fr_pages n * PAGE_SIZ"
  let ?S = "unat a div 4096"
  let ?E = "?S + unat num"
  have n: "node_ok n" and ns: "list_ok ns" using Cons.prems by auto
  have al: "unat a mod 4096 = 0" using Cons.prems(2) by (simp add: run_ok_def)
  note e = run_end [OF Cons.prems(2)]
  note nd = node_end [OF n]
  have tests: "?pe \<le> a \<longleftrightarrow> pfn_end n \<le> ?S" "?e \<le> fr_addr n \<longleftrightarrow> ?E \<le> pfn n"
      "fr_addr n < a \<longleftrightarrow> pfn n < ?S" "?e < ?pe \<longleftrightarrow> ?E < pfn_end n"
      "a \<le> fr_addr n \<longleftrightarrow> ?S \<le> pfn n" "?pe \<le> ?e \<longleftrightarrow> pfn_end n \<le> ?E"
      "a < ?pe \<longleftrightarrow> ?S < pfn_end n" "fr_addr n < ?e \<longleftrightarrow> pfn n < ?E"
    using aligned_eq_iff(3) [OF nd(2) al] aligned_eq_iff(3) [OF e(2) nd(3)]
      aligned_eq_iff(2) [OF nd(3) al] aligned_eq_iff(2) [OF e(2) nd(2)]
      aligned_eq_iff(3) [OF al nd(3)] aligned_eq_iff(3) [OF nd(2) e(2)]
      aligned_eq_iff(2) [OF al nd(2)] aligned_eq_iff(2) [OF nd(3) e(2)] e(1) nd(1)
    by (simp_all add: pfn_def)
  have IH: "frames (pmm_hard_loop a ?e same ns) =
      (frames ns - run_frames a num) \<union> frames (if same then inside a num ns else tl (inside a num ns))"
    for same
    using Cons.IH ns Cons.prems(2) by blast
  have low: "pfn (n\<lparr>fr_pages := (a - fr_addr n) div PAGE_SIZ\<rparr>) = pfn n \<and>
      pfn_end (n\<lparr>fr_pages := (a - fr_addr n) div PAGE_SIZ\<rparr>) = ?S" if "pfn n < ?S"
    using page_count_diff [OF al nd(3)] that tests(3) by (simp add: pfn_def pfn_end_def)
  have high: "pfn m = ?E \<and> pfn_end m = pfn_end n"
    if "?E < pfn_end n" "fr_addr m = ?e" "fr_pages m = (?pe - ?e) div PAGE_SIZ" for m
    using page_count_diff [OF nd(2) e(2)] that tests(4) e(1) nd(1) by (simp add: pfn_def pfn_end_def)
  have inside_n: "node_frames n \<subseteq> run_frames a num \<longleftrightarrow> ?S \<le> pfn n \<and> pfn_end n \<le> ?E"
    using nd(4) by (auto simp: node_frames_def run_frames_def)
  consider (out) "pfn_end n \<le> ?S \<or> ?E \<le> pfn n"
    | (split) "?S < pfn_end n" "pfn n < ?E" "pfn n < ?S" "?E < pfn_end n"
    | (inner) "?S < pfn_end n" "pfn n < ?E" "?S \<le> pfn n" "pfn_end n \<le> ?E"
    | (tail) "?S < pfn_end n" "pfn n < ?E" "pfn n < ?S" "pfn_end n \<le> ?E"
    | (head) "?S < pfn_end n" "pfn n < ?E" "?S \<le> pfn n" "?E < pfn_end n"
    by linarith
  then show ?case
  proof cases
    case out
    then have "\<not> node_frames n \<subseteq> run_frames a num" "node_frames n - run_frames a num = node_frames n"
      using inside_n nd(4) by (auto simp: node_frames_def run_frames_def)
    then show ?thesis using out tests IH [of same] by (auto simp: inside_def Un_Diff)
  next
    case split
    have "\<not> node_frames n \<subseteq> run_frames a num" using split inside_n by simp
    then show ?thesis
      using split tests IH [of same] low [OF split(3)]
        high [OF split(4), of "\<lparr>fr_pages = (?pe - ?e) div PAGE_SIZ, fr_addr = ?e\<rparr>"]
      by (auto simp: inside_def Let_def node_frames_def [abs_def] run_frames_def)
  next
    case inner
    then have "node_frames n \<subseteq> run_frames a num" using inside_n by simp
    then show ?thesis
      using inner tests IH [of True] by (auto simp: inside_def Let_def)
  next
    case tail
    have "\<not> node_frames n \<subseteq> run_frames a num" using tail inside_n by simp
    then show ?thesis
      using tail tests IH [of same] low [OF tail(3)]
      by (auto simp: inside_def Let_def node_frames_def [abs_def] run_frames_def)
  next
    case head
    have "\<not> node_frames n \<subseteq> run_frames a num" using head inside_n by simp
    then show ?thesis
      using head tests IH [of same]
        high [OF head(4), of "n\<lparr>fr_addr := ?e, fr_pages := (?pe - ?e) div PAGE_SIZ\<rparr>"]
      by (auto simp: inside_def Let_def node_frames_def [abs_def] run_frames_def)
  qed
qed

lemma PAGE_MASK_aligned: "x AND PAGE_MASK = 0 \<longleftrightarrow> unat x mod 4096 = 0"
proof -
  have "PAGE_MASK = mask 12" by (simp add: PAGE_MASK_def mask_eq_exp_minus_1)
  then have "x AND PAGE_MASK = take_bit 12 x" by (simp add: take_bit_eq_mask)
  then have "x AND PAGE_MASK = 0 \<longleftrightarrow> unat (take_bit 12 x) = 0" by (simp add: unat_eq_0)
  also have "unat (take_bit 12 x) = unat x mod 4096"
    by (simp add: take_bit_eq_mod unat_mod)
  finally show ?thesis .
qed

section \<open>The allocator contract\<close>

text \<open>
  What the virtual memory code relies on when it asks for physical pages: the run it gets
  was available before and is not available afterwards.
\<close>

locale page_alloc =
  fixes invar :: "'s \<Rightarrow> bool"
    and avail :: "'s \<Rightarrow> nat set"
    and alloc :: "'s \<Rightarrow> size_t \<Rightarrow> ('s \<times> addr_t) option"
  assumes alloc_ok: "invar s \<Longrightarrow> alloc s num = Some (s', a) \<Longrightarrow> a \<noteq> 0 \<Longrightarrow>
      invar s' \<and> run_ok a num \<and> run_frames a num \<subseteq> avail s \<and> avail s' = avail s - run_frames a num"
    and alloc_fail: "invar s \<Longrightarrow> alloc s num = Some (s', a) \<Longrightarrow> a = 0 \<Longrightarrow> s' = s"
begin

lemma alloc_invar: "invar s \<Longrightarrow> alloc s num = Some (s', a) \<Longrightarrow> invar s'"
  using alloc_ok alloc_fail by (cases "a = 0") blast+

lemma alloc_avail: "invar s \<Longrightarrow> alloc s num = Some (s', a) \<Longrightarrow> avail s' \<subseteq> avail s"
  using alloc_ok alloc_fail by (cases "a = 0") blast+

end

text \<open>A sequence of requests, and the runs they were given.\<close>

fun alloc_seq :: "('s \<Rightarrow> size_t \<Rightarrow> ('s \<times> addr_t) option) \<Rightarrow> 's \<Rightarrow> size_t list \<Rightarrow> ('s \<times> nat set list) option" where
  "alloc_seq al s [] = Some (s, [])"
| "alloc_seq al s (num # nums) = do {
     (s1, a) \<leftarrow> al s num;
     (s2, rs) \<leftarrow> alloc_seq al s1 nums;
     Some (s2, (if a = 0 then {} else run_frames a num) # rs)
   }"

context page_alloc
begin

lemma alloc_seq_disjoint:
  "invar s \<Longrightarrow> alloc_seq alloc s nums = Some (s', rs) \<Longrightarrow>
    invar s' \<and> (\<forall>r\<in>set rs. r \<subseteq> avail s) \<and> avail s' = avail s - \<Union>(set rs) \<and>
    (\<forall>i j. i < j \<and> j < length rs \<longrightarrow> rs ! i \<inter> rs ! j = {})"
proof (induction nums arbitrary: s rs)
  case Nil
  then show ?case by simp
next
  case (Cons num nums)
  then obtain s1 a rs1 where a: "alloc s num = Some (s1, a)"
      and rec: "alloc_seq alloc s1 nums = Some (s', rs1)"
      and rs: "rs = (if a = 0 then {} else run_frames a num) # rs1"
    by (auto simp: bind_eq_Some_conv)
  have head: "hd rs \<subseteq> avail s" "avail s1 = avail s - hd rs"
    using alloc_ok [OF Cons.prems(1) a] alloc_fail [OF Cons.prems(1) a] rs by auto
  have IH: "invar s' \<and> (\<forall>r\<in>set rs1. r \<subseteq> avail s1) \<and> avail s' = avail s1 - \<Union>(set rs1) \<and>
      (\<forall>i j. i < j \<and> j < length rs1 \<longrightarrow> rs1 ! i \<inter> rs1 ! j = {})"
    using Cons.IH [OF alloc_invar [OF Cons.prems(1) a] rec] .
  have "rs ! i \<inter> rs ! j = {}" if "i < j" "j < length rs" for i j
  proof (cases i)
    case 0
    have "rs ! j \<in> set rs1" using that rs by (cases j) auto
    then have "rs ! j \<subseteq> avail s1" using IH by blast
    moreover have "rs ! i = hd rs" using 0 rs by simp
    ultimately show ?thesis using head(2) by auto
  next
    case (Suc k)
    then show ?thesis using that rs IH by (cases j) auto
  qed
  then show ?case using IH head rs by auto
qed

end

interpretation pmm: page_alloc "\<lambda>p. list_ok (pm_list p)" "\<lambda>p. frames (pm_list p)" pmm_allocpages
proof unfold_locales
  fix p p' :: pmm_t and num :: size_t and a :: addr_t
  assume p: "list_ok (pm_list p)" "pmm_allocpages p num = Some (p', a)"
  then have post: "alloc_post num (pm_list p) (pm_list p') a"
    using pmm_alloc_loop_correct [OF p(1)]
    by (auto simp: pmm_allocpages_def bind_eq_Some_conv Let_def split: if_splits)
  then show "list_ok (pm_list p') \<and> run_ok a num \<and> run_frames a num \<subseteq> frames (pm_list p) \<and>
      frames (pm_list p') = frames (pm_list p) - run_frames a num" if "a \<noteq> 0"
    using that by (simp add: alloc_post_def)
  show "p' = p" if "a = 0"
    using post that p(2) by (auto simp: alloc_post_def pmm_allocpages_def bind_eq_Some_conv Let_def)
qed

section \<open>Properties\<close>

abbreviation pmm_example :: pmm_t where
  "pmm_example \<equiv> \<lparr>page_total = 16, page_free = 11,
     pm_list = [\<lparr>fr_pages = 3, fr_addr = 0x100000\<rparr>, \<lparr>fr_pages = 8, fr_addr = 0x200000\<rparr>]\<rparr>"

lemma pmm_example_ok: "list_ok (pm_list pmm_example)"
  by (simp add: node_ok_def run_ok_def pfn_def pfn_end_def)

text \<open>
  C9: On a well-formed, non-empty free list \<open>pmm_allocpages\<close> always returns. It returns 0
  and changes nothing exactly when no region is large enough. Otherwise it is first fit: the
  run starts at the start of the first region of the list that is large enough. The run
  was free, it is removed from the free frames and from the free-page count, and the list
  stays sorted, aligned and disjoint.
\<close>

theorem pmm_allocpages_correct:
  assumes "list_ok (pm_list p)" "pm_list p \<noteq> []"
  shows "\<exists>p' a. pmm_allocpages p num = Some (p', a) \<and>
    (if a = 0 then p' = p \<and> (\<forall>n\<in>set (pm_list p). fr_pages n < num)
     else list_ok (pm_list p') \<and> run_ok a num \<and> run_frames a num \<subseteq> frames (pm_list p) \<and>
       frames (pm_list p') = frames (pm_list p) - run_frames a num \<and>
       page_free p' = page_free p - num \<and>
       (\<exists>us n vs. pm_list p = us @ n # vs \<and> (\<forall>u\<in>set us. fr_pages u < num) \<and> num \<le> fr_pages n \<and> fr_addr n = a))"
proof -
  obtain l' a where l': "pmm_alloc_loop num (pm_list p) = Some (l', a)"
    using pmm_alloc_loop_total [OF assms(2)] by blast
  then have "alloc_post num (pm_list p) l' a" by (rule pmm_alloc_loop_correct [OF assms(1)])
  then show ?thesis using l'
    by (cases "a = 0") (simp_all add: pmm_allocpages_def alloc_post_def Let_def)
qed

theorem pmm_allocpages_correct_witness:
  "\<exists>p' a. pmm_allocpages pmm_example 5 = Some (p', a) \<and>
    (if a = 0 then p' = pmm_example \<and> (\<forall>n\<in>set (pm_list pmm_example). fr_pages n < 5)
     else list_ok (pm_list p') \<and> run_ok a 5 \<and> run_frames a 5 \<subseteq> frames (pm_list pmm_example) \<and>
       frames (pm_list p') = frames (pm_list pmm_example) - run_frames a 5 \<and>
       page_free p' = page_free pmm_example - 5 \<and>
       (\<exists>us n vs. pm_list pmm_example = us @ n # vs \<and> (\<forall>u\<in>set us. fr_pages u < 5) \<and> 5 \<le> fr_pages n \<and> fr_addr n = a))"
  by (rule pmm_allocpages_correct [OF pmm_example_ok]) simp

text \<open>
  C13: Runs handed out by any sequence of allocations are pairwise disjoint, and together
  with what is still free they make up what was free before.
\<close>

theorem pmm_alloc_seq_disjoint:
  assumes "list_ok (pm_list p)" "alloc_seq pmm_allocpages p nums = Some (p', rs)"
  shows "(\<forall>i j. i < j \<and> j < length rs \<longrightarrow> rs ! i \<inter> rs ! j = {}) \<and>
    frames (pm_list p) = frames (pm_list p') \<union> \<Union>(set rs) \<and> list_ok (pm_list p')"
  using pmm.alloc_seq_disjoint [OF assms] by auto

theorem pmm_alloc_seq_disjoint_witness:
  "\<exists>p' rs. alloc_seq pmm_allocpages pmm_example [2, 4] = Some (p', rs) \<and>
    (\<forall>i j. i < j \<and> j < length rs \<longrightarrow> rs ! i \<inter> rs ! j = {}) \<and>
    frames (pm_list pmm_example) = frames (pm_list p') \<union> \<Union>(set rs) \<and> list_ok (pm_list p')"
proof -
  have "\<exists>p' rs. alloc_seq pmm_allocpages pmm_example [2, 4] = Some (p', rs)"
    by (simp add: pmm_allocpages_def Let_def)
  then show ?thesis using pmm_alloc_seq_disjoint [OF pmm_example_ok] by blast
qed



text \<open>
  C37: Pages released below the first free region, and not touching it, are lost: the call
  returns normally and adds them to the free-page count, but no list entry is made.
\<close>

theorem pmm_freepages_loses_low_pages:
  assumes "list_ok (pm_list p)" "pm_list p \<noteq> []" "run_ok a num" "num \<noteq> 0"
    and "unat a div 4096 + unat num < pfn (hd (pm_list p))"
  shows "\<exists>p'. pmm_freepages p a num = Some p' \<and> pm_list p' = pm_list p \<and>
    page_free p' = page_free p + num"
proof -
  obtain n ns where l: "pm_list p = n # ns" using assms(2) by (cases "pm_list p") auto
  then have all: "\<forall>m\<in>set (pm_list p). unat a div 4096 + unat num < pfn m"
    using assms(1,5) by (auto simp: pfn_end_def)
  then have "\<forall>f\<in>frames (pm_list p). unat a div 4096 + unat num < f"
    by (fastforce simp: frames_def node_frames_def)
  then have "frames (pm_list p) \<inter> run_frames a num = {}" by (fastforce simp: run_frames_def)
  then have "pmm_isfree p a num = Some False"
    using pmm_isfree_loop_correct [OF assms(1-4)] by (simp add: pmm_isfree_def)
  moreover have "a AND PAGE_MASK = 0" using assms(3) by (simp add: PAGE_MASK_aligned run_ok_def)
  ultimately show ?thesis
    using pmm_free_loop_drops [OF assms(1,2) all assms(3)] by (simp add: pmm_freepages_def)
qed

theorem pmm_freepages_loses_low_pages_witness:
  "\<exists>p'. pmm_freepages pmm_example 0x80000 4 = Some p' \<and> pm_list p' = pm_list pmm_example \<and>
    page_free p' = page_free pmm_example + 4"
  by (rule pmm_freepages_loses_low_pages [OF pmm_example_ok])
    (simp_all add: run_ok_def pfn_def)

text \<open>
  C39: \<open>pmm_allochard\<close> removes exactly the reserved range from the free frames, except for
  the regions that lie completely inside the range: only the first of them is removed.
\<close>

theorem pmm_allochard_frames:
  assumes "list_ok (pm_list p)" "run_ok a num" "num \<noteq> 0"
  shows "\<exists>p'. pmm_allochard p a num = Some p' \<and>
    frames (pm_list p') = (frames (pm_list p) - run_frames a num) \<union>
      frames (tl (filter (\<lambda>n. node_frames n \<subseteq> run_frames a num) (pm_list p)))"
proof -
  have "a AND PAGE_MASK = 0" using assms(2) by (simp add: PAGE_MASK_aligned run_ok_def)
  then show ?thesis
    using pmm_hard_loop_correct [OF assms(1,2), of False] assms(3)
    by (simp add: pmm_allochard_def inside_def)
qed

theorem pmm_allochard_frames_witness:
  "\<exists>p'. pmm_allochard pmm_example 0x101000 1 = Some p' \<and>
    frames (pm_list p') = (frames (pm_list pmm_example) - run_frames 0x101000 1) \<union>
      frames (tl (filter (\<lambda>n. node_frames n \<subseteq> run_frames 0x101000 1) (pm_list pmm_example)))"
  by (rule pmm_allochard_frames [OF pmm_example_ok]) (simp_all add: run_ok_def)

end
