(* ===== verification/Tty_Buffer.thy ===== *)
theory Tty_Buffer
  imports Queue_Interface
begin

text \<open>
  The terminal's input and output queue of \<open>src/kernel/dev/tty/tty_buffer.c\<close>: a ring of
  4096 characters with one flag byte each, of which one slot always stays free. Indices are
  C \<open>int\<close>s that stay in \<open>[0, 4096)\<close>, modelled by \<open>int\<close> with the code's own reductions.
\<close>

definition TTY_BUFSIZ :: int where
  "TTY_BUFSIZ = 4096"

definition TTY_BF_END :: u8 where
  "TTY_BF_END = 1"

record tty_buf_t =
  tb_buf :: "u8 list"
  tb_flags :: "u8 list"
  tb_head :: int
  tb_tail :: int

definition tty_buf_init :: "tty_buf_t \<Rightarrow> tty_buf_t" where
  "tty_buf_init b = b\<lparr>tb_head := 0, tb_tail := 0\<rparr>"

definition tty_buf_full :: "tty_buf_t \<Rightarrow> bool" where
  "tty_buf_full b \<longleftrightarrow> (tb_head b + 1) mod TTY_BUFSIZ = tb_tail b"

definition tty_buf_chrs :: "tty_buf_t \<Rightarrow> int" where
  "tty_buf_chrs b = (tb_head b - tb_tail b + TTY_BUFSIZ) mod TTY_BUFSIZ"

definition tty_buf_rems :: "tty_buf_t \<Rightarrow> int" where
  "tty_buf_rems b = (tb_tail b - tb_head b - 1 + TTY_BUFSIZ) mod TTY_BUFSIZ"

text \<open>\<open>None\<close> is the result -1: the buffer is full.\<close>

definition tty_buf_putc :: "tty_buf_t \<Rightarrow> u8 \<Rightarrow> tty_buf_t option" where
  "tty_buf_putc b c =
     (let nxt = (tb_head b + 1) mod TTY_BUFSIZ in
      if nxt = tb_tail b then None
      else Some (b\<lparr>tb_buf := (tb_buf b)[nat (tb_head b) := c],
                   tb_flags := (tb_flags b)[nat (tb_head b) := 0], tb_head := nxt\<rparr>))"

text \<open>\<open>None\<close> is the result -1; otherwise the character and its flag, the C result.\<close>

definition tty_buf_getc :: "tty_buf_t \<Rightarrow> (tty_buf_t \<times> u8 \<times> u8) option" where
  "tty_buf_getc b =
     (if tb_head b = tb_tail b then None
      else Some (b\<lparr>tb_tail := (tb_tail b + 1) mod TTY_BUFSIZ\<rparr>,
                 tb_buf b ! nat (tb_tail b), tb_flags b ! nat (tb_tail b)))"

definition tty_buf_prev :: "tty_buf_t \<Rightarrow> int" where
  "tty_buf_prev b = (tb_head b - 1 + TTY_BUFSIZ) mod TTY_BUFSIZ"

definition tty_buf_mark :: "tty_buf_t \<Rightarrow> u8 \<Rightarrow> tty_buf_t \<times> int" where
  "tty_buf_mark b flag =
     (if tb_head b = tb_tail b then (b, -1)
      else let pos = nat (tty_buf_prev b) in
        (b\<lparr>tb_flags := (tb_flags b)[pos := tb_flags b ! pos OR flag]\<rparr>, 0))"

definition tty_buf_kill :: "tty_buf_t \<Rightarrow> tty_buf_t" where
  "tty_buf_kill b = b\<lparr>tb_head := 0, tb_tail := 0\<rparr>"

definition tty_buf_erase :: "tty_buf_t \<Rightarrow> tty_buf_t \<times> int" where
  "tty_buf_erase b =
     (if tb_head b = tb_tail b then (b, -1)
      else if tb_flags b ! nat (tty_buf_prev b) AND TTY_BF_END \<noteq> 0 then (b, 0)
      else (b\<lparr>tb_head := tty_buf_prev b\<rparr>, 0))"

definition tty_isspace :: "u8 \<Rightarrow> bool" where
  "tty_isspace c \<longleftrightarrow> c = 32 \<or> c = 12 \<or> c = 10 \<or> c = 13 \<or> c = 9 \<or> c = 11"

text \<open>
  The two loops of \<open>tty_buf_erasew\<close>, which differ in the test \<open>stop\<close> on the character. The
  first argument bounds the number of iterations: each one removes an element, so the size
  of the buffer is enough.
\<close>

fun tty_buf_erase_while :: "nat \<Rightarrow> (u8 \<Rightarrow> bool) \<Rightarrow> tty_buf_t \<Rightarrow> int \<Rightarrow> tty_buf_t \<times> int" where
  "tty_buf_erase_while 0 stop b count = (b, count)"
| "tty_buf_erase_while (Suc n) stop b count =
     (if tb_head b \<noteq> tb_tail b then
        let prev = tty_buf_prev b; c = tb_buf b ! nat prev; flag = tb_flags b ! nat prev in
        if flag AND TTY_BF_END \<noteq> 0 then (b, count)
        else if stop c then (b, count)
        else tty_buf_erase_while n stop (b\<lparr>tb_head := prev\<rparr>) (count + 1)
      else (b, count))"

definition tty_buf_erasew :: "tty_buf_t \<Rightarrow> tty_buf_t \<times> int" where
  "tty_buf_erasew b =
     (if tb_head b = tb_tail b then (b, 0)
      else
        let (b1, count) = tty_buf_erase_while (nat TTY_BUFSIZ) (\<lambda>c. \<not> tty_isspace c) b 0
        in tty_buf_erase_while (nat TTY_BUFSIZ) tty_isspace b1 count)"

section \<open>Invariant and contents\<close>

definition tb_invar :: "tty_buf_t \<Rightarrow> bool" where
  "tb_invar b \<longleftrightarrow> length (tb_buf b) = 4096 \<and> length (tb_flags b) = 4096 \<and>
     0 \<le> tb_head b \<and> tb_head b < 4096 \<and> 0 \<le> tb_tail b \<and> tb_tail b < 4096"

definition tb_len :: "tty_buf_t \<Rightarrow> nat" where
  "tb_len b = nat (tty_buf_chrs b)"

text \<open>The stored characters with their flags, oldest first.\<close>

definition tb_contents :: "tty_buf_t \<Rightarrow> (u8 \<times> u8) list" where
  "tb_contents b = circ (nat (tb_tail b)) 4096 (tb_len b) (zip (tb_buf b) (tb_flags b))"

lemma length_tb_contents [simp]: "length (tb_contents b) = tb_len b"
  by (simp add: tb_contents_def)

lemma tb_contents_Nil: "tb_contents b = [] \<longleftrightarrow> tb_len b = 0"
  by (simp add: tb_contents_def)

lemma mod_4096_neg: "-4096 \<le> x \<Longrightarrow> x < 0 \<Longrightarrow> x mod 4096 = x + (4096 :: int)"
  using mod_pos_pos_trivial [of "x + 4096" 4096] by simp

lemma tty_buf_chrs_eq:
  assumes "tb_invar b"
  shows "tty_buf_chrs b = (if tb_tail b \<le> tb_head b then tb_head b - tb_tail b
    else tb_head b - tb_tail b + 4096)"
  using assms mod_4096_neg [of "tb_head b - tb_tail b"]
  by (simp add: tb_invar_def tty_buf_chrs_def TTY_BUFSIZ_def mod_pos_pos_trivial)

lemma tty_buf_rems_eq:
  assumes "tb_invar b"
  shows "tty_buf_rems b = 4095 - tty_buf_chrs b"
proof (cases "tb_tail b \<le> tb_head b")
  case True
  have "(tb_tail b - tb_head b - 1) mod 4096 = tb_tail b - tb_head b - 1 + 4096"
    using assms True by (intro mod_4096_neg) (simp_all add: tb_invar_def)
  then show ?thesis
    using True tty_buf_chrs_eq [OF assms] by (simp add: tty_buf_rems_def TTY_BUFSIZ_def)
next
  case False
  then have "(tb_tail b - tb_head b - 1) mod 4096 = tb_tail b - tb_head b - 1"
    using assms by (intro mod_pos_pos_trivial) (simp_all add: tb_invar_def)
  then show ?thesis
    using False tty_buf_chrs_eq [OF assms]
    unfolding tty_buf_rems_def TTY_BUFSIZ_def mod_add_self2 by simp
qed

lemma tb_len_bounds:
  assumes "tb_invar b"
  shows "tb_len b < 4096" "tb_len b = 0 \<longleftrightarrow> tb_head b = tb_tail b" "int (tb_len b) = tty_buf_chrs b"
  using assms tty_buf_chrs_eq [OF assms] by (auto simp: tb_invar_def tb_len_def)

lemma tb_head_window:
  assumes "tb_invar b"
  shows "(nat (tb_tail b) + tb_len b) mod 4096 = nat (tb_head b)"
proof -
  have "int (nat (tb_tail b) + tb_len b) mod 4096 = tb_head b"
    using assms tty_buf_chrs_eq [OF assms] tb_len_bounds(3) [OF assms]
    by (auto simp: tb_invar_def mod_pos_pos_trivial)
  then have "int ((nat (tb_tail b) + tb_len b) mod 4096) = int (nat (tb_head b))"
    using assms by (simp only: zmod_int) (simp add: tb_invar_def)
  then show ?thesis by linarith
qed

lemma tb_inc:
  assumes "0 \<le> x" "x < 4096"
  shows "(x + 1) mod (4096 :: int) = (if x = 4095 then 0 else x + 1)"
  using assms by (auto simp: mod_pos_pos_trivial)

lemma tb_dec:
  assumes "0 \<le> x" "x < 4096"
  shows "(x - 1 + 4096) mod (4096 :: int) = (if x = 0 then 4095 else x - 1)"
  using assms unfolding mod_add_self2 by (auto simp: mod_4096_neg mod_pos_pos_trivial)

section \<open>The operations on the contents\<close>

lemma tb_put:
  assumes b: "tb_invar b" and len: "tb_len b < 4095"
  obtains b' where "tty_buf_putc b c = Some b'" "tb_invar b'"
    "tb_contents b' = tb_contents b @ [(c, 0)]"
proof -
  let ?h = "(tb_head b + 1) mod TTY_BUFSIZ" and ?i = "nat (tb_head b)"
  let ?b = "b\<lparr>tb_buf := (tb_buf b)[?i := c], tb_flags := (tb_flags b)[?i := 0], tb_head := ?h\<rparr>"
  have h: "?h = (if tb_head b = 4095 then 0 else tb_head b + 1)"
    using b by (simp add: tb_inc tb_invar_def TTY_BUFSIZ_def)
  have inv: "tb_invar ?b" using b by (simp add: h tb_invar_def)
  have ne: "?h \<noteq> tb_tail b" and len': "tb_len ?b = Suc (tb_len b)"
    using h b len tty_buf_chrs_eq [OF b] tty_buf_chrs_eq [OF inv]
    by (auto simp: tb_invar_def tb_len_def split: if_splits)
  have "tb_contents ?b = circ (nat (tb_tail b)) 4096 (Suc (tb_len b))
      ((zip (tb_buf b) (tb_flags b))[(nat (tb_tail b) + tb_len b) mod 4096 := (c, 0)])"
    by (simp add: tb_contents_def len' tb_head_window [OF b] update_zip del: length_tb_contents)
  also have "\<dots> = tb_contents b @ [(c, 0)]"
    unfolding tb_contents_def using b len by (intro circ_store) (simp_all add: tb_invar_def)
  finally show thesis using that [of ?b] ne inv by (simp add: tty_buf_putc_def Let_def)
qed

lemma tb_put_full:
  assumes "tb_invar b"
  shows "tty_buf_full b \<longleftrightarrow> tb_len b = 4095" "tty_buf_putc b c = None \<longleftrightarrow> tb_len b = 4095"
proof -
  have "(tb_head b + 1) mod TTY_BUFSIZ = tb_tail b \<longleftrightarrow> tb_len b = 4095"
    using assms tty_buf_chrs_eq [OF assms] tb_inc [of "tb_head b"]
    by (auto simp: tb_invar_def tb_len_def TTY_BUFSIZ_def split: if_splits)
  then show "tty_buf_full b \<longleftrightarrow> tb_len b = 4095" "tty_buf_putc b c = None \<longleftrightarrow> tb_len b = 4095"
    by (simp_all add: tty_buf_full_def tty_buf_putc_def Let_def)
qed

lemma tb_get:
  assumes b: "tb_invar b" and len: "tb_len b \<noteq> 0"
  obtains b' where "tty_buf_getc b = Some (b', hd (tb_contents b))" "tb_invar b'"
    "tb_contents b' = tl (tb_contents b)" "tb_len b' = tb_len b - 1"
proof -
  let ?t = "(tb_tail b + 1) mod TTY_BUFSIZ" and ?b = "b\<lparr>tb_tail := (tb_tail b + 1) mod TTY_BUFSIZ\<rparr>"
  have t: "?t = (if tb_tail b = 4095 then 0 else tb_tail b + 1)"
    using b by (simp add: tb_inc tb_invar_def TTY_BUFSIZ_def)
  have inv: "tb_invar ?b" using b by (simp add: t tb_invar_def)
  have len': "tb_len b = Suc (tb_len ?b)"
    using t b len tb_len_bounds(2) [OF b] tty_buf_chrs_eq [OF b] tty_buf_chrs_eq [OF inv]
    by (auto simp: tb_invar_def tb_len_def split: if_splits)
  have "Suc (nat (tb_tail b)) mod 4096 = nat ?t mod 4096"
    using b t by (auto simp: tb_invar_def nat_add_distrib)
  then have "circ (Suc (nat (tb_tail b))) 4096 n xs = circ (nat ?t) 4096 n xs"
    for n and xs :: "(u8 \<times> u8) list"
    by (rule circ_cong)
  moreover have tail_mod: "nat (tb_tail b) mod 4096 = nat (tb_tail b)"
  proof (rule mod_less)
    show "nat (tb_tail b) < 4096" using b by (auto simp: tb_invar_def nat_less_iff)
  qed
  ultimately have con: "tb_contents b =
      (tb_buf b ! nat (tb_tail b), tb_flags b ! nat (tb_tail b)) # tb_contents ?b"
    using b tail_mod unfolding tb_contents_def len' circ_Suc by (simp add: tb_invar_def)
  have ne: "tb_head b \<noteq> tb_tail b" using len tb_len_bounds(2) [OF b] by simp
  show thesis
  proof (rule that [OF _ inv])
    show "tty_buf_getc b = Some (?b, hd (tb_contents b))" using ne con by (simp add: tty_buf_getc_def)
    show "tb_contents ?b = tl (tb_contents b)" using con by simp
    show "tb_len ?b = tb_len b - 1" using len' by simp
  qed
qed

text \<open>The element before the write position, and stepping back over it.\<close>

lemma tb_prev:
  assumes b: "tb_invar b" and len: "tb_len b \<noteq> 0"
  shows "tb_contents b = tb_contents (b\<lparr>tb_head := tty_buf_prev b\<rparr>) @
      [(tb_buf b ! nat (tty_buf_prev b), tb_flags b ! nat (tty_buf_prev b))]"
    "tb_invar (b\<lparr>tb_head := tty_buf_prev b\<rparr>)"
    "tb_len b = Suc (tb_len (b\<lparr>tb_head := tty_buf_prev b\<rparr>))"
    "tty_buf_prev b < 4096" "0 \<le> tty_buf_prev b"
proof -
  let ?b = "b\<lparr>tb_head := tty_buf_prev b\<rparr>"
  have p: "tty_buf_prev b = (if tb_head b = 0 then 4095 else tb_head b - 1)"
    using b tb_dec [of "tb_head b"] by (simp add: tty_buf_prev_def tb_invar_def TTY_BUFSIZ_def)
  show range: "tty_buf_prev b < 4096" "0 \<le> tty_buf_prev b" using p b by (auto simp: tb_invar_def)
  show inv: "tb_invar ?b" using b range by (simp add: tb_invar_def)
  show len': "tb_len b = Suc (tb_len ?b)"
    using p b len tb_len_bounds(2) [OF b] tty_buf_chrs_eq [OF b] tty_buf_chrs_eq [OF inv]
    by (auto simp: tb_invar_def tb_len_def split: if_splits)
  have "(nat (tb_tail b) + tb_len ?b) mod 4096 = nat (tty_buf_prev b)"
    using tb_head_window [OF inv] by simp
  then show "tb_contents b = tb_contents ?b @
      [(tb_buf b ! nat (tty_buf_prev b), tb_flags b ! nat (tty_buf_prev b))]"
    using b range unfolding tb_contents_def len' circ_snoc_read by (simp add: tb_invar_def)
qed

lemma tb_empty_iff: "tb_invar b \<Longrightarrow> tb_head b = tb_tail b \<longleftrightarrow> tb_contents b = []"
  using tb_len_bounds(2) [of b] length_tb_contents [of b] by (metis length_0_conv)

lemma tb_reset:
  "tb_invar b \<Longrightarrow> tb_invar (b\<lparr>tb_head := 0, tb_tail := 0\<rparr>) \<and>
    tb_contents (b\<lparr>tb_head := 0, tb_tail := 0\<rparr>) = []"
  by (simp add: tb_invar_def tb_contents_def tb_len_def tty_buf_chrs_def TTY_BUFSIZ_def)

lemma tb_mark:
  assumes b: "tb_invar b"
  shows "tb_invar (fst (tty_buf_mark b f)) \<and> tb_contents (fst (tty_buf_mark b f)) =
    (if tb_contents b = [] then []
     else butlast (tb_contents b) @ [(fst (last (tb_contents b)), snd (last (tb_contents b)) OR f)])"
proof (cases "tb_len b = 0")
  case True
  then show ?thesis
    using b tb_len_bounds(2) [OF b] tb_empty_iff [OF b] by (simp add: tty_buf_mark_def)
next
  case False
  let ?p = "tty_buf_prev b" and ?q = "b\<lparr>tb_head := tty_buf_prev b\<rparr>"
  let ?b = "b\<lparr>tb_flags := (tb_flags b)[nat ?p := tb_flags b ! nat ?p OR f]\<rparr>"
  note prev = tb_prev [OF b False]
  have ne: "tb_head b \<noteq> tb_tail b" using False tb_len_bounds(2) [OF b] by simp
  have inv: "tb_invar ?b" using b by (simp add: tb_invar_def)
  have len: "tb_len ?b = Suc (tb_len ?q)"
    using prev(3) by (simp add: tb_len_def tty_buf_chrs_def)
  have win: "nat ?p = (nat (tb_tail b) + tb_len ?q) mod 4096"
    using tb_head_window [OF prev(2)] by simp
  let ?e = "(tb_buf b ! nat ?p, tb_flags b ! nat ?p OR f)"
  have "zip (tb_buf b) ((tb_flags b)[nat ?p := snd ?e]) = (zip (tb_buf b) (tb_flags b))[nat ?p := ?e]"
    using update_zip [of "tb_buf b" "tb_flags b" "nat ?p" ?e] by simp
  then have "tb_contents ?b = circ (nat (tb_tail b)) 4096 (Suc (tb_len ?q))
      ((zip (tb_buf b) (tb_flags b))[(nat (tb_tail b) + tb_len ?q) mod 4096 := ?e])"
    by (simp add: tb_contents_def len win [symmetric])
  also have "\<dots> = circ (nat (tb_tail b)) 4096 (tb_len ?q) (zip (tb_buf b) (tb_flags b)) @ [?e]"
    using b prev(3) tb_len_bounds(1) [OF b] by (intro circ_store) (simp_all add: tb_invar_def)
  finally have "tb_contents ?b = tb_contents ?q @ [?e]" by (simp add: tb_contents_def)
  then show ?thesis using ne inv prev(1) by (simp add: tty_buf_mark_def Let_def)
qed

definition is_end :: "u8 \<times> u8 \<Rightarrow> bool" where
  "is_end x \<longleftrightarrow> snd x AND TTY_BF_END \<noteq> 0"

lemma tb_erase:
  assumes b: "tb_invar b"
  shows "tb_invar (fst (tty_buf_erase b)) \<and> tb_contents (fst (tty_buf_erase b)) =
    (if tb_contents b = [] \<or> is_end (last (tb_contents b)) then tb_contents b
     else butlast (tb_contents b))"
proof (cases "tb_len b = 0")
  case True
  then show ?thesis using b tb_len_bounds(2) [OF b] tb_empty_iff [OF b] by (simp add: tty_buf_erase_def)
next
  case False
  note prev = tb_prev [OF b False]
  have "tb_head b \<noteq> tb_tail b" using False tb_len_bounds(2) [OF b] by simp
  then show ?thesis using b prev(1,2) by (simp add: tty_buf_erase_def is_end_def)
qed

text \<open>Removing characters from the end of a list as long as they are in the current line.\<close>

definition chop :: "(u8 \<Rightarrow> bool) \<Rightarrow> (u8 \<times> u8) list \<Rightarrow> (u8 \<times> u8) list" where
  "chop stop xs = rev (dropWhile (\<lambda>x. \<not> is_end x \<and> \<not> stop (fst x)) (rev xs))"

lemma chop_simps [simp]:
  "chop stop [] = []"
  "chop stop (xs @ [x]) = (if is_end x \<or> stop (fst x) then xs @ [x] else chop stop xs)"
  by (simp_all add: chop_def)

lemma tb_erase_while:
  "tb_invar b \<Longrightarrow> tb_len b \<le> n \<Longrightarrow> tty_buf_erase_while n stop b count = (b', count') \<Longrightarrow>
    tb_invar b' \<and> tb_contents b' = chop stop (tb_contents b) \<and>
    count' = count + int (length (tb_contents b) - length (chop stop (tb_contents b))) \<and>
    tb_len b' \<le> tb_len b"
proof (induction n stop b count rule: tty_buf_erase_while.induct)
  case (1 stop b count)
  then show ?case by (simp flip: length_tb_contents)
next
  case (2 n stop b count)
  show ?case
  proof (cases "tb_len b = 0")
    case True
    then show ?thesis
      using "2.prems" tb_len_bounds(2) [OF "2.prems"(1)] tb_empty_iff [OF "2.prems"(1)] by simp
  next
    case False
    let ?p = "tty_buf_prev b"
    let ?b = "b\<lparr>tb_head := ?p\<rparr>" and ?x = "(tb_buf b ! nat ?p, tb_flags b ! nat ?p)"
    note prev = tb_prev [OF "2.prems"(1) False]
    have ne: "tb_head b \<noteq> tb_tail b" using False tb_len_bounds(2) [OF "2.prems"(1)] by simp
    show ?thesis
    proof (cases "is_end ?x \<or> stop (fst ?x)")
      case True
      then show ?thesis using "2.prems" ne prev(1) by (auto simp: is_end_def Let_def split: if_splits)
    next
      case False
      then have "tty_buf_erase_while n stop ?b (count + 1) = (b', count')"
        using "2.prems"(3) ne by (simp add: is_end_def Let_def)
      then have ih: "tb_invar b' \<and> tb_contents b' = chop stop (tb_contents ?b) \<and>
          count' = count + 1 + int (length (tb_contents ?b) - length (chop stop (tb_contents ?b))) \<and>
          tb_len b' \<le> tb_len ?b"
        using ne False "2.prems" prev(2,3) by (intro "2.IH") (auto simp: is_end_def)
      moreover have "length (chop stop (tb_contents ?b)) \<le> tb_len ?b"
        using length_dropWhile_le [of _ "rev (tb_contents ?b)"] by (simp add: chop_def)
      ultimately show ?thesis
        using False prev(1,3) by (simp add: Suc_diff_le)
    qed
  qed
qed

section \<open>The queue contract\<close>

interpretation tb: char_queue tb_invar tb_contents 4095 "\<lambda>c. (c, 0)" tty_buf_putc tty_buf_getc
proof unfold_locales
  fix b b' :: tty_buf_t and c :: u8
  assume b: "tb_invar b"
  show full: "tty_buf_putc b c = None \<longleftrightarrow> length (tb_contents b) = 4095"
    using tb_put_full(2) [OF b] by simp
  show len: "length (tb_contents b) \<le> 4095" using tb_len_bounds(1) [OF b] by simp
  assume put: "tty_buf_putc b c = Some b'"
  then have "tb_len b < 4095" using full len by simp
  from tb_put [OF b this, of c] obtain b1
    where "tty_buf_putc b c = Some b1" "tb_invar b1" "tb_contents b1 = tb_contents b @ [(c, 0)]"
    by blast
  then show "tb_invar b'" "tb_contents b' = tb_contents b @ [(c, 0)]" using put by simp_all
next
  fix b b' :: tty_buf_t and x :: "u8 \<times> u8"
  assume b: "tb_invar b"
  show empty: "tty_buf_getc b = None \<longleftrightarrow> tb_contents b = []"
    using tb_empty_iff [OF b] by (simp add: tty_buf_getc_def)
  assume get: "tty_buf_getc b = Some (b', x)"
  then have ne: "tb_contents b \<noteq> []" using empty by simp
  then have "tb_len b \<noteq> 0" using length_tb_contents [of b] by (metis length_0_conv)
  from tb_get [OF b this] obtain b1
    where "tty_buf_getc b = Some (b1, hd (tb_contents b))" "tb_invar b1"
      "tb_contents b1 = tl (tb_contents b)"
    by blast
  then show "tb_invar b'" "tb_contents b = x # tb_contents b'" using get ne by simp_all
qed

section \<open>Properties\<close>

text \<open>
  Word erase removes from the end of the current line first the white space and then
  the word before it, never anything at or before an end-of-line mark, and it returns the
  number of characters it removed.
\<close>

lemma tty_buf_erasew_word:
  assumes "tb_invar b"
  shows "\<exists>b' n. tty_buf_erasew b = (b', n) \<and> tb_invar b' \<and>
    tb_contents b' = chop tty_isspace (chop (\<lambda>c. \<not> tty_isspace c) (tb_contents b)) \<and>
    n = int (length (tb_contents b)) - int (length (tb_contents b'))"
proof (cases "tb_contents b = []")
  case True
  then show ?thesis
    using assms tb_empty_iff [OF assms] tb_contents_Nil [of b] by (simp add: tty_buf_erasew_def)
next
  case False
  obtain b1 n1 where r1: "tty_buf_erase_while (nat TTY_BUFSIZ) (\<lambda>c. \<not> tty_isspace c) b 0 = (b1, n1)"
    by (cases "tty_buf_erase_while (nat TTY_BUFSIZ) (\<lambda>c. \<not> tty_isspace c) b 0")
  obtain b2 n2 where r2: "tty_buf_erase_while (nat TTY_BUFSIZ) tty_isspace b1 n1 = (b2, n2)"
    by (cases "tty_buf_erase_while (nat TTY_BUFSIZ) tty_isspace b1 n1")
  have small: "tb_len b \<le> nat TTY_BUFSIZ"
    using tb_len_bounds(1) [OF assms] by (simp add: TTY_BUFSIZ_def)
  note s1 = tb_erase_while [OF assms small r1]
  have small1: "tb_len b1 \<le> nat TTY_BUFSIZ" using s1 small by simp
  have s2: "tb_invar b2 \<and> tb_contents b2 = chop tty_isspace (tb_contents b1) \<and>
      n2 = n1 + int (tb_len b1 - tb_len b2) \<and> tb_len b2 \<le> tb_len b1"
    using tb_erase_while [OF _ small1 r2] s1 by (metis length_tb_contents)
  moreover have "n1 = int (tb_len b - tb_len b1)"
    using s1 by (metis add_0 length_tb_contents)
  moreover have "tty_buf_erasew b = (b2, n2)"
    using False r1 r2 tb_empty_iff [OF assms] by (simp add: tty_buf_erasew_def)
  ultimately show ?thesis using s1 by (auto simp: of_nat_diff)
qed

end
