(* ===== verification/Tty_Keysym.thy ===== *)
theory Tty_Keysym
  imports Textos_Prelude
begin

text \<open>
  The translation of key symbols to characters and escape sequences,
  \<open>src/kernel/dev/tty/kstoa.c\<close> with the key codes of \<open>src/include/bits/keys.h\<close>. A key symbol
  has the key code in bits 0 to 15 and the modifier state in bits 16 to 31; \<open>keysym_t\<close> is a
  signed 32-bit integer on which the code only works bitwise.
\<close>

type_synonym keysym_t = "32 word"

section \<open>Key codes\<close>

definition KEYSYM :: "u8 \<Rightarrow> u8 \<Rightarrow> keysym_t" where
  "KEYSYM type c = push_bit 8 (scast type) OR scast c"

definition KEYTYP :: "keysym_t \<Rightarrow> u8" where
  "KEYTYP ks = ucast (drop_bit 8 ks AND 0xff)"

definition KEYCHR :: "keysym_t \<Rightarrow> u8" where
  "KEYCHR ks = ucast (ks AND 0xff)"

definition KEY_S_LSHIFT :: keysym_t where "KEY_S_LSHIFT = 0x10000"
definition KEY_S_RSHIFT :: keysym_t where "KEY_S_RSHIFT = 0x20000"
definition KEY_S_LALT :: keysym_t where "KEY_S_LALT = 0x40000"
definition KEY_S_RALT :: keysym_t where "KEY_S_RALT = 0x80000"
definition KEY_S_LCTRL :: keysym_t where "KEY_S_LCTRL = 0x100000"
definition KEY_S_RCTRL :: keysym_t where "KEY_S_RCTRL = 0x200000"
definition KEY_S_CAPSLK :: keysym_t where "KEY_S_CAPSLK = 0x400000"
definition KEY_S_LSUPER :: keysym_t where "KEY_S_LSUPER = 0x800000"
definition KEY_S_RSUPER :: keysym_t where "KEY_S_RSUPER = 0x1000000"
definition KEY_S_COMPOSE :: keysym_t where "KEY_S_COMPOSE = 0x8000000"
definition KEY_S_WAIT :: keysym_t where "KEY_S_WAIT = 0x40000000"
definition KEY_S_ERROR :: keysym_t where "KEY_S_ERROR = 0x80000000"
definition KEY_S_MASK :: keysym_t where "KEY_S_MASK = 0xffff0000"
definition KEY_S_RETMSK :: keysym_t where "KEY_S_RETMSK = KEY_S_WAIT OR KEY_S_ERROR"

text \<open>The function keys and the keys of the keypad.\<close>

definition KEY_Fn :: "u8 \<Rightarrow> keysym_t" where "KEY_Fn n = KEYSYM (chr CHR ''f'') n"
definition KEY_KP :: "u8 \<Rightarrow> keysym_t" where "KEY_KP c = KEYSYM (chr CHR ''p'') c"

definition KEY_PAGEUP :: keysym_t where "KEY_PAGEUP = KEYSYM (chr CHR ''f'') (chr CHR ''u'')"
definition KEY_PAGEDOWN :: keysym_t where "KEY_PAGEDOWN = KEYSYM (chr CHR ''f'') (chr CHR ''d'')"
definition KEY_HOME :: keysym_t where "KEY_HOME = KEYSYM (chr CHR ''f'') (chr CHR ''h'')"
definition KEY_END :: keysym_t where "KEY_END = KEYSYM (chr CHR ''f'') (chr CHR ''e'')"
definition KEY_INSERT :: keysym_t where "KEY_INSERT = KEYSYM (chr CHR ''f'') (chr CHR ''i'')"
definition KEY_DELETE :: keysym_t where "KEY_DELETE = KEYSYM (chr CHR ''f'') (chr CHR ''.'')"
definition KEY_LEFT :: keysym_t where "KEY_LEFT = KEYSYM (chr CHR ''a'') (chr CHR ''l'')"
definition KEY_RIGHT :: keysym_t where "KEY_RIGHT = KEYSYM (chr CHR ''a'') (chr CHR ''r'')"
definition KEY_UP :: keysym_t where "KEY_UP = KEYSYM (chr CHR ''a'') (chr CHR ''u'')"
definition KEY_DOWN :: keysym_t where "KEY_DOWN = KEYSYM (chr CHR ''a'') (chr CHR ''d'')"
definition KEY_ENTER :: keysym_t where "KEY_ENTER = KEYSYM (chr CHR ''d'') 10"
definition KEY_BACKSPACE :: keysym_t where "KEY_BACKSPACE = KEYSYM (chr CHR ''d'') 8"
definition KEY_TAB :: keysym_t where "KEY_TAB = KEYSYM (chr CHR ''d'') 9"

section \<open>Modifiers\<close>

definition ks_NON :: keysym_t where "ks_NON = 0"
definition ks_ANY :: keysym_t where "ks_ANY = KEY_S_MASK AND NOT KEY_S_RETMSK"
definition ks_ALT :: keysym_t where "ks_ALT = KEY_S_LALT OR KEY_S_RALT"
definition ks_CTRL :: keysym_t where "ks_CTRL = KEY_S_LCTRL OR KEY_S_RCTRL"
definition ks_SHIFT :: keysym_t where "ks_SHIFT = KEY_S_LSHIFT OR KEY_S_RSHIFT"
definition ks_SUPER :: keysym_t where "ks_SUPER = KEY_S_LSUPER OR KEY_S_RSUPER"
definition ks_COMPOSE :: keysym_t where "ks_COMPOSE = KEY_S_COMPOSE"

definition need_upper :: "keysym_t \<Rightarrow> bool" where
  "need_upper ks \<longleftrightarrow> (ks AND KEY_S_CAPSLK \<noteq> 0) \<noteq> (ks AND ks_SHIFT \<noteq> 0)"

definition shift_table :: "(u8 \<times> u8) list" where
  "shift_table = zip (cstr ''1234567890-=[],./`'' @ [92, 59, 39]) (cstr ''!@#$%^&*()_+{}<>?~|:'' @ [34])"

definition kstoc :: "keysym_t \<Rightarrow> u8" where
  "kstoc ks =
     (let state = ks AND KEY_S_MASK; c = KEYCHR ks; type = KEYTYP ks in
      if type = chr CHR ''s'' then
        if c \<ge> chr CHR ''a'' \<and> c \<le> chr CHR ''z''
        then (if need_upper ks then c - chr CHR ''a'' + chr CHR ''A'' else c)
        else if state AND ks_SHIFT \<noteq> 0
        then (case map_of shift_table c of Some d \<Rightarrow> d | None \<Rightarrow> c)
        else c
      else if type = chr CHR ''d'' \<or> type = chr CHR ''p'' then c
      else 0)"

section \<open>The table of sequences\<close>

datatype kseq_map_t = KSeq (ks_key: keysym_t) (ks_mod: keysym_t) (ks_str: "u8 list") (ks_appkey: int) (ks_appcursor: int)

definition kseq_main :: "kseq_map_t list" where
  "kseq_main = [
     KSeq KEY_UP ks_SHIFT (27 # cstr ''[1;2A'') (0) (0),
     KSeq KEY_UP ks_ALT (27 # cstr ''[1;3A'') (0) (0),
     KSeq KEY_UP (ks_SHIFT OR ks_ALT) (27 # cstr ''[1;4A'') (0) (0),
     KSeq KEY_UP ks_CTRL (27 # cstr ''[1;5A'') (0) (0),
     KSeq KEY_UP ks_CTRL (27 # cstr ''[1;2A'') (0) (0),
     KSeq KEY_UP (ks_CTRL OR ks_SHIFT) (27 # cstr ''[1;6A'') (0) (0),
     KSeq KEY_UP (ks_CTRL OR ks_ALT) (27 # cstr ''[1;7A'') (0) (0),
     KSeq KEY_UP (ks_CTRL OR ks_SHIFT OR ks_ALT) (27 # cstr ''[1;8A'') (0) (0),
     KSeq KEY_UP ks_ANY (27 # cstr ''[A'') (0) (-1),
     KSeq KEY_UP ks_ANY (27 # cstr ''OA'') (0) (1),
     KSeq KEY_DOWN ks_SHIFT (27 # cstr ''[1;2B'') (0) (0),
     KSeq KEY_DOWN ks_ALT (27 # cstr ''[1;3B'') (0) (0),
     KSeq KEY_DOWN (ks_SHIFT OR ks_ALT) (27 # cstr ''[1;4B'') (0) (0),
     KSeq KEY_DOWN ks_CTRL (27 # cstr ''[1;5B'') (0) (0),
     KSeq KEY_DOWN ks_CTRL (27 # cstr ''[1;2B'') (0) (0),
     KSeq KEY_DOWN (ks_CTRL OR ks_SHIFT) (27 # cstr ''[1;6B'') (0) (0),
     KSeq KEY_DOWN (ks_CTRL OR ks_ALT) (27 # cstr ''[1;7B'') (0) (0),
     KSeq KEY_DOWN (ks_CTRL OR ks_SHIFT OR ks_ALT) (27 # cstr ''[1;8B'') (0) (0),
     KSeq KEY_DOWN ks_ANY (27 # cstr ''[B'') (0) (-1),
     KSeq KEY_DOWN ks_ANY (27 # cstr ''OB'') (0) (1),
     KSeq KEY_LEFT ks_SHIFT (27 # cstr ''[1;2D'') (0) (0),
     KSeq KEY_LEFT ks_ALT (27 # cstr ''[1;3D'') (0) (0),
     KSeq KEY_LEFT (ks_SHIFT OR ks_ALT) (27 # cstr ''[1;4D'') (0) (0),
     KSeq KEY_LEFT ks_CTRL (27 # cstr ''[1;5D'') (0) (0),
     KSeq KEY_LEFT ks_CTRL (27 # cstr ''[1;2D'') (0) (0),
     KSeq KEY_LEFT (ks_CTRL OR ks_SHIFT) (27 # cstr ''[1;6D'') (0) (0),
     KSeq KEY_LEFT (ks_CTRL OR ks_ALT) (27 # cstr ''[1;7D'') (0) (0),
     KSeq KEY_LEFT (ks_CTRL OR ks_SHIFT OR ks_ALT) (27 # cstr ''[1;8D'') (0) (0),
     KSeq KEY_LEFT ks_ANY (27 # cstr ''[D'') (0) (-1),
     KSeq KEY_LEFT ks_ANY (27 # cstr ''OD'') (0) (1),
     KSeq KEY_RIGHT ks_SHIFT (27 # cstr ''[1;2C'') (0) (0),
     KSeq KEY_RIGHT ks_ALT (27 # cstr ''[1;3C'') (0) (0),
     KSeq KEY_RIGHT (ks_SHIFT OR ks_ALT) (27 # cstr ''[1;4C'') (0) (0),
     KSeq KEY_RIGHT ks_CTRL (27 # cstr ''[1;5C'') (0) (0),
     KSeq KEY_RIGHT ks_CTRL (27 # cstr ''[1;2C'') (0) (0),
     KSeq KEY_RIGHT (ks_CTRL OR ks_SHIFT) (27 # cstr ''[1;6C'') (0) (0),
     KSeq KEY_RIGHT (ks_CTRL OR ks_ALT) (27 # cstr ''[1;7C'') (0) (0),
     KSeq KEY_RIGHT (ks_CTRL OR ks_SHIFT OR ks_ALT) (27 # cstr ''[1;8C'') (0) (0),
     KSeq KEY_RIGHT ks_ANY (27 # cstr ''[C'') (0) (-1),
     KSeq KEY_RIGHT ks_ANY (27 # cstr ''OC'') (0) (1),
     KSeq KEY_TAB ks_SHIFT (27 # cstr ''[Z'') (0) (0),
     KSeq KEY_ENTER ks_ALT ([27, 13]) (0) (0),
     KSeq KEY_ENTER ks_ANY ([13]) (0) (0),
     KSeq KEY_INSERT ks_SHIFT (27 # cstr ''[4l'') (-1) (0),
     KSeq KEY_INSERT ks_SHIFT (27 # cstr ''[2;2~'') (1) (0),
     KSeq KEY_INSERT ks_CTRL (27 # cstr ''[L'') (-1) (0),
     KSeq KEY_INSERT ks_CTRL (27 # cstr ''[2;5~'') (1) (0),
     KSeq KEY_INSERT ks_ANY (27 # cstr ''[4h'') (-1) (0),
     KSeq KEY_INSERT ks_ANY (27 # cstr ''[2~'') (1) (0),
     KSeq KEY_DELETE ks_CTRL (27 # cstr ''[M'') (-1) (0),
     KSeq KEY_DELETE ks_CTRL (27 # cstr ''[3;5~'') (1) (0),
     KSeq KEY_DELETE ks_SHIFT (27 # cstr ''[2K'') (-1) (0),
     KSeq KEY_DELETE ks_SHIFT (27 # cstr ''[3;2~'') (1) (0),
     KSeq KEY_DELETE ks_ANY (27 # cstr ''[P'') (-1) (0),
     KSeq KEY_DELETE ks_ANY (27 # cstr ''[3~'') (1) (0),
     KSeq KEY_BACKSPACE ks_NON ([127]) (0) (0),
     KSeq KEY_BACKSPACE ks_ALT ([27, 127]) (0) (0),
     KSeq KEY_HOME ks_SHIFT (27 # cstr ''[2J'') (0) (-1),
     KSeq KEY_HOME ks_SHIFT (27 # cstr ''[1;2H'') (0) (1),
     KSeq KEY_HOME ks_ANY (27 # cstr ''[H'') (0) (-1),
     KSeq KEY_HOME ks_ANY (27 # cstr ''[1~'') (0) (1),
     KSeq KEY_END ks_CTRL (27 # cstr ''[J'') (-1) (0),
     KSeq KEY_END ks_CTRL (27 # cstr ''[1;5F'') (1) (0),
     KSeq KEY_END ks_SHIFT (27 # cstr ''[K'') (-1) (0),
     KSeq KEY_END ks_SHIFT (27 # cstr ''[1;2F'') (1) (0),
     KSeq KEY_END ks_ANY (27 # cstr ''[4~'') (0) (0),
     KSeq KEY_PAGEUP ks_CTRL (27 # cstr ''[5;5~'') (0) (0),
     KSeq KEY_PAGEUP ks_SHIFT (27 # cstr ''[5;2~'') (0) (0),
     KSeq KEY_PAGEUP ks_ANY (27 # cstr ''[5~'') (0) (0),
     KSeq KEY_PAGEDOWN ks_CTRL (27 # cstr ''[6;5~'') (0) (0),
     KSeq KEY_PAGEDOWN ks_SHIFT (27 # cstr ''[6;2~'') (0) (0),
     KSeq KEY_PAGEDOWN ks_ANY (27 # cstr ''[6~'') (0) (0)
   ]"

definition kseq_pad :: "kseq_map_t list" where
  "kseq_pad = [
     KSeq (KEY_KP (chr CHR ''7'')) ks_SHIFT (27 # cstr ''[2J'') (0) (-1),
     KSeq (KEY_KP (chr CHR ''7'')) ks_SHIFT (27 # cstr ''[1;2H'') (0) (1),
     KSeq (KEY_KP (chr CHR ''7'')) ks_ANY (27 # cstr ''[H'') (0) (-1),
     KSeq (KEY_KP (chr CHR ''7'')) ks_ANY (27 # cstr ''[1~'') (0) (1),
     KSeq (KEY_KP (chr CHR ''8'')) ks_ANY (27 # cstr ''Ox'') (1) (0),
     KSeq (KEY_KP (chr CHR ''8'')) ks_ANY (27 # cstr ''[A'') (0) (-1),
     KSeq (KEY_KP (chr CHR ''8'')) ks_ANY (27 # cstr ''OA'') (0) (1),
     KSeq (KEY_KP (chr CHR ''2'')) ks_ANY (27 # cstr ''Or'') (1) (0),
     KSeq (KEY_KP (chr CHR ''2'')) ks_ANY (27 # cstr ''[B'') (0) (-1),
     KSeq (KEY_KP (chr CHR ''2'')) ks_ANY (27 # cstr ''OB'') (0) (1),
     KSeq (KEY_KP (chr CHR ''4'')) ks_ANY (27 # cstr ''Ot'') (1) (0),
     KSeq (KEY_KP (chr CHR ''4'')) ks_ANY (27 # cstr ''[D'') (0) (-1),
     KSeq (KEY_KP (chr CHR ''4'')) ks_ANY (27 # cstr ''OD'') (0) (1),
     KSeq (KEY_KP (chr CHR ''4'')) ks_ANY (27 # cstr ''Ov'') (1) (0),
     KSeq (KEY_KP (chr CHR ''4'')) ks_ANY (27 # cstr ''[C'') (0) (-1),
     KSeq (KEY_KP (chr CHR ''4'')) ks_ANY (27 # cstr ''OC'') (0) (1),
     KSeq (KEY_KP (chr CHR ''9'')) ks_SHIFT (27 # cstr ''[5;2~'') (0) (0),
     KSeq (KEY_KP (chr CHR ''9'')) ks_ANY (27 # cstr ''[5~'') (0) (0),
     KSeq (KEY_KP (chr CHR ''5'')) ks_ANY (27 # cstr ''[E'') (0) (0),
     KSeq (KEY_KP (chr CHR ''1'')) ks_CTRL (27 # cstr ''[J'') (-1) (0),
     KSeq (KEY_KP (chr CHR ''1'')) ks_CTRL (27 # cstr ''[1;5F'') (1) (0),
     KSeq (KEY_KP (chr CHR ''1'')) ks_SHIFT (27 # cstr ''[K'') (-1) (0),
     KSeq (KEY_KP (chr CHR ''1'')) ks_SHIFT (27 # cstr ''[1;2F'') (1) (0),
     KSeq (KEY_KP (chr CHR ''1'')) ks_ANY (27 # cstr ''[4~'') (0) (0),
     KSeq (KEY_KP (chr CHR ''3'')) ks_SHIFT (27 # cstr ''[6;2~'') (0) (0),
     KSeq (KEY_KP (chr CHR ''3'')) ks_ANY (27 # cstr ''[6~'') (0) (0),
     KSeq (KEY_KP (chr CHR ''0'')) ks_SHIFT (27 # cstr ''[2;2~'') (1) (0),
     KSeq (KEY_KP (chr CHR ''0'')) ks_SHIFT (27 # cstr ''[4l'') (-1) (0),
     KSeq (KEY_KP (chr CHR ''0'')) ks_CTRL (27 # cstr ''[L'') (-1) (0),
     KSeq (KEY_KP (chr CHR ''0'')) ks_CTRL (27 # cstr ''[2;5~'') (1) (0),
     KSeq (KEY_KP (chr CHR ''0'')) ks_ANY (27 # cstr ''[4h'') (-1) (0),
     KSeq (KEY_KP (chr CHR ''0'')) ks_ANY (27 # cstr ''[2~'') (1) (0),
     KSeq (KEY_KP (chr CHR ''.'')) ks_CTRL (27 # cstr ''[M'') (-1) (0),
     KSeq (KEY_KP (chr CHR ''.'')) ks_CTRL (27 # cstr ''[3;5~'') (1) (0),
     KSeq (KEY_KP (chr CHR ''.'')) ks_SHIFT (27 # cstr ''[2K'') (-1) (0),
     KSeq (KEY_KP (chr CHR ''.'')) ks_SHIFT (27 # cstr ''[3;2~'') (1) (0),
     KSeq (KEY_KP (chr CHR ''.'')) ks_ANY (27 # cstr ''[P'') (-1) (0),
     KSeq (KEY_KP (chr CHR ''.'')) ks_ANY (27 # cstr ''[3~'') (1) (0),
     KSeq (KEY_KP (chr CHR ''*'')) ks_ANY (27 # cstr ''Oj'') (2) (0),
     KSeq (KEY_KP (chr CHR ''+'')) ks_ANY (27 # cstr ''Ok'') (2) (0),
     KSeq (KEY_KP (chr CHR ''-'')) ks_ANY (27 # cstr ''Om'') (2) (0),
     KSeq (KEY_KP (chr CHR ''.'')) ks_ANY (27 # cstr ''On'') (2) (0),
     KSeq (KEY_KP (chr CHR ''/'')) ks_ANY (27 # cstr ''Oo'') (2) (0),
     KSeq (KEY_KP (chr CHR ''0'')) ks_ANY (27 # cstr ''Op'') (2) (0),
     KSeq (KEY_KP (chr CHR ''1'')) ks_ANY (27 # cstr ''Oq'') (2) (0),
     KSeq (KEY_KP (chr CHR ''2'')) ks_ANY (27 # cstr ''Or'') (2) (0),
     KSeq (KEY_KP (chr CHR ''3'')) ks_ANY (27 # cstr ''Os'') (2) (0),
     KSeq (KEY_KP (chr CHR ''4'')) ks_ANY (27 # cstr ''Ot'') (2) (0),
     KSeq (KEY_KP (chr CHR ''5'')) ks_ANY (27 # cstr ''Ou'') (2) (0),
     KSeq (KEY_KP (chr CHR ''6'')) ks_ANY (27 # cstr ''Ov'') (2) (0),
     KSeq (KEY_KP (chr CHR ''7'')) ks_ANY (27 # cstr ''Ow'') (2) (0),
     KSeq (KEY_KP (chr CHR ''8'')) ks_ANY (27 # cstr ''Ox'') (2) (0),
     KSeq (KEY_KP (chr CHR ''9'')) ks_ANY (27 # cstr ''Oy'') (2) (0),
     KSeq (KEY_KP 10) ks_ANY (27 # cstr ''OM'') (2) (0),
     KSeq (KEY_KP 10) ks_ANY ([13]) (-1) (0)
   ]"

definition kseq_fn :: "kseq_map_t list" where
  "kseq_fn = [
     KSeq (KEY_Fn 1) ks_SHIFT (27 # cstr ''[1;2P'') (0) (0),
     KSeq (KEY_Fn 1) ks_CTRL (27 # cstr ''[1;5P'') (0) (0),
     KSeq (KEY_Fn 1) ks_SUPER (27 # cstr ''[1;6P'') (0) (0),
     KSeq (KEY_Fn 1) ks_ALT (27 # cstr ''[1;3P'') (0) (0),
     KSeq (KEY_Fn 1) ks_COMPOSE (27 # cstr ''[1;4P'') (0) (0),
     KSeq (KEY_Fn 2) ks_SHIFT (27 # cstr ''[1;2Q'') (0) (0),
     KSeq (KEY_Fn 2) ks_CTRL (27 # cstr ''[1;5Q'') (0) (0),
     KSeq (KEY_Fn 2) ks_SUPER (27 # cstr ''[1;6Q'') (0) (0),
     KSeq (KEY_Fn 2) ks_ALT (27 # cstr ''[1;3Q'') (0) (0),
     KSeq (KEY_Fn 2) ks_COMPOSE (27 # cstr ''[1;4Q'') (0) (0),
     KSeq (KEY_Fn 3) ks_SHIFT (27 # cstr ''[1;2R'') (0) (0),
     KSeq (KEY_Fn 3) ks_CTRL (27 # cstr ''[1;5R'') (0) (0),
     KSeq (KEY_Fn 3) ks_SUPER (27 # cstr ''[1;6R'') (0) (0),
     KSeq (KEY_Fn 3) ks_ALT (27 # cstr ''[1;3R'') (0) (0),
     KSeq (KEY_Fn 3) ks_COMPOSE (27 # cstr ''[1;4R'') (0) (0),
     KSeq (KEY_Fn 4) ks_SHIFT (27 # cstr ''[1;2S'') (0) (0),
     KSeq (KEY_Fn 4) ks_CTRL (27 # cstr ''[1;5S'') (0) (0),
     KSeq (KEY_Fn 4) ks_SUPER (27 # cstr ''[1;6S'') (0) (0),
     KSeq (KEY_Fn 4) ks_ALT (27 # cstr ''[1;3S'') (0) (0),
     KSeq (KEY_Fn 5) ks_SHIFT (27 # cstr ''[15;2~'') (0) (0),
     KSeq (KEY_Fn 5) ks_CTRL (27 # cstr ''[15;5~'') (0) (0),
     KSeq (KEY_Fn 5) ks_SUPER (27 # cstr ''[15;6~'') (0) (0),
     KSeq (KEY_Fn 5) ks_ALT (27 # cstr ''[15;3~'') (0) (0),
     KSeq (KEY_Fn 6) ks_SHIFT (27 # cstr ''[17;2~'') (0) (0),
     KSeq (KEY_Fn 6) ks_CTRL (27 # cstr ''[17;5~'') (0) (0),
     KSeq (KEY_Fn 6) ks_SUPER (27 # cstr ''[17;6~'') (0) (0),
     KSeq (KEY_Fn 6) ks_ALT (27 # cstr ''[17;3~'') (0) (0),
     KSeq (KEY_Fn 7) ks_SHIFT (27 # cstr ''[18;2~'') (0) (0),
     KSeq (KEY_Fn 7) ks_CTRL (27 # cstr ''[18;5~'') (0) (0),
     KSeq (KEY_Fn 7) ks_SUPER (27 # cstr ''[18;6~'') (0) (0),
     KSeq (KEY_Fn 7) ks_ALT (27 # cstr ''[18;3~'') (0) (0),
     KSeq (KEY_Fn 8) ks_SHIFT (27 # cstr ''[19;2~'') (0) (0),
     KSeq (KEY_Fn 8) ks_CTRL (27 # cstr ''[19;5~'') (0) (0),
     KSeq (KEY_Fn 8) ks_SUPER (27 # cstr ''[19;6~'') (0) (0),
     KSeq (KEY_Fn 8) ks_ALT (27 # cstr ''[19;3~'') (0) (0),
     KSeq (KEY_Fn 9) ks_SHIFT (27 # cstr ''[20;2~'') (0) (0),
     KSeq (KEY_Fn 9) ks_CTRL (27 # cstr ''[20;5~'') (0) (0),
     KSeq (KEY_Fn 9) ks_SUPER (27 # cstr ''[20;6~'') (0) (0),
     KSeq (KEY_Fn 9) ks_ALT (27 # cstr ''[20;3~'') (0) (0),
     KSeq (KEY_Fn 10) ks_SHIFT (27 # cstr ''[21;2~'') (0) (0),
     KSeq (KEY_Fn 10) ks_CTRL (27 # cstr ''[21;5~'') (0) (0),
     KSeq (KEY_Fn 10) ks_SUPER (27 # cstr ''[21;6~'') (0) (0),
     KSeq (KEY_Fn 10) ks_ALT (27 # cstr ''[21;3~'') (0) (0),
     KSeq (KEY_Fn 11) ks_SHIFT (27 # cstr ''[23;2~'') (0) (0),
     KSeq (KEY_Fn 11) ks_CTRL (27 # cstr ''[23;5~'') (0) (0),
     KSeq (KEY_Fn 11) ks_SUPER (27 # cstr ''[23;6~'') (0) (0),
     KSeq (KEY_Fn 11) ks_ALT (27 # cstr ''[23;3~'') (0) (0),
     KSeq (KEY_Fn 12) ks_SHIFT (27 # cstr ''[24;2~'') (0) (0),
     KSeq (KEY_Fn 12) ks_CTRL (27 # cstr ''[24;5~'') (0) (0),
     KSeq (KEY_Fn 12) ks_SUPER (27 # cstr ''[24;6~'') (0) (0),
     KSeq (KEY_Fn 12) ks_ALT (27 # cstr ''[24;3~'') (0) (0),
     KSeq (KEY_Fn 1) ks_NON (27 # cstr ''OP'') (0) (0),
     KSeq (KEY_Fn 2) ks_NON (27 # cstr ''OQ'') (0) (0),
     KSeq (KEY_Fn 3) ks_NON (27 # cstr ''OR'') (0) (0),
     KSeq (KEY_Fn 4) ks_NON (27 # cstr ''OS'') (0) (0),
     KSeq (KEY_Fn 5) ks_NON (27 # cstr ''[15~'') (0) (0),
     KSeq (KEY_Fn 6) ks_NON (27 # cstr ''[17~'') (0) (0),
     KSeq (KEY_Fn 7) ks_NON (27 # cstr ''[18~'') (0) (0),
     KSeq (KEY_Fn 8) ks_NON (27 # cstr ''[19~'') (0) (0),
     KSeq (KEY_Fn 9) ks_NON (27 # cstr ''[20~'') (0) (0),
     KSeq (KEY_Fn 10) ks_NON (27 # cstr ''[21~'') (0) (0),
     KSeq (KEY_Fn 11) ks_NON (27 # cstr ''[23~'') (0) (0),
     KSeq (KEY_Fn 12) ks_NON (27 # cstr ''[24~'') (0) (0),
     KSeq (KEY_Fn 13) ks_NON (27 # cstr ''[1;2P'') (0) (0),
     KSeq (KEY_Fn 14) ks_NON (27 # cstr ''[1;2Q'') (0) (0),
     KSeq (KEY_Fn 15) ks_NON (27 # cstr ''[1;2R'') (0) (0),
     KSeq (KEY_Fn 16) ks_NON (27 # cstr ''[1;2S'') (0) (0),
     KSeq (KEY_Fn 17) ks_NON (27 # cstr ''[15;2~'') (0) (0),
     KSeq (KEY_Fn 18) ks_NON (27 # cstr ''[17;2~'') (0) (0),
     KSeq (KEY_Fn 19) ks_NON (27 # cstr ''[18;2~'') (0) (0),
     KSeq (KEY_Fn 20) ks_NON (27 # cstr ''[19;2~'') (0) (0),
     KSeq (KEY_Fn 21) ks_NON (27 # cstr ''[20;2~'') (0) (0),
     KSeq (KEY_Fn 22) ks_NON (27 # cstr ''[21;2~'') (0) (0),
     KSeq (KEY_Fn 23) ks_NON (27 # cstr ''[23;2~'') (0) (0),
     KSeq (KEY_Fn 24) ks_NON (27 # cstr ''[24;2~'') (0) (0),
     KSeq (KEY_Fn 25) ks_NON (27 # cstr ''[1;5P'') (0) (0),
     KSeq (KEY_Fn 26) ks_NON (27 # cstr ''[1;5Q'') (0) (0),
     KSeq (KEY_Fn 27) ks_NON (27 # cstr ''[1;5R'') (0) (0),
     KSeq (KEY_Fn 28) ks_NON (27 # cstr ''[1;5S'') (0) (0),
     KSeq (KEY_Fn 29) ks_NON (27 # cstr ''[15;5~'') (0) (0),
     KSeq (KEY_Fn 30) ks_NON (27 # cstr ''[17;5~'') (0) (0),
     KSeq (KEY_Fn 31) ks_NON (27 # cstr ''[18;5~'') (0) (0),
     KSeq (KEY_Fn 32) ks_NON (27 # cstr ''[19;5~'') (0) (0),
     KSeq (KEY_Fn 33) ks_NON (27 # cstr ''[20;5~'') (0) (0),
     KSeq (KEY_Fn 34) ks_NON (27 # cstr ''[21;5~'') (0) (0),
     KSeq (KEY_Fn 35) ks_NON (27 # cstr ''[23;5~'') (0) (0)
   ]"

definition kseq :: "kseq_map_t list" where
  "kseq = kseq_main @ kseq_pad @ kseq_fn"

definition ks_match :: "keysym_t \<Rightarrow> keysym_t \<Rightarrow> bool" where
  "ks_match seq ks \<longleftrightarrow> seq = ks_ANY \<or>
     seq = (if ks AND ks_ALT \<noteq> 0 then ks_ALT else 0)
        OR (if ks AND ks_CTRL \<noteq> 0 then ks_CTRL else 0)
        OR (if ks AND ks_SHIFT \<noteq> 0 then ks_SHIFT else 0)
        OR (if ks AND ks_SUPER \<noteq> 0 then ks_SUPER else 0)
        OR (if ks AND ks_COMPOSE \<noteq> 0 then ks_COMPOSE else 0)"

definition appcursor :: int where "appcursor = -1"

definition appkeypad :: int where "appkeypad = -1"

text \<open>The loop over the table: the first entry that passes all four tests.\<close>

fun kseq_find :: "keysym_t \<Rightarrow> keysym_t \<Rightarrow> kseq_map_t list \<Rightarrow> u8 list option" where
  "kseq_find key ks [] = None"
| "kseq_find key ks (s # ss) =
     (if ks_key s \<noteq> key then kseq_find key ks ss
      else if \<not> ks_match (ks_mod s) ks then kseq_find key ks ss
      else if appkeypad * ks_appkey s < 0 then kseq_find key ks ss
      else if appcursor * ks_appcursor s < 0 then kseq_find key ks ss
      else Some (ks_str s))"

text \<open>
  The bytes that \<open>kstoa\<close> stores in front of the terminating \<open>NUL\<close>; their number is the
  result of the C function.
\<close>

definition kstoa :: "keysym_t \<Rightarrow> u8 list" where
  "kstoa ks =
     (let ch = kstoc ks in
      if ch \<ge> chr CHR ''a'' \<and> ch \<le> chr CHR ''z'' \<and> ks AND (ks_CTRL OR ks_ALT) \<noteq> 0 then
        let ch = (if ks AND ks_CTRL \<noteq> 0 then ch AND 0x1f else ch) in
        if ks AND ks_ALT \<noteq> 0 then [27, ch] else [ch]
      else
        (case kseq_find (ks AND NOT KEY_S_MASK) ks kseq of
           Some s \<Rightarrow> s
         | None \<Rightarrow> [ch]))"

lemmas kseq_defs = kseq_def kseq_main_def kseq_pad_def kseq_fn_def

lemmas key_defs =
  KEY_Fn_def KEY_KP_def KEY_PAGEUP_def KEY_PAGEDOWN_def KEY_HOME_def KEY_END_def KEY_INSERT_def KEY_DELETE_def
  KEY_LEFT_def KEY_RIGHT_def KEY_UP_def KEY_DOWN_def KEY_ENTER_def KEY_BACKSPACE_def KEY_TAB_def

section \<open>Letters\<close>

lemma kseq_no_letters: "list_all (\<lambda>s. KEYTYP (ks_key s) \<noteq> chr CHR ''s'') kseq"
  by (simp add: kseq_defs key_defs KEYSYM_def KEYTYP_def)

lemma KEYTYP_unmask: "KEYTYP (ks AND NOT KEY_S_MASK) = KEYTYP ks"
proof -
  have "drop_bit 8 (ks AND NOT KEY_S_MASK) AND 0xff = drop_bit 8 ks AND 0xff"
  proof (rule bit_word_eqI)
    fix n assume "n < LENGTH(32)"
    have m: "NOT KEY_S_MASK = mask 16" "(0xff :: keysym_t) = mask 8"
      by (simp_all add: KEY_S_MASK_def mask_eq_exp_minus_1)
    show "bit (drop_bit 8 (ks AND NOT KEY_S_MASK) AND 0xff) n \<longleftrightarrow> bit (drop_bit 8 ks AND 0xff) n"
      unfolding m
      by (auto simp: bit_simps bit_mask_iff simp del: mask_numeral)
  qed
  then show ?thesis by (simp add: KEYTYP_def)
qed

lemma kseq_find_None:
  "list_all (\<lambda>s. KEYTYP (ks_key s) \<noteq> KEYTYP key) ss \<Longrightarrow> kseq_find key ks ss = None"
  by (induction ss) auto

lemma letter_upper:
  assumes "chr CHR ''a'' \<le> c" "c \<le> chr CHR ''z''"
  shows "c - chr CHR ''a'' + chr CHR ''A'' = c - 32" "c - 32 < chr CHR ''a''"
proof -
  have "32 \<le> c" using assms(1) by (simp add: word_le_nat_alt)
  then have "unat (c - 32) = unat c - 32" by (simp add: unat_sub_le)
  then show "c - 32 < chr CHR ''a''" using assms by (simp add: word_less_nat_alt word_le_nat_alt)
qed simp

section \<open>Properties\<close>

lemma kseq_find_mem: "kseq_find key ks ss = Some s \<Longrightarrow> s \<in> ks_str ` set ss"
  by (induction ss) (auto split: if_splits)

lemma kseq_lengths: "list_all (\<lambda>s. ks_str s \<noteq> [] \<and> length (ks_str s) \<le> 7) kseq"
  by (simp add: kseq_defs cstr_def)


text \<open>
  A letter key gives the letter itself, in upper case if exactly one of Shift and Caps
  Lock is active; otherwise Ctrl turns it into the control character and Alt puts an escape
  in front. In upper case both Ctrl and Alt are ignored.
\<close>

lemma kstoa_letter:
  assumes "KEYTYP ks = chr CHR ''s''" "chr CHR ''a'' \<le> KEYCHR ks" "KEYCHR ks \<le> chr CHR ''z''"
  shows "kstoa ks =
    (if need_upper ks then [KEYCHR ks - 32]
     else (if ks AND ks_ALT \<noteq> 0 then [27] else []) @
       [if ks AND ks_CTRL \<noteq> 0 then KEYCHR ks AND 0x1f else KEYCHR ks])"
proof -
  have find: "kseq_find (ks AND NOT KEY_S_MASK) ks kseq = None"
    using kseq_no_letters assms(1) by (intro kseq_find_None) (simp add: KEYTYP_unmask)
  have "kstoc ks = (if need_upper ks then KEYCHR ks - 32 else KEYCHR ks)"
    using assms letter_upper(1) [OF assms(2,3)] unfolding kstoc_def Let_def by simp
  moreover have "ks AND (ks_CTRL OR ks_ALT) \<noteq> 0 \<longleftrightarrow> ks AND ks_CTRL \<noteq> 0 \<or> ks AND ks_ALT \<noteq> 0"
    by (simp add: bit.conj_disj_distrib or_eq_0_iff)
  ultimately show ?thesis
    using find assms(2,3) letter_upper(2) [OF assms(2,3)]
    unfolding kstoa_def Let_def by (auto simp: not_le)
qed

end
