(* ===== verification/Fs_Poll.thy ===== *)
theory Fs_Poll
  imports Textos_Prelude
begin

text \<open>
  Delivery of poll events, \<open>src/kernel/fs/poll.c\<close>. A pollee (a terminal, a pipe, an event
  device) keeps a list of the pollers that wait for it. The list node of a poller is inserted
  at the front. Tasks are references; the tasks that \<open>task_unblock\<close> is called on are
  returned.
\<close>

definition POLLIN :: u16 where "POLLIN = 1"
definition POLLOUT :: u16 where "POLLOUT = 4"
definition POLLERR :: u16 where "POLLERR = 8"
definition POLLHUP :: u16 where "POLLHUP = 16"
definition POLLNVAL :: u16 where "POLLNVAL = 32"

record fs_poller =
  poller_id :: nat
  info_events :: u16
  info_poller :: "task_ref option"
  revents :: u16
  in_pollee_list :: bool

record fs_pollee =
  npollers :: size_t
  r_pollee :: "fs_poller list"

definition fs_pollee_init :: "fs_pollee \<Rightarrow> fs_pollee" where
  "fs_pollee_init p = p\<lparr>r_pollee := []\<rparr>"

definition fs_poller_init :: "task_ref \<Rightarrow> nat \<Rightarrow> u32 \<Rightarrow> fs_poller" where
  "fs_poller_init cur i events =
     \<lparr>poller_id = i, info_events = ucast events OR (POLLHUP OR POLLERR OR POLLNVAL),
      info_poller = Some cur, revents = 0, in_pollee_list = False\<rparr>"

text \<open>\<open>ctx\<close> is the list of pollers of the open file.\<close>

definition fs_poll_setup ::
  "fs_pollee \<Rightarrow> nat list \<Rightarrow> fs_poller \<Rightarrow> fs_pollee \<times> nat list \<times> fs_poller" where
  "fs_poll_setup pollee ctx poller =
     (let poller = poller\<lparr>in_pollee_list := True\<rparr> in
      (pollee\<lparr>npollers := npollers pollee + 1, r_pollee := poller # r_pollee pollee\<rparr>,
       poller_id poller # ctx, poller))"

definition fs_poll_teardown :: "fs_pollee \<Rightarrow> nat list \<Rightarrow> fs_poller \<Rightarrow> fs_pollee \<times> nat list" where
  "fs_poll_teardown pollee ctx poller =
     (if \<not> in_pollee_list poller then (pollee, ctx)
      else (pollee\<lparr>npollers := npollers pollee - 1,
              r_pollee := filter (\<lambda>q. poller_id q \<noteq> poller_id poller) (r_pollee pollee)\<rparr>,
            filter (\<lambda>i. i \<noteq> poller_id poller) ctx))"

definition fs_poll_deliver_to :: "u16 \<Rightarrow> fs_poller \<Rightarrow> bool \<Rightarrow> fs_poller \<times> task_ref list \<times> bool" where
  "fs_poll_deliver_to revs poller unblock =
     (if info_events poller AND revs = 0 then (poller, [], False)
      else
        let poller = poller\<lparr>revents := revs\<rparr> in
        if unblock then
          (case info_poller poller of
             None \<Rightarrow> (poller, [], False)
           | Some t \<Rightarrow> (poller\<lparr>info_poller := None\<rparr>, [t], True))
        else (poller, [], True))"

fun fs_poll_deliver_loop :: "u16 \<Rightarrow> fs_poller list \<Rightarrow> fs_poller list \<times> task_ref list \<times> bool" where
  "fs_poll_deliver_loop revs [] = ([], [], False)"
| "fs_poll_deliver_loop revs (p # ps) =
     (let (p', ts, ok) = fs_poll_deliver_to revs p True in
      if ok then (p' # ps, ts, True)
      else let (ps', ts', ok') = fs_poll_deliver_loop revs ps in (p' # ps', ts @ ts', ok'))"

definition fs_poll_deliver :: "fs_pollee \<Rightarrow> u16 \<Rightarrow> fs_pollee \<times> task_ref list \<times> bool" where
  "fs_poll_deliver pollee revs =
     (if npollers pollee = 0 then (pollee, [], False)
      else let (ps, ts, ok) = fs_poll_deliver_loop revs (r_pollee pollee)
           in (pollee\<lparr>r_pollee := ps\<rparr>, ts, ok))"

section \<open>Which poller is served\<close>

definition poll_ready :: "u16 \<Rightarrow> fs_poller \<Rightarrow> bool" where
  "poll_ready revs p \<longleftrightarrow> info_events p AND revs \<noteq> 0 \<and> info_poller p \<noteq> None"

lemma deliver_to_ready:
  "poll_ready revs p \<Longrightarrow> fs_poll_deliver_to revs p True =
    (p\<lparr>revents := revs, info_poller := None\<rparr>, [the (info_poller p)], True)"
  by (auto simp: poll_ready_def fs_poll_deliver_to_def Let_def)

lemma deliver_to_not_ready:
  "\<not> poll_ready revs p \<Longrightarrow> \<exists>p'. fs_poll_deliver_to revs p True = (p', [], False) \<and>
    info_poller p' = info_poller p \<and> poller_id p' = poller_id p"
  by (auto simp: poll_ready_def fs_poll_deliver_to_def Let_def split: option.split)

lemma deliver_loop_correct:
  "fs_poll_deliver_loop revs ps = (ps', ts, ok) \<Longrightarrow>
    map poller_id ps' = map poller_id ps \<and>
    (case find (poll_ready revs) ps of
       None \<Rightarrow> ts = [] \<and> \<not> ok
     | Some p \<Rightarrow> ts = [the (info_poller p)] \<and> ok)"
proof (induction ps arbitrary: ps' ts ok)
  case (Cons p ps)
  show ?case
  proof (cases "poll_ready revs p")
    case True
    then show ?thesis using Cons.prems by (auto simp: deliver_to_ready)
  next
    case False
    from deliver_to_not_ready [OF this] obtain p' where p':
      "fs_poll_deliver_to revs p True = (p', [], False)" "poller_id p' = poller_id p"
      by blast
    obtain ps1 ts1 ok1 where r: "fs_poll_deliver_loop revs ps = (ps1, ts1, ok1)"
      by (cases "fs_poll_deliver_loop revs ps")
    show ?thesis using Cons.IH [OF r] Cons.prems False p' r by auto
  qed
qed simp

text \<open>
  An event wakes exactly one task: the owner of the most recently registered poller that
  is interested in the event and has not been woken yet. \<open>fs_poll_deliver\<close> reports whether
  there was one; the list of pollers stays the same.
\<close>

lemma fs_poll_deliver_one:
  assumes "npollers p = of_nat (length (r_pollee p))" "length (r_pollee p) < 2 ^ 64"
  shows "\<exists>p' ts ok. fs_poll_deliver p revs = (p', ts, ok) \<and>
    map poller_id (r_pollee p') = map poller_id (r_pollee p) \<and> npollers p' = npollers p \<and>
    (case find (poll_ready revs) (r_pollee p) of
       None \<Rightarrow> ts = [] \<and> \<not> ok
     | Some q \<Rightarrow> ts = [the (info_poller q)] \<and> ok)"
proof (cases "r_pollee p")
  case Nil
  then show ?thesis using assms by (auto simp: fs_poll_deliver_def)
next
  case (Cons q qs)
  have "npollers p \<noteq> 0"
  proof
    assume "npollers p = 0"
    then have "unat (of_nat (length (r_pollee p)) :: size_t) = 0" using assms(1) by simp
    moreover have "unat (of_nat (length (r_pollee p)) :: size_t) = length (r_pollee p)"
      using assms(2) by (intro unat_of_nat_lt) simp
    ultimately show False using Cons by simp
  qed
  moreover obtain ps' ts ok where r: "fs_poll_deliver_loop revs (r_pollee p) = (ps', ts, ok)"
    by (cases "fs_poll_deliver_loop revs (r_pollee p)")
  ultimately show ?thesis
    using deliver_loop_correct [OF r] by (auto simp: fs_poll_deliver_def)
qed

end
