(* ===== verification/Tty_Line.thy ===== *)
theory Tty_Line
  imports Tty_Buffer Tty_Keysym Fs_Poll
begin

text \<open>
  The line discipline of \<open>src/kernel/dev/tty/tty.c\<close>: input processing with echo, line
  editing, signals and flow control, canonical and non-canonical reads, output processing,
  and the control requests.

  The calls that leave this file are recorded in the state: the bytes given to the driver's
  \<open>out\<close> function (\<open>tt_out\<close>), the tasks that are unblocked (\<open>tt_woken\<close>) and the signals sent
  with \<open>fkill\<close> (\<open>tt_kills\<close>). An operation on output is \<open>None\<close> when the calling task blocks
  because the terminal is stopped and its output buffer is full.
\<close>

section \<open>Terminal attributes\<close>

definition ISTRIP :: u32 where "ISTRIP = 0x20"
definition INLCR :: u32 where "INLCR = 0x40"
definition IGNCR :: u32 where "IGNCR = 0x80"
definition ICRNL :: u32 where "ICRNL = 0x100"
definition IXON :: u32 where "IXON = 0x400"
definition IXOFF :: u32 where "IXOFF = 0x1000"
definition OPOST :: u32 where "OPOST = 1"
definition OLCUC :: u32 where "OLCUC = 2"
definition ONLCR :: u32 where "ONLCR = 4"
definition CS8 :: u32 where "CS8 = 0x30"
definition CREAD :: u32 where "CREAD = 0x80"
definition CLOCAL :: u32 where "CLOCAL = 0x800"
definition ISIG :: u32 where "ISIG = 1"
definition ICANON :: u32 where "ICANON = 2"
definition ECHO :: u32 where "ECHO = 8"
definition ECHOE :: u32 where "ECHOE = 0x10"
definition ECHOK :: u32 where "ECHOK = 0x20"
definition ECHONL :: u32 where "ECHONL = 0x40"
definition NOFLSH :: u32 where "NOFLSH = 0x80"
definition ECHOKE :: u32 where "ECHOKE = 0x800"

abbreviation (input) VINTR :: nat where "VINTR \<equiv> 0"
abbreviation (input) VQUIT :: nat where "VQUIT \<equiv> 1"
abbreviation (input) VERASE :: nat where "VERASE \<equiv> 2"
abbreviation (input) VKILL :: nat where "VKILL \<equiv> 3"
abbreviation (input) VEOF :: nat where "VEOF \<equiv> 4"
abbreviation (input) VTIME :: nat where "VTIME \<equiv> 5"
abbreviation (input) VMIN :: nat where "VMIN \<equiv> 6"
abbreviation (input) VSTART :: nat where "VSTART \<equiv> 8"
abbreviation (input) VSTOP :: nat where "VSTOP \<equiv> 9"
abbreviation (input) VSUSP :: nat where "VSUSP \<equiv> 10"
abbreviation (input) VEOL :: nat where "VEOL \<equiv> 11"
abbreviation (input) VEOL2 :: nat where "VEOL2 \<equiv> 16"

record termios =
  c_iflag :: u32
  c_oflag :: u32
  c_cflag :: u32
  c_lflag :: u32
  c_line :: u8
  c_cc :: "u8 list"
  c_ispeed :: u32
  c_ospeed :: u32

definition TTY_CAP_IFLAG :: u32 where
  "TTY_CAP_IFLAG = ISTRIP OR INLCR OR IGNCR OR ICRNL OR IXON OR IXOFF"

definition TTY_CAP_OFLAG :: u32 where
  "TTY_CAP_OFLAG = OPOST OR OLCUC OR ONLCR"

definition TTY_CAP_CFLAG :: u32 where
  "TTY_CAP_CFLAG = 0"

definition TTY_CAP_LFLAG :: u32 where
  "TTY_CAP_LFLAG = ISIG OR ICANON OR ECHO OR ECHOE OR ECHOK OR ECHONL OR NOFLSH"

definition tty_cap_check_attr :: "termios \<Rightarrow> bool" where
  "tty_cap_check_attr tio \<longleftrightarrow>
     c_iflag tio AND NOT TTY_CAP_IFLAG = 0 \<and> c_oflag tio AND NOT TTY_CAP_OFLAG = 0 \<and>
     c_cflag tio AND NOT TTY_CAP_CFLAG = 0 \<and> c_lflag tio AND NOT TTY_CAP_LFLAG = 0"

record tty_t =
  tt_stop :: int
  tt_istop :: int
  tt_pgrp :: int
  tt_ses_id :: int
  tt_ses_holders :: u32
  tt_iwaiter :: "task_ref option"
  tt_owaiter :: "task_ref option"
  tt_ibuf :: tty_buf_t
  tt_obuf :: tty_buf_t
  tt_reqlen :: size_t
  tt_timeout :: bool
  tt_timer :: "u64 option"
  tt_tio :: termios
  tt_pollee :: fs_pollee
  tt_out :: "u8 list"
  tt_woken :: "task_ref list"
  tt_kills :: "(int \<times> int) list"

definition FC :: "u32 \<Rightarrow> u32 \<Rightarrow> bool" where
  "FC x y \<longleftrightarrow> x AND y = y"

definition FC_IFLAG :: "tty_t \<Rightarrow> u32 \<Rightarrow> bool" where
  "FC_IFLAG t y = FC (c_iflag (tt_tio t)) y"

definition FC_OFLAG :: "tty_t \<Rightarrow> u32 \<Rightarrow> bool" where
  "FC_OFLAG t y = FC (c_oflag (tt_tio t)) y"

definition FC_LFLAG :: "tty_t \<Rightarrow> u32 \<Rightarrow> bool" where
  "FC_LFLAG t y = FC (c_lflag (tt_tio t)) y"

text \<open>
  \<open>cc[i] == *p\<close>: the control character is an unsigned, the input character a signed \<open>char\<close>;
  both are promoted to \<open>int\<close>.
\<close>

definition cc_is :: "tty_t \<Rightarrow> nat \<Rightarrow> u8 \<Rightarrow> bool" where
  "cc_is t i c \<longleftrightarrow> uint (c_cc (tt_tio t) ! i) = sint c"

section \<open>Waking, flow control and the buffers\<close>

definition unblock_iwaiter :: "tty_t \<Rightarrow> tty_t" where
  "unblock_iwaiter t = (case tt_iwaiter t of None \<Rightarrow> t
     | Some w \<Rightarrow> t\<lparr>tt_iwaiter := None, tt_woken := tt_woken t @ [w]\<rparr>)"

definition unblock_owaiter :: "tty_t \<Rightarrow> tty_t" where
  "unblock_owaiter t = (case tt_owaiter t of None \<Rightarrow> t
     | Some w \<Rightarrow> t\<lparr>tt_owaiter := None, tt_woken := tt_woken t @ [w]\<rparr>)"

definition tty_poll_deliver :: "tty_t \<Rightarrow> u16 \<Rightarrow> tty_t \<times> bool" where
  "tty_poll_deliver t revs =
     (let (p, ts, ok) = fs_poll_deliver (tt_pollee t) revs
      in (t\<lparr>tt_pollee := p, tt_woken := tt_woken t @ ts\<rparr>, ok))"

definition tty_mark :: "tty_t \<Rightarrow> tty_t" where
  "tty_mark t = t\<lparr>tt_ibuf := fst (tty_buf_mark (tt_ibuf t) TTY_BF_END)\<rparr>"

definition tty_nc_timeout :: "tty_t \<Rightarrow> tty_t" where
  "tty_nc_timeout t =
     (let (t, ok) = tty_poll_deliver (tty_mark t) POLLIN in
      if ok then t else unblock_iwaiter (t\<lparr>tt_timeout := True\<rparr>))"

definition tflow :: "tty_t \<Rightarrow> int \<Rightarrow> tty_t" where
  "tflow t stop =
     (if \<not> FC_IFLAG t IXOFF then t
      else if tt_istop t = stop then t
      else t\<lparr>tt_istop := stop\<rparr>)"

definition tputc :: "tty_t \<Rightarrow> u8 \<Rightarrow> tty_t option" where
  "tputc t c =
     (if tt_stop t \<noteq> 0
      then map_option (\<lambda>b. t\<lparr>tt_obuf := b\<rparr>) (tty_buf_putc (tt_obuf t) c)
      else Some (t\<lparr>tt_out := tt_out t @ [c]\<rparr>))"

definition iputc :: "tty_t \<Rightarrow> u8 \<Rightarrow> tty_t" where
  "iputc t c =
     (let rem = tty_buf_rems (tt_ibuf t) in
      if rem \<noteq> 0 then
        let t = (case tty_buf_putc (tt_ibuf t) c of None \<Rightarrow> t | Some b \<Rightarrow> t\<lparr>tt_ibuf := b\<rparr>) in
        if rem - 1 = 0 then tflow t 1 else t
      else t)"

definition tty_islower :: "u8 \<Rightarrow> bool" where
  "tty_islower c \<longleftrightarrow> chr CHR ''a'' \<le> c \<and> c \<le> chr CHR ''z''"

definition opost :: "tty_t \<Rightarrow> u8 \<Rightarrow> tty_t option" where
  "opost t c =
     (if FC_OFLAG t OPOST then do {
        let c = (if FC_OFLAG t OLCUC \<and> tty_islower c then c AND NOT 32 else c);
        t \<leftarrow> (if FC_OFLAG t ONLCR \<and> c = 10 then tputc t 13 else Some t);
        tputc t c
      }
      else tputc t c)"

definition tty_c_deliver :: "tty_t \<Rightarrow> tty_t" where
  "tty_c_deliver t = fst (tty_poll_deliver (unblock_iwaiter (tty_mark t)) POLLIN)"

text \<open>\<open>tstop\<close> passes the first \<open>obuf.tail\<close> bytes of the output buffer to the driver.\<close>

definition tstop :: "tty_t \<Rightarrow> int \<Rightarrow> tty_t" where
  "tstop t st =
     (if \<not> FC_IFLAG t IXON then t
      else
        let t = t\<lparr>tt_stop := st\<rparr> in
        if st = 0 then
          unblock_owaiter (t\<lparr>tt_out := tt_out t @ take (nat (tb_tail (tt_obuf t))) (tb_buf (tt_obuf t)),
                             tt_obuf := tty_buf_kill (tt_obuf t)\<rparr>)
        else t)"

definition tsig :: "tty_t \<Rightarrow> int \<Rightarrow> tty_t" where
  "tsig t sig =
     (let t = (if \<not> FC_LFLAG t NOFLSH then t\<lparr>tt_ibuf := tty_buf_kill (tt_ibuf t)\<rparr> else t) in
      if FC_LFLAG t ISIG then t\<lparr>tt_kills := tt_kills t @ [(- tt_pgrp t, sig)]\<rparr> else t)"

section \<open>Input\<close>

text \<open>The echo of an erased character, and of a killed line of \<open>n\<close> characters.\<close>

definition erase_echo :: "tty_t \<Rightarrow> tty_t option" where
  "erase_echo t = do { t \<leftarrow> tputc t 8; t \<leftarrow> tputc t 32; tputc t 8 }"

fun kill_echo :: "nat \<Rightarrow> tty_t \<Rightarrow> tty_t option" where
  "kill_echo 0 t = Some t"
| "kill_echo (Suc n) t = do { t \<leftarrow> erase_echo t; kill_echo n t }"

definition feed_iflag :: "tty_t \<Rightarrow> u8 \<Rightarrow> u8 option" where
  "feed_iflag t c =
     (let c = (if c AND 0x80 \<noteq> 0 \<and> FC_IFLAG t ISTRIP then c AND 0x7f else c) in
      if c = 13 \<and> FC_IFLAG t IGNCR then None
      else
        let c = (if c = 13 \<and> FC_IFLAG t ICRNL then 10 else c);
            c = (if c = 10 \<and> FC_IFLAG t INLCR then 13 else c)
        in Some c)"

text \<open>End of line, erase and kill.\<close>

definition feed_eol :: "tty_t \<Rightarrow> tty_t option" where
  "feed_eol t = do {
     t \<leftarrow> (if FC_LFLAG t ECHO \<or> FC_LFLAG t ECHONL then opost t 10 else Some t);
     Some (tty_c_deliver (iputc t 10))
   }"

definition feed_erase :: "tty_t \<Rightarrow> tty_t option" where
  "feed_erase t = do {
     t \<leftarrow> (if FC_LFLAG t (ECHO OR ECHOE) then erase_echo t else Some t);
     Some (t\<lparr>tt_ibuf := fst (tty_buf_erase (tt_ibuf t))\<rparr>)
   }"

definition feed_kill :: "tty_t \<Rightarrow> tty_t option" where
  "feed_kill t =
     (if tty_buf_chrs (tt_ibuf t) = 0 then Some t
      else do {
        t \<leftarrow> (if FC_LFLAG t (ECHO OR ECHOK) \<or> FC_LFLAG t (ECHO OR ECHOKE)
              then kill_echo (nat (tty_buf_chrs (tt_ibuf t))) t else Some t);
        t \<leftarrow> (if FC_LFLAG t (ECHO OR ECHOKE) then opost t 10 else Some t);
        Some (t\<lparr>tt_ibuf := tty_buf_kill (tt_ibuf t)\<rparr>)
      })"

text \<open>
  The editing characters of canonical mode; the result \<open>None\<close> of the outer option is a blocked
  task, the inner one says that the character has not been consumed.
\<close>

definition feed_canon :: "tty_t \<Rightarrow> u8 \<Rightarrow> tty_t option option" where
  "feed_canon t c =
     (if cc_is t VEOF c then Some (Some (tty_c_deliver t))
      else if c = 10 \<or> cc_is t VEOL c \<or> cc_is t VEOL2 c then map_option Some (feed_eol t)
      else if cc_is t VERASE c then map_option Some (feed_erase t)
      else if cc_is t VKILL c then map_option Some (feed_kill t)
      else Some None)"

definition feed_control :: "tty_t \<Rightarrow> u8 \<Rightarrow> tty_t option" where
  "feed_control t c =
     (if cc_is t VINTR c then Some (tsig t 2)
      else if cc_is t VQUIT c then Some (tsig t 3)
      else if cc_is t VSTART c then Some (tstop t 0)
      else if cc_is t VSTOP c then Some (tstop t 1)
      else if cc_is t VSUSP c then Some (tsig t 20)
      else None)"

definition feed_data :: "tty_t \<Rightarrow> u8 \<Rightarrow> tty_t option" where
  "feed_data t c =
     (let t = iputc t c;
          cc = c_cc (tt_tio t);
          t = (if FC_LFLAG t ICANON then t
               else
                 let t = (if cc ! VTIME \<noteq> 0 \<and> cc ! VMIN \<noteq> 0
                          then t\<lparr>tt_timer := Some (ucast (cc ! VTIME) * 100)\<rparr> else t) in
                 if of_int (tty_buf_chrs (tt_ibuf t)) \<ge> tt_reqlen t
                    \<or> tty_buf_chrs (tt_ibuf t) \<ge> uint (cc ! VMIN) \<or> tty_buf_full (tt_ibuf t)
                 then let (t, ok) = tty_poll_deliver t POLLIN in if ok then t else unblock_iwaiter t
                 else t)
      in if FC_LFLAG t ECHO then opost t c else Some t)"

definition tty_feed1 :: "tty_t \<Rightarrow> u8 \<Rightarrow> tty_t option" where
  "tty_feed1 t c =
     (case feed_iflag t c of
        None \<Rightarrow> Some t
      | Some c \<Rightarrow> do {
          done \<leftarrow> (if FC_LFLAG t ICANON then feed_canon t c else Some None);
          case done of
            Some t' \<Rightarrow> Some t'
          | None \<Rightarrow>
              (case feed_control t c of
                 Some t' \<Rightarrow> Some t'
               | None \<Rightarrow> feed_data t c)
        })"

fun tty_feed :: "tty_t \<Rightarrow> u8 list \<Rightarrow> tty_t option" where
  "tty_feed t [] = Some t"
| "tty_feed t (c # cs) = do { t \<leftarrow> tty_feed1 t c; tty_feed t cs }"

definition tty_rxb :: "tty_t \<Rightarrow> u8 list \<Rightarrow> tty_t option" where
  "tty_rxb t buf = tty_feed t buf"

definition tty_rx :: "tty_t \<Rightarrow> tty_t option \<Rightarrow> keysym_t \<Rightarrow> tty_t option" where
  "tty_rx fgtty tty ks = tty_feed (case tty of None \<Rightarrow> fgtty | Some t \<Rightarrow> t) (kstoa ks)"

section \<open>Reading\<close>

text \<open>
  A reader that finds no data blocks. While it is blocked other parts of the kernel feed
  input or fire the timer; a wake-up is the list of these events with the result of
  \<open>task_block\<close>. A reader that is not woken any more stays blocked (\<open>None\<close>).
\<close>

datatype tty_event = Feed "u8 list" | NcTimeout

type_synonym wakeup = "tty_event list \<times> int"

fun tty_events :: "tty_t \<Rightarrow> tty_event list \<Rightarrow> tty_t option" where
  "tty_events t [] = Some t"
| "tty_events t (Feed cs # es) = do { t \<leftarrow> tty_feed t cs; tty_events t es }"
| "tty_events t (NcTimeout # es) = tty_events (tty_nc_timeout t) es"

fun tty_block :: "tty_t \<Rightarrow> task_ref \<Rightarrow> wakeup list \<Rightarrow> (tty_t \<times> int \<times> wakeup list) option" where
  "tty_block t cur [] = None"
| "tty_block t cur ((es, reason) # ws) = do {
     t \<leftarrow> tty_events (t\<lparr>tt_iwaiter := Some cur\<rparr>) es;
     Some (t, reason, ws)
   }"

definition tty_getc :: "tty_t \<Rightarrow> (tty_t \<times> u8 \<times> u8) option" where
  "tty_getc t = map_option (\<lambda>(b, x). (t\<lparr>tt_ibuf := b\<rparr>, x)) (tty_buf_getc (tt_ibuf t))"

text \<open>The loop of \<open>tty_fetch\<close>; the first argument is \<open>len - cnt\<close>.\<close>

fun tty_fetch_loop ::
  "nat \<Rightarrow> task_ref \<Rightarrow> wakeup list \<Rightarrow> tty_t \<Rightarrow> u8 list \<Rightarrow> (tty_t \<times> u8 list \<times> int) option" where
  "tty_fetch_loop 0 cur ws t out = Some (t, out, 0)"
| "tty_fetch_loop (Suc n) cur ws t out =
     (case tty_getc t of
        Some (t, c, flag) \<Rightarrow>
          if flag AND TTY_BF_END = TTY_BF_END then Some (t, out @ [c], 0)
          else tty_fetch_loop n cur ws t (out @ [c])
      | None \<Rightarrow> do {
          (t, reason, ws) \<leftarrow> tty_block t cur ws;
          if reason < 0 then Some (t, out, reason)
          else
            (case tty_getc t of
               None \<Rightarrow> Some (t, out, 0)
             | Some (t, c, flag) \<Rightarrow>
                 if flag AND TTY_BF_END = TTY_BF_END then Some (t, out @ [c], 0)
                 else tty_fetch_loop n cur ws t (out @ [c]))
        })"

definition tty_fetch ::
  "tty_t \<Rightarrow> task_ref \<Rightarrow> wakeup list \<Rightarrow> nat \<Rightarrow> (tty_t \<times> u8 list \<times> int) option" where
  "tty_fetch t cur ws len = do {
     (t, out, reason) \<leftarrow> tty_fetch_loop len cur ws t [];
     Some (t, out, if reason < 0 then reason else int (length out))
   }"

text \<open>
  The loops of \<open>tty_fetch_nc\<close>. The first argument bounds the number of iterations, because
  the code spins forever when a stale timeout is seen with \<open>VTIME\<close> equal to 0.
\<close>

fun tty_fetch_nc_loop ::
  "nat \<Rightarrow> task_ref \<Rightarrow> wakeup list \<Rightarrow> tty_t \<Rightarrow> u8 list \<Rightarrow> (tty_t \<times> u8 list \<times> int) option" where
  "tty_fetch_nc_loop 0 cur ws t out = None"
| "tty_fetch_nc_loop (Suc n) cur ws t out =
     (let cc = c_cc (tt_tio t);
          reset = (cc ! VTIME \<noteq> 0 \<and> cc ! VMIN \<noteq> 0);
          after = (\<lambda>t out.
            if cc ! VTIME \<noteq> 0 \<and> tt_timeout t then Some (t, out, int (length out))
            else if tt_reqlen t = 0 \<or> length out \<ge> unat (cc ! VMIN) then Some (t, out, int (length out))
            else tty_fetch_nc_loop n cur ws t out)
      in
      if \<not> tt_timeout t \<and> tt_reqlen t \<noteq> 0 then
        (case tty_getc t of
           None \<Rightarrow>
             let t = (if \<not> reset \<and> cc ! VTIME \<noteq> 0
                      then t\<lparr>tt_timer := Some (ucast (cc ! VTIME) * 100)\<rparr> else t) in
             if length out \<ge> unat (cc ! VMIN) then after t out
             else do {
               (t, reason, ws) \<leftarrow> tty_block t cur ws;
               if reason < 0 then Some (t, out, reason)
               else tty_fetch_nc_loop n cur ws t out
             }
         | Some (t, c, flag) \<Rightarrow>
             let t = t\<lparr>tt_reqlen := tt_reqlen t - 1\<rparr>; out = out @ [c] in
             if reset \<and> flag AND TTY_BF_END = TTY_BF_END then after t out
             else tty_fetch_nc_loop n cur ws t out)
      else after t out)"

definition tty_fetch_nc ::
  "nat \<Rightarrow> tty_t \<Rightarrow> task_ref \<Rightarrow> wakeup list \<Rightarrow> size_t \<Rightarrow> (tty_t \<times> u8 list \<times> int) option" where
  "tty_fetch_nc fuel t cur ws len =
     tty_fetch_nc_loop fuel cur ws (t\<lparr>tt_reqlen := len, tt_timeout := False\<rparr>) []"

text \<open>\<open>TTY_XONSIZ\<close> is four fifths of the buffer size.\<close>

definition tty_read ::
  "nat \<Rightarrow> tty_t \<Rightarrow> task_ref \<Rightarrow> wakeup list \<Rightarrow> size_t \<Rightarrow> (tty_t \<times> u8 list \<times> int) option" where
  "tty_read fuel t cur ws len = do {
     (t, out, cnt) \<leftarrow> (if FC_LFLAG t ICANON then tty_fetch t cur ws (unat len)
                       else tty_fetch_nc fuel t cur ws len);
     Some (if 5 * tty_buf_rems (tt_ibuf t) \<ge> 4 * TTY_BUFSIZ then tflow t 0 else t, out, cnt)
   }"

section \<open>Writing, control and setup\<close>

fun tty_write :: "tty_t \<Rightarrow> u8 list \<Rightarrow> (tty_t \<times> int) option" where
  "tty_write t [] = Some (t, 0)"
| "tty_write t (c # cs) = do {
     t \<leftarrow> opost t c;
     (t, cnt) \<leftarrow> tty_write t cs;
     Some (t, cnt + 1)
   }"

definition TCGETS :: u32 where "TCGETS = 0x5401"
definition TCSETS :: u32 where "TCSETS = 0x5402"
definition TIOCGPGRP :: u32 where "TIOCGPGRP = 0x540f"
definition TIOCSPGRP :: u32 where "TIOCSPGRP = 0x5410"

text \<open>
  \<open>argp\<close> points to the attributes or to a process group, depending on the request; the
  result has what is stored through it. \<open>ctl\<close> is the control function of the driver.
\<close>

definition tty_ioctl ::
  "(u32 \<Rightarrow> int) \<Rightarrow> tty_t \<Rightarrow> u32 \<Rightarrow> termios \<Rightarrow> int \<Rightarrow> tty_t \<times> termios \<times> int \<times> int" where
  "tty_ioctl ctl t req tio pgrp =
     (if req = TCGETS then (t, tt_tio t, pgrp, 0)
      else if req = TCSETS + 1 \<or> req = TCSETS + 2 \<or> req = TCSETS then (t\<lparr>tt_tio := tio\<rparr>, tio, pgrp, 0)
      else if req = TIOCGPGRP then (t, tio, tt_pgrp t, 0)
      else if req = TIOCSPGRP then (t\<lparr>tt_pgrp := pgrp\<rparr>, tio, pgrp, 0)
      else (t, tio, pgrp, ctl req))"

definition tty_poll_setup ::
  "tty_t \<Rightarrow> nat list \<Rightarrow> fs_poller \<Rightarrow> tty_t \<times> nat list \<times> fs_poller \<times> int" where
  "tty_poll_setup t ctx poller =
     (let (poller, ok) =
        (if tty_buf_chrs (tt_ibuf t) > 0
         then (let (p, ts, ok) = fs_poll_deliver_to POLLIN poller False in (p, ok))
         else (poller, False))
      in
      if ok then (t, ctx, poller, 1)
      else
        let (pollee, ctx, poller) = fs_poll_setup (tt_pollee t) ctx poller
        in (t\<lparr>tt_reqlen := -1, tt_pollee := pollee\<rparr>, ctx, poller, 0))"

definition tty_poll_teardown :: "tty_t \<Rightarrow> nat list \<Rightarrow> fs_poller \<Rightarrow> tty_t \<times> nat list" where
  "tty_poll_teardown t ctx poller =
     (let (pollee, ctx) = fs_poll_teardown (tt_pollee t) ctx poller in (t\<lparr>tt_pollee := pollee\<rparr>, ctx))"

text \<open>A session leader without a controlling terminal acquires a free terminal when it opens it.\<close>

definition tty_init_pctx :: "tty_t \<Rightarrow> int \<Rightarrow> int \<Rightarrow> bool \<Rightarrow> tty_t \<times> bool" where
  "tty_init_pctx t sid pid has_ctrltty =
     (if tt_ses_holders t = 0 \<and> sid = pid \<and> \<not> has_ctrltty
      then (t\<lparr>tt_ses_id := sid, tt_ses_holders := 1\<rparr>, True)
      else (t, has_ctrltty))"

definition tty_default_tio :: termios where
  "tty_default_tio =
     \<lparr>c_iflag = ICRNL OR IXON, c_oflag = OPOST OR ONLCR, c_cflag = CS8 OR CREAD OR CLOCAL,
      c_lflag = ISIG OR ICANON OR ECHO OR ECHOE OR ECHOK, c_line = 0,
      c_cc = [0x03, 0x1C, 0x7F, 0x15, 0x04, 0, 1, 0, 0x11, 0x13, 0x1A] @ replicate 21 0,
      c_ispeed = 0, c_ospeed = 0\<rparr>"

text \<open>\<open>t0\<close> is the contents of the memory that \<open>malloc\<close> returned or the caller provided.\<close>

definition tty_register :: "tty_t \<Rightarrow> tty_t" where
  "tty_register t0 = t0\<lparr>tt_stop := 0, tt_pgrp := 0, tt_ses_id := 0, tt_ses_holders := 0,
     tt_iwaiter := None, tt_owaiter := None,
     tt_ibuf := tty_buf_init (tt_ibuf t0), tt_obuf := tty_buf_init (tt_obuf t0),
     tt_tio := tty_default_tio, tt_pollee := fs_pollee_init (tt_pollee t0)\<rparr>"

section \<open>The buffer invariant\<close>

definition tty_ok :: "tty_t \<Rightarrow> bool" where
  "tty_ok t \<longleftrightarrow> tb_invar (tt_ibuf t) \<and> tb_invar (tt_obuf t)"

lemma unblock_iwaiter_fields [simp]:
  "tt_ibuf (unblock_iwaiter t) = tt_ibuf t" "tt_obuf (unblock_iwaiter t) = tt_obuf t"
  "tt_tio (unblock_iwaiter t) = tt_tio t" "tt_stop (unblock_iwaiter t) = tt_stop t"
  "tt_out (unblock_iwaiter t) = tt_out t"
  by (simp_all add: unblock_iwaiter_def split: option.split)

lemma unblock_owaiter_fields [simp]:
  "tt_ibuf (unblock_owaiter t) = tt_ibuf t" "tt_obuf (unblock_owaiter t) = tt_obuf t"
  "tt_tio (unblock_owaiter t) = tt_tio t" "tt_stop (unblock_owaiter t) = tt_stop t"
  "tt_out (unblock_owaiter t) = tt_out t"
  by (simp_all add: unblock_owaiter_def split: option.split)

lemma tty_poll_deliver_fields [simp]:
  "tt_ibuf (fst (tty_poll_deliver t r)) = tt_ibuf t" "tt_obuf (fst (tty_poll_deliver t r)) = tt_obuf t"
  "tt_tio (fst (tty_poll_deliver t r)) = tt_tio t" "tt_stop (fst (tty_poll_deliver t r)) = tt_stop t"
  "tt_out (fst (tty_poll_deliver t r)) = tt_out t"
  by (simp_all add: tty_poll_deliver_def split: prod.split)

lemma tflow_fields [simp]:
  "tt_ibuf (tflow t s) = tt_ibuf t" "tt_obuf (tflow t s) = tt_obuf t"
  "tt_tio (tflow t s) = tt_tio t" "tt_stop (tflow t s) = tt_stop t" "tt_out (tflow t s) = tt_out t"
  by (simp_all add: tflow_def)

lemma tputc_ok:
  assumes "tty_ok t" "tputc t c = Some t'"
  shows "tty_ok t'" "tt_tio t' = tt_tio t" "tt_ibuf t' = tt_ibuf t"
  using assms by (auto simp: tputc_def tty_ok_def split: if_splits intro: tb.put_invar)

lemma opost_ok:
  assumes "tty_ok t" "opost t c = Some t'"
  shows "tty_ok t'" "tt_tio t' = tt_tio t" "tt_ibuf t' = tt_ibuf t"
proof -
  have "tty_ok t' \<and> tt_tio t' = tt_tio t \<and> tt_ibuf t' = tt_ibuf t"
    using assms tputc_ok
    by (auto simp: opost_def bind_eq_Some_conv Let_def split: if_splits) (metis tputc_ok)+
  then show "tty_ok t'" "tt_tio t' = tt_tio t" "tt_ibuf t' = tt_ibuf t" by auto
qed

lemma iputc_ok: "tty_ok t \<Longrightarrow> tty_ok (iputc t c) \<and> tt_tio (iputc t c) = tt_tio t"
  by (auto simp: iputc_def tty_ok_def Let_def split: option.split intro: tb.put_invar)

lemma tty_mark_ok: "tty_ok t \<Longrightarrow> tty_ok (tty_mark t) \<and> tt_tio (tty_mark t) = tt_tio t"
  by (simp add: tty_mark_def tty_ok_def tb_mark)

lemma tty_c_deliver_ok:
  assumes "tty_ok t"
  shows "tty_ok (tty_c_deliver t)" "tt_tio (tty_c_deliver t) = tt_tio t"
    "tt_ibuf (tty_c_deliver t) = fst (tty_buf_mark (tt_ibuf t) TTY_BF_END)"
  using tty_mark_ok [OF assms] by (simp_all add: tty_c_deliver_def tty_ok_def) (simp add: tty_mark_def)

lemma tb_kill_invar: "tb_invar b \<Longrightarrow> tb_invar (tty_buf_kill b)"
  by (simp add: tty_buf_kill_def tb_reset)

lemma tstop_ok: "tty_ok t \<Longrightarrow> tty_ok (tstop t st) \<and> tt_tio (tstop t st) = tt_tio t \<and>
    tt_ibuf (tstop t st) = tt_ibuf t"
  by (simp add: tstop_def tty_ok_def Let_def tb_kill_invar)

lemma tsig_ok: "tty_ok t \<Longrightarrow> tty_ok (tsig t sig) \<and> tt_tio (tsig t sig) = tt_tio t"
  by (simp add: tsig_def tty_ok_def Let_def tb_kill_invar)

lemma erase_echo_ok:
  assumes "tty_ok t" "erase_echo t = Some t'"
  shows "tty_ok t' \<and> tt_tio t' = tt_tio t \<and> tt_ibuf t' = tt_ibuf t"
  using assms unfolding erase_echo_def by (auto simp: bind_eq_Some_conv) (metis tputc_ok)+

lemma kill_echo_ok:
  "tty_ok t \<Longrightarrow> kill_echo n t = Some t' \<Longrightarrow> tty_ok t' \<and> tt_tio t' = tt_tio t \<and> tt_ibuf t' = tt_ibuf t"
proof (induction n arbitrary: t)
  case (Suc n)
  then obtain t1 where t1: "erase_echo t = Some t1" "kill_echo n t1 = Some t'"
    by (auto simp: bind_eq_Some_conv)
  then show ?case using Suc.IH [OF _ t1(2)] erase_echo_ok [OF Suc.prems(1) t1(1)] by simp
qed simp

lemma tty_ok_ibuf: "tty_ok t \<Longrightarrow> tb_invar b \<Longrightarrow> tty_ok (t\<lparr>tt_ibuf := b\<rparr>)"
  by (simp add: tty_ok_def)

lemma feed_eol_ok:
  assumes t: "tty_ok t" and r: "feed_eol t = Some t'"
  shows "tty_ok t' \<and> tt_tio t' = tt_tio t"
proof -
  obtain u where u: "(if FC_LFLAG t ECHO \<or> FC_LFLAG t ECHONL then opost t 10 else Some t) = Some u"
      and t': "t' = tty_c_deliver (iputc u 10)"
    using r by (auto simp: feed_eol_def bind_eq_Some_conv)
  have "tty_ok u \<and> tt_tio u = tt_tio t" using u t opost_ok [OF t, of 10 u] by (auto split: if_splits)
  then show ?thesis using t' iputc_ok [of u 10] tty_c_deliver_ok [of "iputc u 10"] by simp
qed

lemma feed_erase_ok:
  assumes t: "tty_ok t" and r: "feed_erase t = Some t'"
  shows "tty_ok t' \<and> tt_tio t' = tt_tio t \<and> tt_ibuf t' = fst (tty_buf_erase (tt_ibuf t))"
proof -
  obtain u where u: "(if FC_LFLAG t (ECHO OR ECHOE) then erase_echo t else Some t) = Some u"
      and t': "t' = u\<lparr>tt_ibuf := fst (tty_buf_erase (tt_ibuf u))\<rparr>"
    using r by (auto simp: feed_erase_def bind_eq_Some_conv)
  have u: "tty_ok u \<and> tt_tio u = tt_tio t \<and> tt_ibuf u = tt_ibuf t"
    using u t erase_echo_ok [OF t, of u] by (auto split: if_splits)
  then have "tb_invar (fst (tty_buf_erase (tt_ibuf u)))" using tb_erase by (auto simp: tty_ok_def)
  then show ?thesis using t' u tty_ok_ibuf by simp
qed

lemma feed_kill_ok:
  assumes t: "tty_ok t" and r: "feed_kill t = Some t'"
  shows "tty_ok t' \<and> tt_tio t' = tt_tio t \<and> tb_contents (tt_ibuf t') = []"
proof (cases "tty_buf_chrs (tt_ibuf t) = 0")
  case True
  then have "tb_len (tt_ibuf t) = 0" by (simp add: tb_len_def)
  then have "tb_contents (tt_ibuf t) = []" by (simp add: tb_contents_Nil)
  then show ?thesis using True r t by (simp add: feed_kill_def)
next
  case False
  then obtain u v where u: "(if FC_LFLAG t (ECHO OR ECHOK) \<or> FC_LFLAG t (ECHO OR ECHOKE)
          then kill_echo (nat (tty_buf_chrs (tt_ibuf t))) t else Some t) = Some u"
      and v: "(if FC_LFLAG u (ECHO OR ECHOKE) then opost u 10 else Some u) = Some v"
      and t': "t' = v\<lparr>tt_ibuf := tty_buf_kill (tt_ibuf v)\<rparr>"
    using r by (auto simp: feed_kill_def bind_eq_Some_conv simp del: kill_echo.simps)
  have u: "tty_ok u" "tt_tio u = tt_tio t"
    using u t kill_echo_ok [OF t, of _ u] by (auto split: if_splits)
  have "tty_ok v" "tt_tio v = tt_tio u" using u(1) v opost_ok [OF u(1), of 10 v] by (auto split: if_splits)
  moreover have "tb_contents (tty_buf_kill b) = []" if "tb_invar b" for b
    using that tb_reset by (simp add: tty_buf_kill_def)
  ultimately show ?thesis using t' u(2) by (simp add: tty_ok_def tb_kill_invar)
qed

lemma feed_canon_ok:
  "tty_ok t \<Longrightarrow> feed_canon t c = Some (Some t') \<Longrightarrow> tty_ok t' \<and> tt_tio t' = tt_tio t"
  by (auto simp: feed_canon_def tty_c_deliver_ok split: if_splits
      dest: feed_eol_ok [rotated] feed_erase_ok [rotated] feed_kill_ok [rotated])

lemma feed_control_ok:
  "tty_ok t \<Longrightarrow> feed_control t c = Some t' \<Longrightarrow> tty_ok t' \<and> tt_tio t' = tt_tio t"
  by (auto simp: feed_control_def tsig_ok tstop_ok split: if_splits)

lemma feed_data_ok:
  assumes t: "tty_ok t" and r: "feed_data t c = Some t'"
  shows "tty_ok t' \<and> tt_tio t' = tt_tio t \<and> tt_ibuf t' = tt_ibuf (iputc t c)"
proof -
  obtain u where u: "tty_ok u" "tt_tio u = tt_tio t" "tt_ibuf u = tt_ibuf (iputc t c)"
      and "(if FC_LFLAG u ECHO then opost u c else Some u) = Some t'"
  proof
    let ?s = "iputc t c"
    let ?w = "let cc = c_cc (tt_tio ?s) in
        if FC_LFLAG ?s ICANON then ?s
        else
          let t = (if cc ! VTIME \<noteq> 0 \<and> cc ! VMIN \<noteq> 0
                   then ?s\<lparr>tt_timer := Some (ucast (cc ! VTIME) * 100)\<rparr> else ?s) in
          if of_int (tty_buf_chrs (tt_ibuf t)) \<ge> tt_reqlen t
             \<or> tty_buf_chrs (tt_ibuf t) \<ge> uint (cc ! VMIN) \<or> tty_buf_full (tt_ibuf t)
          then let (t, ok) = tty_poll_deliver t POLLIN in if ok then t else unblock_iwaiter t
          else t"
    have "tt_ibuf ?w = tt_ibuf ?s \<and> tt_obuf ?w = tt_obuf ?s \<and> tt_tio ?w = tt_tio ?s"
      by (simp add: Let_def case_prod_beta)
    then show "tty_ok ?w" "tt_tio ?w = tt_tio t" "tt_ibuf ?w = tt_ibuf ?s"
      using iputc_ok [OF t, of c] by (simp_all add: tty_ok_def)
    show "(if FC_LFLAG ?w ECHO then opost ?w c else Some ?w) = Some t'"
      using r unfolding feed_data_def by (simp only: Let_def)
  qed
  then show ?thesis using opost_ok [OF u(1), of c t'] by (auto split: if_splits)
qed

lemma tty_feed1_ok:
  assumes "tty_ok t" "tty_feed1 t c = Some t'"
  shows "tty_ok t' \<and> tt_tio t' = tt_tio t"
  using assms
  by (auto simp: tty_feed1_def bind_eq_Some_conv split: option.splits if_splits
      dest: feed_canon_ok [rotated] feed_control_ok [rotated] feed_data_ok [rotated])

lemma tty_feed_ok: "tty_ok t \<Longrightarrow> tty_feed t cs = Some t' \<Longrightarrow> tty_ok t' \<and> tt_tio t' = tt_tio t"
proof (induction t cs rule: tty_feed.induct)
  case (2 t c cs)
  then obtain u where u: "tty_feed1 t c = Some u" "tty_feed u cs = Some t'"
    by (auto simp: bind_eq_Some_conv)
  then show ?case using tty_feed1_ok [OF "2.prems"(1) u(1)] "2.IH" by auto
qed simp

section \<open>Ordinary characters in canonical mode\<close>

lemma sint_ascii:
  assumes "c < (128 :: u8)"
  shows "sint c = uint c"
proof -
  have "- (2 ^ (LENGTH(8) - Suc 0)) \<le> uint c" by (rule order_trans [OF _ uint_ge_0]) simp
  moreover have "uint c < 2 ^ (LENGTH(8) - Suc 0)" using assms by (simp add: word_less_def)
  ultimately show ?thesis unfolding sint_uint by (rule signed_take_bit_int_eq_self)
qed

lemma cc_is_ascii: "c < 128 \<Longrightarrow> cc_is t i c \<longleftrightarrow> c_cc (tt_tio t) ! i = c"
  by (simp add: cc_is_def sint_ascii word_uint_eq_iff)

lemma and_0x80_ascii:
  assumes "c < (128 :: u8)"
  shows "c AND 0x80 = 0"
proof -
  have "take_bit 7 (uint c) = uint c"
    using assms by (intro take_bit_int_eq_self) (simp_all add: word_less_def)
  then have "take_bit 7 c = c" by (simp add: word_uint_eq_iff unsigned_take_bit_eq)
  then have "c AND 0x80 = c AND (mask 7 AND 0x80)" by (metis and.assoc take_bit_eq_mask)
  moreover have "mask 7 AND 0x80 = (0 :: u8)" by (simp add: mask_eq_exp_minus_1)
  ultimately show ?thesis by simp
qed

definition tty_plain :: "tty_t \<Rightarrow> u8 \<Rightarrow> bool" where
  "tty_plain t c \<longleftrightarrow> c < 128 \<and> c \<noteq> 10 \<and> c \<noteq> 13 \<and>
     list_all (\<lambda>i. c_cc (tt_tio t) ! i \<noteq> c)
       [VINTR, VQUIT, VERASE, VKILL, VEOF, VSTART, VSTOP, VSUSP, VEOL, VEOL2]"

definition opost_bytes :: "tty_t \<Rightarrow> u8 \<Rightarrow> u8 list" where
  "opost_bytes t c =
     (if FC_OFLAG t OPOST then
        let c = (if FC_OFLAG t OLCUC \<and> tty_islower c then c AND NOT 32 else c)
        in (if FC_OFLAG t ONLCR \<and> c = 10 then [13] else []) @ [c]
      else [c])"

definition echo_bytes :: "tty_t \<Rightarrow> u8 \<Rightarrow> u8 list" where
  "echo_bytes t c = (if FC_LFLAG t ECHO then opost_bytes t c else [])"

lemma FC_tio_cong:
  "tt_tio t' = tt_tio t \<Longrightarrow> FC_IFLAG t' = FC_IFLAG t" "tt_tio t' = tt_tio t \<Longrightarrow> FC_OFLAG t' = FC_OFLAG t"
  "tt_tio t' = tt_tio t \<Longrightarrow> FC_LFLAG t' = FC_LFLAG t" "tt_tio t' = tt_tio t \<Longrightarrow> cc_is t' = cc_is t"
  by (auto simp: FC_IFLAG_def FC_OFLAG_def FC_LFLAG_def cc_is_def fun_eq_iff)

lemma bytes_tio_cong:
  "tt_tio t' = tt_tio t \<Longrightarrow> opost_bytes t' = opost_bytes t"
  "tt_tio t' = tt_tio t \<Longrightarrow> echo_bytes t' = echo_bytes t"
  "tt_tio t' = tt_tio t \<Longrightarrow> tty_plain t' = tty_plain t"
  by (auto simp: opost_bytes_def echo_bytes_def tty_plain_def fun_eq_iff FC_tio_cong [of t' t])

lemma opost_running:
  "tt_stop t = 0 \<Longrightarrow> opost t c = Some (t\<lparr>tt_out := tt_out t @ opost_bytes t c\<rparr>)"
  by (simp add: opost_def opost_bytes_def tputc_def Let_def)

lemma iputc_room:
  assumes "tty_ok t" "tb_len (tt_ibuf t) < 4095"
  shows "tty_ok (iputc t c)" "tb_contents (tt_ibuf (iputc t c)) = tb_contents (tt_ibuf t) @ [(c, 0)]"
    "tt_tio (iputc t c) = tt_tio t" "tt_stop (iputc t c) = tt_stop t" "tt_out (iputc t c) = tt_out t"
proof -
  have b: "tb_invar (tt_ibuf t)" using assms(1) by (simp add: tty_ok_def)
  have "tty_buf_rems (tt_ibuf t) \<noteq> 0"
    using tty_buf_rems_eq [OF b] tb_len_bounds(3) [OF b] assms(2) by linarith
  moreover obtain b' where "tty_buf_putc (tt_ibuf t) c = Some b'" "tb_invar b'"
      "tb_contents b' = tb_contents (tt_ibuf t) @ [(c, 0)]"
    using tb_put [OF b assms(2)] by blast
  ultimately show "tb_contents (tt_ibuf (iputc t c)) = tb_contents (tt_ibuf t) @ [(c, 0)]"
    and "tt_stop (iputc t c) = tt_stop t" "tt_out (iputc t c) = tt_out t"
    by (simp_all add: iputc_def Let_def)
qed (use iputc_ok [OF assms(1)] in auto)

lemma feed1_plain:
  assumes "tty_plain t c" "FC_LFLAG t ICANON" "tt_stop t = 0" "tty_ok t" "tb_len (tt_ibuf t) < 4095"
  shows "tty_feed1 t c = Some ((iputc t c)\<lparr>tt_out := tt_out t @ echo_bytes t c\<rparr>)"
proof -
  note room = iputc_room [OF assms(4,5)]
  have c: "c < 128" "c \<noteq> 10" "c \<noteq> 13" using assms(1) by (simp_all add: tty_plain_def)
  have "feed_iflag t c = Some c" using c and_0x80_ascii [OF c(1)] by (simp add: feed_iflag_def Let_def)
  moreover have "feed_canon t c = Some None"
    using assms(1) c by (simp add: feed_canon_def cc_is_ascii tty_plain_def)
  moreover have "feed_control t c = None"
    using assms(1) c by (simp add: feed_control_def cc_is_ascii tty_plain_def)
  moreover have "feed_data t c = Some ((iputc t c)\<lparr>tt_out := tt_out t @ echo_bytes t c\<rparr>)"
    using assms(2,3) room FC_tio_cong(3) [OF room(3)] bytes_tio_cong(1) [OF room(3)]
    by (simp add: feed_data_def Let_def opost_running echo_bytes_def)
  ultimately show ?thesis using assms(2) by (simp add: tty_feed1_def)
qed

lemma feed_plain:
  "tty_ok t \<Longrightarrow> FC_LFLAG t ICANON \<Longrightarrow> tt_stop t = 0 \<Longrightarrow> list_all (tty_plain t) cs \<Longrightarrow>
    tb_len (tt_ibuf t) + length cs \<le> 4095 \<Longrightarrow>
    \<exists>t'. tty_feed t cs = Some t' \<and> tty_ok t' \<and> tt_tio t' = tt_tio t \<and> tt_stop t' = 0 \<and>
      tb_contents (tt_ibuf t') = tb_contents (tt_ibuf t) @ map (\<lambda>c. (c, 0)) cs \<and>
      tt_out t' = tt_out t @ concat (map (echo_bytes t) cs)"
proof (induction cs arbitrary: t)
  case (Cons c cs)
  let ?u = "(iputc t c)\<lparr>tt_out := tt_out t @ echo_bytes t c\<rparr>"
  have len: "tb_len (tt_ibuf t) < 4095" using Cons.prems(5) by simp
  note room = iputc_room [OF Cons.prems(1) len, of c]
  have tio: "tt_tio ?u = tt_tio t" by (simp add: room)
  have step: "tty_feed1 t c = Some ?u"
    using Cons.prems len by (intro feed1_plain) simp_all
  have "tb_len (tt_ibuf ?u) = tb_len (tt_ibuf t) + 1" using arg_cong [OF room(2), of length] by simp
  then have "\<exists>t'. tty_feed ?u cs = Some t' \<and> tty_ok t' \<and> tt_tio t' = tt_tio ?u \<and> tt_stop t' = 0 \<and>
      tb_contents (tt_ibuf t') = tb_contents (tt_ibuf ?u) @ map (\<lambda>c. (c, 0)) cs \<and>
      tt_out t' = tt_out ?u @ concat (map (echo_bytes ?u) cs)"
    using Cons.prems room FC_tio_cong(3) [OF tio] bytes_tio_cong(3) [OF tio]
    by (intro Cons.IH) (simp_all add: tty_ok_def)
  then show ?case
    using step room(2) tio bytes_tio_cong(2) [OF tio] by auto
qed simp

section \<open>Reading a line\<close>

lemma tty_getc_Cons:
  assumes "tb_invar (tt_ibuf t)" "tb_contents (tt_ibuf t) = x # xs"
  obtains t' where "tty_getc t = Some (t', x)" "tb_invar (tt_ibuf t')"
    "tb_contents (tt_ibuf t') = xs" "tt_tio t' = tt_tio t"
proof -
  have "tb_len (tt_ibuf t) \<noteq> 0" using assms(2) tb_contents_Nil [of "tt_ibuf t"] by simp
  from tb_get [OF assms(1) this] obtain b' where "tty_buf_getc (tt_ibuf t) = Some (b', x)"
      "tb_invar b'" "tb_contents b' = xs"
    using assms(2) by auto
  then show thesis using that [of "t\<lparr>tt_ibuf := b'\<rparr>"] by (simp add: tty_getc_def)
qed

lemma fetch_line:
  "tb_invar (tt_ibuf t) \<Longrightarrow>
    tb_contents (tt_ibuf t) = map (\<lambda>c. (c, 0)) cs @ (d, f) # rest \<Longrightarrow> f AND TTY_BF_END = TTY_BF_END \<Longrightarrow>
    length cs < n \<Longrightarrow>
    \<exists>t'. tty_fetch_loop n cur ws t out = Some (t', out @ cs @ [d], 0) \<and> tb_invar (tt_ibuf t') \<and>
      tb_contents (tt_ibuf t') = rest"
proof (induction cs arbitrary: n t out)
  case Nil
  then obtain m where "n = Suc m" by (cases n) auto
  moreover obtain t' where "tty_getc t = Some (t', d, f)" "tb_invar (tt_ibuf t')"
      "tb_contents (tt_ibuf t') = rest"
    using Nil.prems tty_getc_Cons [of t "(d, f)" rest] by auto
  ultimately show ?case using Nil.prems(3) by simp
next
  case (Cons c cs)
  then obtain m where n: "n = Suc m" "length cs < m" by (cases n) auto
  obtain t1 where t1: "tty_getc t = Some (t1, c, 0)" "tb_invar (tt_ibuf t1)"
      "tb_contents (tt_ibuf t1) = map (\<lambda>c. (c, 0)) cs @ (d, f) # rest"
    using Cons.prems tty_getc_Cons [of t "(c, 0)"] by auto
  then show ?case
    using Cons.IH [OF t1(2,3) Cons.prems(3) n(2), of "out @ [c]"] n(1)
    by (simp add: TTY_BF_END_def)
qed

lemma feed_newline:
  assumes "tty_ok t" "FC_LFLAG t ICANON" "tt_stop t = 0" "\<not> FC_IFLAG t INLCR"
    "c_cc (tt_tio t) ! VEOF \<noteq> 10" "tb_len (tt_ibuf t) < 4095"
  obtains t' where "tty_feed1 t 10 = Some t'" "tty_ok t'" "tt_tio t' = tt_tio t"
    "tb_contents (tt_ibuf t') = tb_contents (tt_ibuf t) @ [(10, TTY_BF_END)]"
    "FC_LFLAG t ECHO \<Longrightarrow> tt_out t' = tt_out t @ opost_bytes t 10"
proof -
  define u where "u = (if FC_LFLAG t ECHO \<or> FC_LFLAG t ECHONL
    then t\<lparr>tt_out := tt_out t @ opost_bytes t 10\<rparr> else t)"
  let ?t' = "tty_c_deliver (iputc u 10)"
  have u: "tty_ok u" "tb_len (tt_ibuf u) < 4095" "tt_tio u = tt_tio t" "tt_ibuf u = tt_ibuf t"
    using assms(1,6) by (simp_all add: u_def tty_ok_def)
  note room = iputc_room [OF u(1,2), of 10]
  note del = tty_c_deliver_ok [OF room(1)]
  have "feed_eol t = Some ?t'" using assms(3) by (simp add: feed_eol_def u_def opost_running)
  moreover have "feed_iflag t 10 = Some 10" using assms(4) by (simp add: feed_iflag_def Let_def)
  ultimately have "tty_feed1 t 10 = Some ?t'"
    using assms(2,5) by (simp add: tty_feed1_def feed_canon_def cc_is_ascii)
  moreover have "tb_contents (tt_ibuf ?t') = tb_contents (tt_ibuf t) @ [(10, TTY_BF_END)]"
    using tb_mark [of "tt_ibuf (iputc u 10)" TTY_BF_END] room(1,2) u(4) del(3)
    by (simp add: tty_ok_def)
  moreover have "tt_out ?t' = tt_out t @ opost_bytes t 10" if "FC_LFLAG t ECHO"
    using that room(5) by (simp add: tty_c_deliver_def tty_mark_def u_def)
  ultimately show thesis using that [of ?t'] del(1,2) room(3) u(3) by simp
qed

section \<open>Properties\<close>

abbreviation tty_blank_buf :: tty_buf_t where
  "tty_blank_buf \<equiv> \<lparr>tb_buf = replicate 4096 0, tb_flags = replicate 4096 0, tb_head = 4090, tb_tail = 4090\<rparr>"

definition tty_example :: tty_t where
  "tty_example = tty_register
     \<lparr>tt_stop = 1, tt_istop = 0, tt_pgrp = 9, tt_ses_id = 9, tt_ses_holders = 1,
      tt_iwaiter = None, tt_owaiter = None, tt_ibuf = tty_blank_buf, tt_obuf = tty_blank_buf,
      tt_reqlen = 0, tt_timeout = False, tt_timer = None, tt_tio = tty_default_tio,
      tt_pollee = \<lparr>npollers = 0, r_pollee = []\<rparr>, tt_out = [], tt_woken = [], tt_kills = []\<rparr>"

lemma tty_example_simps:
  "tty_ok tty_example" "tt_tio tty_example = tty_default_tio" "tt_stop tty_example = 0"
  "tb_contents (tt_ibuf tty_example) = []" "tb_len (tt_ibuf tty_example) = 0"
  "tb_tail (tt_obuf tty_example) = 0" "tb_contents (tt_obuf tty_example) = []"
  by (simp_all add: tty_example_def tty_register_def tty_buf_init_def tty_ok_def tb_invar_def
      tb_contents_def tb_len_def tty_buf_chrs_def)

lemmas tty_flag_defs = FC_LFLAG_def FC_IFLAG_def FC_OFLAG_def FC_def ISTRIP_def INLCR_def IGNCR_def
  ICRNL_def IXON_def IXOFF_def OPOST_def OLCUC_def ONLCR_def ISIG_def ICANON_def ECHO_def ECHOE_def
  ECHOK_def ECHONL_def NOFLSH_def ECHOKE_def tty_default_tio_def

text \<open>
  C16: Canonical input works as a line editor promises: a line of ordinary characters that is
  typed into an idle terminal, ended by a newline, is returned unchanged by the next read,
  the input buffer is empty afterwards, and the terminal has echoed exactly the line, with
  the output processing that the attributes ask for.
\<close>

theorem tty_line_roundtrip:
  assumes "tty_ok t" "FC_LFLAG t ICANON" "tt_stop t = 0" "\<not> FC_IFLAG t INLCR"
    and "c_cc (tt_tio t) ! VEOF \<noteq> 10" "tb_contents (tt_ibuf t) = []"
    and "list_all (tty_plain t) cs" "length cs < 4095" "length cs < unat len"
  shows "\<exists>t1 t2. tty_feed t (cs @ [10]) = Some t1 \<and>
    tty_read fuel t1 cur ws len = Some (t2, cs @ [10], int (length cs) + 1) \<and>
    tb_contents (tt_ibuf t2) = [] \<and>
    (FC_LFLAG t ECHO \<longrightarrow> tt_out t1 = tt_out t @ concat (map (opost_bytes t) (cs @ [10])))"
proof -
  have len0: "tb_len (tt_ibuf t) = 0" using assms(6) by (simp add: tb_contents_Nil)
  obtain u where u: "tty_feed t cs = Some u" "tty_ok u" "tt_tio u = tt_tio t" "tt_stop u = 0"
      "tb_contents (tt_ibuf u) = map (\<lambda>c. (c, 0)) cs" "tt_out u = tt_out t @ concat (map (echo_bytes t) cs)"
    using feed_plain [OF assms(1-3,7)] len0 assms(6,8) by auto
  have "tb_len (tt_ibuf u) = length cs" using arg_cong [OF u(5), of length] by simp
  then obtain t1 where t1: "tty_feed1 u 10 = Some t1" "tty_ok t1" "tt_tio t1 = tt_tio t"
      "tb_contents (tt_ibuf t1) = map (\<lambda>c. (c, 0)) cs @ [(10, TTY_BF_END)]"
      "FC_LFLAG t ECHO \<Longrightarrow> tt_out t1 = tt_out u @ opost_bytes t 10"
    using feed_newline [of u] u assms FC_tio_cong [OF u(3)] bytes_tio_cong(1) [OF u(3)] by auto
  have feed: "tty_feed t (cs @ [10]) = Some t1"
  proof -
    have "tty_feed v (xs @ ys) = Option.bind (tty_feed v xs) (\<lambda>w. tty_feed w ys)" for v xs ys
      by (induction xs arbitrary: v) (auto split: bind_splits)
    then show ?thesis using u(1) t1(1) by simp
  qed
  have inv: "tb_invar (tt_ibuf t1)" using t1(2) by (simp add: tty_ok_def)
  obtain t2 where t2: "tty_fetch_loop (unat len) cur ws t1 [] = Some (t2, cs @ [10], 0)"
      "tb_contents (tt_ibuf t2) = []"
    using fetch_line [OF inv t1(4) _ assms(9), of cur ws "[]"] by auto
  have "FC_LFLAG t1 ICANON" using assms(2) FC_tio_cong(3) [OF t1(3)] by simp
  then have "\<exists>t3. tty_read fuel t1 cur ws len = Some (t3, cs @ [10], int (length cs) + 1) \<and>
      tb_contents (tt_ibuf t3) = []"
    using t2 by (simp add: tty_read_def tty_fetch_def)
  moreover have "tt_out t1 = tt_out t @ concat (map (opost_bytes t) (cs @ [10]))" if "FC_LFLAG t ECHO"
    using that u(6) t1(5) by (simp add: echo_bytes_def [abs_def])
  ultimately show ?thesis using feed by blast
qed

theorem tty_line_roundtrip_witness:
  "\<exists>t1 t2. tty_feed tty_example (cstr ''ls'' @ [10]) = Some t1 \<and>
    tty_read 0 t1 1 [] 80 = Some (t2, cstr ''ls'' @ [10], 3) \<and> tb_contents (tt_ibuf t2) = []"
  using tty_line_roundtrip [of tty_example "cstr ''ls''" 80 0 1 "[]"] tty_example_simps
  by (simp add: tty_flag_defs tty_plain_def cstr_def nth_append) blast

text \<open>
  Erasing takes back the last ordinary character and nothing else, and it stops at the
  beginning of the line: a line that has been completed is not changed any more.
\<close>

lemma tty_erase_undoes:
  assumes "tty_ok t" "FC_LFLAG t ICANON" "tt_stop t = 0" "tty_plain t x"
    and "tb_len (tt_ibuf t) < 4095" "e = c_cc (tt_tio t) ! VERASE" "e < 128" "e \<noteq> 10" "e \<noteq> 13"
    and "e \<notin> {c_cc (tt_tio t) ! VEOF, c_cc (tt_tio t) ! VEOL, c_cc (tt_tio t) ! VEOL2}"
  shows "(\<exists>t'. tty_feed t [x, e] = Some t' \<and> tb_contents (tt_ibuf t') = tb_contents (tt_ibuf t)) \<and>
    (\<exists>t'. tty_feed t [e] = Some t' \<and> tb_contents (tt_ibuf t') =
      (if tb_contents (tt_ibuf t) = [] \<or> is_end (last (tb_contents (tt_ibuf t)))
       then tb_contents (tt_ibuf t) else butlast (tb_contents (tt_ibuf t))))"
proof -
  have erase: "\<exists>u'. tty_feed1 u e = Some u' \<and> tb_contents (tt_ibuf u') =
      (if tb_contents (tt_ibuf u) = [] \<or> is_end (last (tb_contents (tt_ibuf u)))
       then tb_contents (tt_ibuf u) else butlast (tb_contents (tt_ibuf u)))"
    if u: "tty_ok u" "tt_tio u = tt_tio t" "tt_stop u = 0" for u
  proof -
    note cong = FC_tio_cong [OF u(2)]
    have "\<exists>u'. feed_erase u = Some u'"
      using u(3) by (simp add: feed_erase_def erase_echo_def tputc_def)
    then obtain u' where u': "feed_erase u = Some u'" by blast
    have "feed_canon u e = Some (Some u')"
      using assms(6-10) u' u(2) by (auto simp: feed_canon_def cc_is_ascii)
    moreover have "feed_iflag u e = Some e"
      using assms(7-9) by (simp add: feed_iflag_def Let_def and_0x80_ascii)
    ultimately have "tty_feed1 u e = Some u'"
      using assms(2) cong by (simp add: tty_feed1_def)
    then show ?thesis
      using feed_erase_ok [OF u(1) u'] tb_erase [of "tt_ibuf u"] u(1) by (simp add: tty_ok_def)
  qed
  let ?u = "(iputc t x)\<lparr>tt_out := tt_out t @ echo_bytes t x\<rparr>"
  note room = iputc_room [OF assms(1,5), of x]
  have "tty_feed1 t x = Some ?u" by (rule feed1_plain [OF assms(4,2,3,1,5)])
  moreover have "\<exists>u'. tty_feed1 ?u e = Some u' \<and> tb_contents (tt_ibuf u') = tb_contents (tt_ibuf t)"
    using erase [of ?u] room assms(3) by (simp add: tty_ok_def is_end_def)
  ultimately show ?thesis using erase [OF assms(1) refl assms(3)] by auto
qed



lemma tputc_stopped:
  "tt_stop t \<noteq> 0 \<Longrightarrow> tputc t c = Some t' \<Longrightarrow> tt_out t' = tt_out t \<and> tt_stop t' = tt_stop t \<and>
    tt_tio t' = tt_tio t \<and> tb_tail (tt_obuf t') = tb_tail (tt_obuf t)"
  by (auto simp: tputc_def tty_buf_putc_def Let_def split: if_splits)

lemma opost_stopped:
  assumes "tt_stop t \<noteq> 0" "opost t c = Some t'"
  shows "tt_out t' = tt_out t \<and> tt_stop t' = tt_stop t \<and>
    tt_tio t' = tt_tio t \<and> tb_tail (tt_obuf t') = tb_tail (tt_obuf t)"
proof (cases "FC_OFLAG t OPOST")
  case True
  then obtain u c' where "u = t \<or> tputc t 13 = Some u" "tputc u c' = Some t'"
    using assms(2) by (auto simp: opost_def bind_eq_Some_conv Let_def split: if_splits)
  then show ?thesis using tputc_stopped assms(1) by metis
next
  case False
  then show ?thesis using assms tputc_stopped by (simp add: opost_def)
qed

lemma write_stopped:
  "tt_stop t \<noteq> 0 \<Longrightarrow> tty_write t cs = Some (t', n) \<Longrightarrow> tt_out t' = tt_out t \<and> tt_stop t' = tt_stop t \<and>
    tt_tio t' = tt_tio t \<and> tb_tail (tt_obuf t') = tb_tail (tt_obuf t)"
proof (induction cs arbitrary: t n)
  case (Cons c cs)
  then obtain u m where u: "opost t c = Some u" "tty_write u cs = Some (t', m)"
    by (auto simp: bind_eq_Some_conv)
  show ?case using opost_stopped [OF Cons.prems(1) u(1)] Cons.IH [OF _ u(2)] Cons.prems(1) by simp
qed simp

text \<open>
  C38: Output that is written while the terminal is stopped is lost. Restarting the terminal
  passes the first \<open>tail\<close> bytes of the buffer to the driver, but it is the other index that
  moves when characters are stored, so nothing is written and the buffer is discarded.
\<close>

theorem tty_restart_loses_output:
  assumes "tt_stop t \<noteq> 0" "FC_IFLAG t IXON" "tb_tail (tt_obuf t) = 0" "tty_write t cs = Some (t', n)"
  shows "tt_out (tstop t' 0) = tt_out t \<and> tb_len (tt_obuf (tstop t' 0)) = 0 \<and> tt_stop (tstop t' 0) = 0"
proof -
  have w: "tt_out t' = tt_out t" "tt_tio t' = tt_tio t" "tb_tail (tt_obuf t') = 0"
    using write_stopped [OF assms(1,4)] assms(3) by simp_all
  have "FC_IFLAG t' IXON" using assms(2) FC_tio_cong(1) [OF w(2)] by simp
  then show ?thesis
    using w by (simp add: tstop_def tty_buf_kill_def tb_len_def tty_buf_chrs_def)
qed

theorem tty_restart_loses_output_witness:
  "\<exists>t' n. tty_write (tstop tty_example 1) [chr CHR ''x''] = Some (t', n) \<and>
    tt_out (tstop t' 0) = tt_out (tstop tty_example 1)"
proof -
  let ?t = "tstop tty_example 1"
  have t: "tt_stop ?t \<noteq> 0" "FC_IFLAG ?t IXON" "tb_tail (tt_obuf ?t) = 0" "tb_invar (tt_obuf ?t)"
      "tb_contents (tt_obuf ?t) = []"
    using tty_example_simps by (simp_all add: tstop_def tty_flag_defs tty_ok_def)
  then have "tb_len (tt_obuf ?t) < 4095" by (simp add: tb_contents_Nil)
  from tb_put [OF t(4) this] obtain b where "tty_buf_putc (tt_obuf ?t) (chr CHR ''x'') = Some b" by blast
  then have "\<exists>t' n. tty_write ?t [chr CHR ''x''] = Some (t', n)"
    using t(1) tty_example_simps
    by (simp add: opost_def tputc_def tstop_def tty_flag_defs Let_def)
  then show ?thesis using tty_restart_loses_output [OF t(1-3)] by blast
qed

end
