(* ===== verification/Task_Signal.thy ===== *)
theory Task_Signal
  imports Textos_Prelude
begin

text \<open>
  Signals, \<open>src/kernel/signal.c\<close>: signal sets, sending a signal to a task or a group,
  delivery on the way back to user mode, and the return from a handler. A task record has the
  fields of \<open>struct task\<close> that this file reads or writes. Pointers to sets are never \<open>NULL\<close> here.
\<close>

type_synonym sigset_t = u64

definition NSIG :: int where "NSIG = 64"
definition EPERM :: int where "EPERM = 1"
definition ESRCH :: int where "ESRCH = 3"
definition EINTR :: int where "EINTR = 4"
definition EINVAL :: int where "EINVAL = 22"

abbreviation (input) SIGKILL :: int where "SIGKILL \<equiv> 9"
abbreviation (input) SIGCHLD :: int where "SIGCHLD \<equiv> 17"
abbreviation (input) SIGCONT :: int where "SIGCONT \<equiv> 18"
abbreviation (input) SIGSTOP :: int where "SIGSTOP \<equiv> 19"
abbreviation (input) SIGTSTP :: int where "SIGTSTP \<equiv> 20"
abbreviation (input) SIGTTIN :: int where "SIGTTIN \<equiv> 21"
abbreviation (input) SIGTTOU :: int where "SIGTTOU \<equiv> 22"

section \<open>Signal sets\<close>

definition sigemptyset :: sigset_t where "sigemptyset = 0"

definition sigfillset :: sigset_t where "sigfillset = NOT 0"

definition sigaddset :: "sigset_t \<Rightarrow> int \<Rightarrow> sigset_t \<times> int" where
  "sigaddset s signum =
     (if signum \<le> 0 \<or> signum > NSIG then (s, -1)
      else (s OR push_bit (nat (signum - 1)) 1, 0))"

definition sigdelset :: "sigset_t \<Rightarrow> int \<Rightarrow> sigset_t \<times> int" where
  "sigdelset s signum =
     (if signum \<le> 0 \<or> signum > NSIG then (s, -1)
      else (s AND NOT (push_bit (nat (signum - 1)) 1), 0))"

definition sigismember :: "sigset_t \<Rightarrow> int \<Rightarrow> int" where
  "sigismember s signum =
     (if signum \<le> 0 \<or> signum > NSIG then -1
      else if s AND push_bit (nat (signum - 1)) 1 \<noteq> 0 then 1 else 0)"

section \<open>Tasks\<close>

datatype task_state = TASK_DIE | TASK_PRE | TASK_RUN | TASK_SLP | TASK_BLK | TASK_STP | TASK_INI

record sigaction_t =
  sa_handler :: u64
  sa_flags :: u64
  sa_restorer :: u64
  sa_mask :: sigset_t

record task_t =
  t_pid :: int
  t_ppid :: int
  t_pgid :: int
  t_ruid :: u32
  t_euid :: u32
  t_suid :: u32
  t_stat :: task_state
  t_stat_before_stop :: task_state
  t_bretval :: int
  t_retval :: int
  t_sigcurr :: u32
  t_sigpend :: sigset_t
  t_sigmask :: sigset_t
  t_sigacts :: "sigaction_t list"

record ktasks =
  table :: "task_t option list"
  curr :: nat

abbreviation SIG_DFL :: u64 where "SIG_DFL \<equiv> 0"
abbreviation SIG_IGN :: u64 where "SIG_IGN \<equiv> 1"

definition SA_RESTART :: u64 where "SA_RESTART = 0x10000000"
definition SA_NODEFER :: u64 where "SA_NODEFER = 0x40000000"
definition SA_RESETHAND :: u64 where "SA_RESETHAND = 0x80000000"

definition make_stat_signal :: "int \<Rightarrow> bool \<Rightarrow> int" where
  "make_stat_signal sig core = (sig AND 0x7f) OR (if core then 0x80 else 0)"

definition make_stat_stopped :: "int \<Rightarrow> int" where
  "make_stat_stopped sig = push_bit 8 (sig AND 0xff) OR 0x7f"

definition make_stat_continued :: int where
  "make_stat_continued = 0xffff"

section \<open>Delivery\<close>

record intr_frame_t =
  f_r15 :: u64 f_r14 :: u64 f_r13 :: u64 f_r12 :: u64
  f_r11 :: u64 f_r10 :: u64 f_r9 :: u64 f_r8 :: u64
  f_rdi :: u64 f_rsi :: u64 f_rbp :: u64
  f_rdx :: u64 f_rcx :: u64 f_rbx :: u64 f_rax :: u64
  f_vector :: u64 f_errcode :: u64
  f_rip :: u64 f_cs :: u64 f_rflags :: u64 f_rsp :: u64 f_ss :: u64

record signal_ffl =
  ffl_sysret :: bool
  ffl_syscall :: int

text \<open>The register block of \<open>signal_frame_t\<close> has the layout of \<open>intr_frame_t\<close>.\<close>

record signal_frame_t =
  sf_restorer :: u64
  sf_signum :: u64
  sf_sigprv :: u64
  sf_sigmask :: u64
  sf_sigffl :: signal_ffl
  sf_regs :: intr_frame_t

definition sizeof_signal_frame :: u64 where
  "sizeof_signal_frame = 216"

text \<open>The default actions; \<open>None\<close> is a \<open>NULL\<close> entry of the table.\<close>

datatype sig_default = DTerm | DCore | DIgnore | DStop | DCont

definition sig_def :: "sig_default option list" where
  "sig_def = [None, Some DTerm, Some DTerm, Some DCore, Some DCore, Some DCore, Some DCore, Some DCore,
     Some DCore, None, Some DTerm, Some DCore, Some DTerm, Some DTerm, Some DTerm, Some DTerm,
     None, Some DIgnore, Some DCont, None, Some DStop, Some DStop, Some DStop, Some DIgnore,
     Some DCore, Some DCore, Some DTerm, Some DTerm, Some DIgnore, Some DIgnore, Some DTerm, Some DCore]"

datatype sig_action =
    SigNone
  | SigExit int
  | SigDone
  | SigCall signal_frame_t intr_frame_t

text \<open>Calling an entry of the default table: a missing entry stops the kernel.\<close>

definition sig_default_call :: "nat \<Rightarrow> sig_action option" where
  "sig_default_call i = do {
     assertk (i < length sig_def);
     d \<leftarrow> sig_def ! i;
     Some (if d = DTerm \<or> d = DCore then SigExit (make_stat_signal (int i) False) else SigDone)
   }"

definition sig_frame :: "task_t \<Rightarrow> sigaction_t \<Rightarrow> nat \<Rightarrow> intr_frame_t \<Rightarrow> int \<Rightarrow> u64 \<Rightarrow> signal_frame_t" where
  "sig_frame tsk act i iframe nr sframe_rax =
     \<lparr>sf_restorer = sa_restorer act, sf_signum = of_nat i, sf_sigprv = scast (t_sigcurr tsk),
      sf_sigmask = t_sigmask tsk,
      sf_sigffl =
        (if nr \<ge> 0
         then \<lparr>ffl_sysret = True,
               ffl_syscall = (if sframe_rax = of_int (- EINTR) \<and> sa_flags act AND SA_RESTART \<noteq> 0 then nr else -1)\<rparr>
         else \<lparr>ffl_sysret = False, ffl_syscall = -1\<rparr>),
      sf_regs = iframe\<rparr>"

text \<open>The body of the loop for the first pending signal \<open>i\<close>.\<close>

definition handle_signal_one ::
  "task_t \<Rightarrow> nat \<Rightarrow> intr_frame_t \<Rightarrow> int \<Rightarrow> u64 \<Rightarrow> (task_t \<times> sig_action) option" where
  "handle_signal_one tsk i iframe nr sframe_rax =
     (let tsk = tsk\<lparr>t_sigpend := fst (sigdelset (t_sigpend tsk) (int i))\<rparr>;
          act = t_sigacts tsk ! (i - 1);
          handler = sa_handler act
      in
      if handler = SIG_IGN then Some (tsk, SigDone)
      else if handler = SIG_DFL then do { a \<leftarrow> sig_default_call i; Some (tsk, a) }
      else
        let tsk = (if sa_flags act AND SA_RESETHAND \<noteq> 0
                   then tsk\<lparr>t_sigacts := (t_sigacts tsk)[i - 1 := act\<lparr>sa_handler := SIG_DFL\<rparr>]\<rparr> else tsk);
            blk = (if NOT (sa_flags act) AND SA_NODEFER \<noteq> 0
                   then fst (sigaddset (sa_mask act) (int i)) else sa_mask act);
            frame = sig_frame tsk act i iframe nr sframe_rax;
            iframe' = iframe\<lparr>f_rdi := of_nat i, f_rip := handler,
                             f_rsp := f_rsp iframe - sizeof_signal_frame - 128\<rparr>
        in Some (tsk\<lparr>t_sigcurr := of_nat i, t_sigmask := t_sigmask tsk OR blk\<rparr>, SigCall frame iframe'))"

text \<open>
  \<open>__handle_signal\<close>. \<open>sframe_rax\<close> is the result of the interrupted system call. A \<open>SigCall\<close>
  has the frame that is stored at the new stack pointer and the registers with which the
  handler starts.
\<close>

definition handle_signal ::
  "task_t \<Rightarrow> intr_frame_t \<Rightarrow> int \<Rightarrow> u64 \<Rightarrow> (task_t \<times> sig_action) option" where
  "handle_signal tsk iframe nr sframe_rax =
     (let tsk = tsk\<lparr>t_sigpend := t_sigpend tsk AND NOT (t_sigmask tsk)\<rparr> in
      if t_sigpend tsk = 0 then Some (tsk, SigNone)
      else if sigismember (t_sigpend tsk) SIGKILL \<noteq> 0
      then Some (tsk, SigExit (make_stat_signal SIGKILL False))
      else
        (case find (\<lambda>i. sigismember (t_sigpend tsk) (int i) \<noteq> 0) [1..<Suc (nat NSIG)] of
           None \<Rightarrow> Some (tsk, SigNone)
         | Some i \<Rightarrow> handle_signal_one tsk i iframe nr sframe_rax))"

text \<open>
  \<open>sigreturn\<close>: \<open>mem\<close> is the user's memory, read as signal frames. The result has the registers
  that are restored and whether the return is by \<open>sysret\<close>.
\<close>

definition sigreturn ::
  "task_t \<Rightarrow> (u64 \<Rightarrow> signal_frame_t) \<Rightarrow> u64 \<Rightarrow> (task_t \<times> intr_frame_t \<times> bool) option" where
  "sigreturn tsk mem sframe_rsp = do {
     let frame = mem (sframe_rsp - 8);
     assertk (sf_signum frame = scast (t_sigcurr tsk));
     assertk (f_cs (sf_regs frame) = (push_bit 3 5 OR 3) \<and> f_ss (sf_regs frame) = (push_bit 3 4 OR 3));
     assertk (NOT (f_rflags (sf_regs frame)) AND push_bit 9 1 = 0);
     let regs = sf_regs frame;
     let call = ffl_syscall (sf_sigffl frame);
     Some (tsk\<lparr>t_sigcurr := ucast (sf_sigprv frame), t_sigmask := sf_sigmask frame\<rparr>,
           if call \<ge> 0 then regs\<lparr>f_rip := f_rip regs - 2, f_rax := of_int call\<rparr> else regs,
           ffl_sysret (sf_sigffl frame))
   }"

section \<open>Sending\<close>

definition task_get :: "ktasks \<Rightarrow> int \<Rightarrow> task_t option" where
  "task_get s pid = (if pid < 0 \<or> pid \<ge> 16 then None else table s ! nat pid)"

definition task_put :: "ktasks \<Rightarrow> int \<Rightarrow> task_t \<Rightarrow> ktasks" where
  "task_put s pid t = s\<lparr>table := (table s)[nat pid := Some t]\<rparr>"

text \<open>\<open>task_unblock\<close> without the accounting and the timer of the task.\<close>

definition task_unblock :: "task_t \<Rightarrow> int \<Rightarrow> task_t" where
  "task_unblock t reason = t\<lparr>t_bretval := reason, t_stat := TASK_PRE\<rparr>"

definition kill_denied :: "task_t \<Rightarrow> task_t \<Rightarrow> bool \<Rightarrow> bool" where
  "kill_denied tsk ptsk safe \<longleftrightarrow> \<not> safe \<and> t_euid tsk \<noteq> 0 \<and> t_euid tsk \<noteq> t_ruid ptsk \<and>
     t_euid tsk \<noteq> t_suid ptsk \<and> t_ruid tsk \<noteq> t_ruid ptsk \<and> t_ruid tsk \<noteq> t_suid ptsk"

definition sig_stops :: "int \<Rightarrow> bool" where
  "sig_stops sig \<longleftrightarrow> sig = SIGSTOP \<or> sig = SIGTSTP \<or> sig = SIGTTIN \<or> sig = SIGTTOU"

text \<open>
  What the signal does to the state of the receiving task once it is pending; the second
  component says that the parent is notified.
\<close>

definition kill_effect :: "task_t \<Rightarrow> int \<Rightarrow> task_t \<times> bool" where
  "kill_effect ptsk sig =
     (if sig_stops sig then
        if t_stat ptsk \<in> {TASK_PRE, TASK_RUN, TASK_SLP, TASK_BLK}
        then (ptsk\<lparr>t_stat_before_stop := t_stat ptsk, t_stat := TASK_STP, t_retval := make_stat_stopped sig\<rparr>, True)
        else (ptsk, False)
      else if sig = SIGKILL then
        let p = (if t_stat ptsk = TASK_SLP \<or> t_stat ptsk = TASK_BLK
                 then task_unblock ptsk (make_stat_signal SIGKILL False) else ptsk)
        in (if t_stat p = TASK_STP then p\<lparr>t_stat := TASK_PRE\<rparr> else p, False)
      else if sig = SIGCONT then
        if t_stat ptsk = TASK_STP
        then (ptsk\<lparr>t_stat := t_stat_before_stop ptsk, t_retval := make_stat_continued\<rparr>, True)
        else (ptsk, False)
      else if t_stat ptsk = TASK_BLK \<or> t_stat ptsk = TASK_SLP
      then (task_unblock ptsk (- EINTR), False)
      else (ptsk, False))"

text \<open>The loop over the members of a process group.\<close>

fun kill_group ::
  "(ktasks \<Rightarrow> int \<Rightarrow> (ktasks \<times> int) option) \<Rightarrow> int \<Rightarrow> nat list \<Rightarrow> ktasks \<Rightarrow> bool \<Rightarrow> bool
    \<Rightarrow> (ktasks \<times> bool \<times> bool) option" where
  "kill_group kill pgid [] s found killed = Some (s, found, killed)"
| "kill_group kill pgid (i # is) s found killed =
     (case table s ! i of
        None \<Rightarrow> kill_group kill pgid is s found killed
      | Some t \<Rightarrow>
          if t_pgid t \<noteq> pgid then kill_group kill pgid is s found killed
          else do {
            (s, r) \<leftarrow> kill s (t_pid t);
            kill_group kill pgid is s True (killed \<or> \<not> r < 0)
          })"

text \<open>
  \<open>kill_safe\<close> calls itself for the members of a group and to notify the parent; the first
  argument bounds the depth of these calls.
\<close>

primrec kill_safe :: "nat \<Rightarrow> ktasks \<Rightarrow> int \<Rightarrow> int \<Rightarrow> bool \<Rightarrow> (ktasks \<times> int) option" where
  "kill_safe 0 s pid sig safe = None"
| "kill_safe (Suc d) s pid sig safe =
     (if sig < 0 \<or> sig \<ge> NSIG then Some (s, - EINVAL)
      else if pid \<le> 0 then do {
        tsk \<leftarrow> table s ! curr s;
        let pid = (if pid = 0 then - t_pgid tsk else pid);
        (s, found, killed) \<leftarrow> kill_group (\<lambda>s p. kill_safe d s p sig safe) (- pid) [1..<16] s False False;
        Some (s, if \<not> found then - ESRCH else if \<not> killed then - EPERM else 0)
      }
      else do {
        tsk \<leftarrow> table s ! curr s;
        case task_get s pid of
          None \<Rightarrow> Some (s, - ESRCH)
        | Some ptsk \<Rightarrow>
            if kill_denied tsk ptsk safe then Some (s, - EPERM)
            else if sig = 0 then Some (s, 0)
            else
              let (p, notify) = kill_effect (ptsk\<lparr>t_sigpend := fst (sigaddset (t_sigpend ptsk) sig)\<rparr>) sig;
                  s = task_put s pid p
              in if notify
                 then do { (s, r) \<leftarrow> kill_safe d s (t_ppid p) SIGCHLD True; Some (s, 0) }
                 else Some (s, 0)
      })"

definition fkill :: "nat \<Rightarrow> ktasks \<Rightarrow> int \<Rightarrow> int \<Rightarrow> (ktasks \<times> int) option" where
  "fkill d s pid sig = kill_safe d s pid sig True"

definition sys_kill :: "nat \<Rightarrow> ktasks \<Rightarrow> int \<Rightarrow> int \<Rightarrow> (ktasks \<times> int) option" where
  "sys_kill d s pid sig = kill_safe d s pid sig False"

section \<open>The other system calls\<close>

definition sys_sigaction ::
  "task_t \<Rightarrow> int \<Rightarrow> sigaction_t option \<Rightarrow> task_t \<times> sigaction_t option \<times> int" where
  "sys_sigaction tsk signum act =
     (if signum \<le> 0 \<or> signum \<ge> NSIG then (tsk, None, - EINVAL)
      else if signum = SIGKILL \<or> signum = SIGSTOP then (tsk, None, - EINVAL)
      else
        let i = nat (signum - 1); old = t_sigacts tsk ! i in
        (case act of
           None \<Rightarrow> (tsk, Some old, 0)
         | Some a \<Rightarrow> (tsk\<lparr>t_sigacts := (t_sigacts tsk)[i := a]\<rparr>, Some old, 0)))"

definition sys_sigprocmask :: "task_t \<Rightarrow> int \<Rightarrow> sigset_t option \<Rightarrow> task_t \<times> sigset_t \<times> int" where
  "sys_sigprocmask tsk how s =
     (case s of
        None \<Rightarrow> (tsk, t_sigmask tsk, 0)
      | Some m \<Rightarrow>
          (if how = 0 then tsk\<lparr>t_sigmask := t_sigmask tsk OR m\<rparr>
           else if how = 1 then tsk\<lparr>t_sigmask := t_sigmask tsk AND NOT m\<rparr>
           else if how = 2 then tsk\<lparr>t_sigmask := m\<rparr>
           else tsk, t_sigmask tsk, 0))"

text \<open>\<open>block\<close> is what \<open>task_block\<close> does to the task until it is woken, with its result.\<close>

definition sys_sigsuspend :: "(task_t \<Rightarrow> task_t \<times> int) \<Rightarrow> task_t \<Rightarrow> sigset_t \<Rightarrow> task_t \<times> int" where
  "sys_sigsuspend block tsk sigmask =
     (let oldmask = t_sigmask tsk; (tsk, ret) = block tsk in (tsk\<lparr>t_sigmask := oldmask\<rparr>, ret))"

section \<open>Sets as bits\<close>

lemma sigismember_bit:
  "1 \<le> n \<Longrightarrow> n \<le> 64 \<Longrightarrow> sigismember s n = (if bit s (nat (n - 1)) then 1 else 0)"
  by (simp add: sigismember_def NSIG_def bit_iff_and_push_bit_not_eq_0)

lemma bit_sigaddset:
  "1 \<le> n \<Longrightarrow> n \<le> 64 \<Longrightarrow> bit (fst (sigaddset s n)) k \<longleftrightarrow> bit s k \<or> k = nat (n - 1)"
  by (auto simp: sigaddset_def NSIG_def bit_simps)

lemma bit_sigdelset:
  "1 \<le> n \<Longrightarrow> n \<le> 64 \<Longrightarrow> bit (fst (sigdelset s n)) k \<longleftrightarrow> bit s k \<and> k \<noteq> nat (n - 1)"
  by (auto simp: sigdelset_def NSIG_def bit_simps dest: bit_imp_le_length)

lemma sigset_member_laws:
  assumes "1 \<le> n" "n \<le> 64" "1 \<le> m" "m \<le> 64"
  shows "sigismember (fst (sigaddset s n)) m = (if m = n then 1 else sigismember s m)"
    "sigismember (fst (sigdelset s n)) m = (if m = n then 0 else sigismember s m)"
  using assms by (auto simp: sigismember_bit bit_sigaddset bit_sigdelset)

text \<open>The signals that are pending and not blocked, by number.\<close>

definition deliverable :: "task_t \<Rightarrow> nat \<Rightarrow> bool" where
  "deliverable tsk i \<longleftrightarrow> 1 \<le> i \<and> i \<le> 64 \<and> bit (t_sigpend tsk) (i - 1) \<and> \<not> bit (t_sigmask tsk) (i - 1)"

lemma deliverable_sigismember:
  "1 \<le> i \<Longrightarrow> i \<le> 64 \<Longrightarrow>
    sigismember (t_sigpend tsk AND NOT (t_sigmask tsk)) (int i) \<noteq> 0 \<longleftrightarrow> deliverable tsk i"
proof -
  assume i: "1 \<le> i" "i \<le> 64"
  then have "nat (int i - 1) = i - 1" by linarith
  then show ?thesis
    using i by (auto simp: sigismember_bit deliverable_def bit_simps dest: bit_imp_le_length)
qed

lemma deliverable_ex: "t_sigpend tsk AND NOT (t_sigmask tsk) \<noteq> 0 \<longleftrightarrow> (\<exists>i. deliverable tsk i)"
proof
  assume "t_sigpend tsk AND NOT (t_sigmask tsk) \<noteq> 0"
  then obtain k where "k < 64" "bit (t_sigpend tsk AND NOT (t_sigmask tsk)) k"
    by (auto simp: bit_eq_iff dest: bit_imp_le_length)
  then have "deliverable tsk (Suc k)" by (auto simp: deliverable_def bit_simps)
  then show "\<exists>i. deliverable tsk i" ..
next
  assume "\<exists>i. deliverable tsk i"
  then obtain i where i: "deliverable tsk i" ..
  then have "bit (t_sigpend tsk AND NOT (t_sigmask tsk)) (i - 1)"
    by (auto simp: deliverable_def bit_simps dest: bit_imp_le_length)
  then show "t_sigpend tsk AND NOT (t_sigmask tsk) \<noteq> 0" by auto
qed

text \<open>Which signal is handled: the least deliverable one, unless \<open>SIGKILL\<close> is among them.\<close>

lemma handle_signal_cases:
  obtains (none) "\<forall>i. \<not> deliverable tsk i" "handle_signal tsk iframe nr rax =
      Some (tsk\<lparr>t_sigpend := t_sigpend tsk AND NOT (t_sigmask tsk)\<rparr>, SigNone)"
  | (kill) "deliverable tsk 9" "handle_signal tsk iframe nr rax =
      Some (tsk\<lparr>t_sigpend := t_sigpend tsk AND NOT (t_sigmask tsk)\<rparr>, SigExit (make_stat_signal 9 False))"
  | (sig) i where "\<not> deliverable tsk 9" "deliverable tsk i" "\<forall>j<i. \<not> deliverable tsk j"
      "handle_signal tsk iframe nr rax =
        handle_signal_one (tsk\<lparr>t_sigpend := t_sigpend tsk AND NOT (t_sigmask tsk)\<rparr>) i iframe nr rax"
proof (cases "\<exists>i. deliverable tsk i")
  case False
  then have "t_sigpend tsk AND NOT (t_sigmask tsk) = 0" using deliverable_ex [of tsk] by simp
  then show thesis using False none by (simp add: handle_signal_def)
next
  case True
  then have ne: "t_sigpend tsk AND NOT (t_sigmask tsk) \<noteq> 0" using deliverable_ex by blast
  have k: "sigismember (t_sigpend tsk AND NOT (t_sigmask tsk)) 9 \<noteq> 0 \<longleftrightarrow> deliverable tsk 9"
    using deliverable_sigismember [of 9 tsk] by simp
  show thesis
  proof (cases "deliverable tsk 9")
    case True
    then show thesis using kill ne k by (simp add: handle_signal_def)
  next
    case False
    define P where "P = (\<lambda>i. sigismember (t_sigpend tsk AND NOT (t_sigmask tsk)) (int i) \<noteq> 0)"
    have P: "P i \<longleftrightarrow> deliverable tsk i" if "1 \<le> i" "i < Suc (nat NSIG)" for i
      using that deliverable_sigismember [of i tsk] by (simp add: P_def NSIG_def)
    obtain l where l: "deliverable tsk l" using True by blast
    then have "1 \<le> l" "l < Suc (nat NSIG)" by (simp_all add: deliverable_def NSIG_def)
    then obtain i where f: "find P [1..<Suc (nat NSIG)] = Some i"
        and i: "1 \<le> i" "i < Suc (nat NSIG)" "P i" "\<forall>j. 1 \<le> j \<and> j < i \<longrightarrow> \<not> P j"
      using find_upt_least [of 1 l "Suc (nat NSIG)" P] P l by metis
    have "handle_signal tsk iframe nr rax =
        handle_signal_one (tsk\<lparr>t_sigpend := t_sigpend tsk AND NOT (t_sigmask tsk)\<rparr>) i iframe nr rax"
      using ne k False f by (simp add: handle_signal_def P_def)
    moreover have "\<not> deliverable tsk j" if "j < i" for j
      using that i P [of j] by (cases "1 \<le> j") (auto simp: deliverable_def [of _ 0] not_le)
    ultimately show thesis using sig [of i] False i P by blast
  qed
qed

section \<open>Entering a handler\<close>

text \<open>What is true when a handler is started for signal \<open>i\<close>.\<close>

lemma handle_signal_call:
  assumes "handle_signal tsk iframe nr rax = Some (tsk', SigCall frame iframe')"
  obtains i where "deliverable tsk i" "\<forall>j<i. \<not> deliverable tsk j"
    "frame = sig_frame tsk (t_sigacts tsk ! (i - 1)) i iframe nr rax"
    "iframe' = iframe\<lparr>f_rdi := of_nat i, f_rip := sa_handler (t_sigacts tsk ! (i - 1)),
      f_rsp := f_rsp iframe - sizeof_signal_frame - 128\<rparr>"
    "t_sigcurr tsk' = of_nat i"
    "t_sigpend tsk' = fst (sigdelset (t_sigpend tsk AND NOT (t_sigmask tsk)) (int i))"
    "t_sigmask tsk' = t_sigmask tsk OR
      (if NOT (sa_flags (t_sigacts tsk ! (i - 1))) AND SA_NODEFER \<noteq> 0
       then fst (sigaddset (sa_mask (t_sigacts tsk ! (i - 1))) (int i)) else sa_mask (t_sigacts tsk ! (i - 1)))"
proof (cases rule: handle_signal_cases [of tsk iframe nr rax])
  case (sig i)
  let ?act = "t_sigacts tsk ! (i - 1)"
  have "sa_handler ?act \<noteq> SIG_DFL" "sa_handler ?act \<noteq> SIG_IGN"
    using assms sig(4)
    by (auto simp: handle_signal_one_def sig_default_call_def Let_def bind_eq_Some_conv split: if_splits)
  then have call: "tsk' = (if sa_flags ?act AND SA_RESETHAND \<noteq> 0
        then tsk\<lparr>t_sigpend := fst (sigdelset (t_sigpend tsk AND NOT (t_sigmask tsk)) (int i)),
                 t_sigacts := (t_sigacts tsk)[i - 1 := ?act\<lparr>sa_handler := SIG_DFL\<rparr>]\<rparr>
        else tsk\<lparr>t_sigpend := fst (sigdelset (t_sigpend tsk AND NOT (t_sigmask tsk)) (int i))\<rparr>)
        \<lparr>t_sigcurr := of_nat i, t_sigmask := t_sigmask tsk OR
          (if NOT (sa_flags ?act) AND SA_NODEFER \<noteq> 0 then fst (sigaddset (sa_mask ?act) (int i)) else sa_mask ?act)\<rparr>"
      "frame = sig_frame tsk ?act i iframe nr rax"
      "iframe' = iframe\<lparr>f_rdi := of_nat i, f_rip := sa_handler ?act,
        f_rsp := f_rsp iframe - sizeof_signal_frame - 128\<rparr>"
    using assms sig(4) by (auto simp: handle_signal_one_def Let_def sig_frame_def)
  show thesis by (rule that [OF sig(2,3) call(2,3)]) (simp_all add: call(1))
qed (use assms in auto)

lemma ucast_scast_u32: "ucast (scast (x :: u32) :: u64) = x"
  by (rule bit_word_eqI) (simp add: bit_simps)

lemma scast_small: "n < 2 ^ 31 \<Longrightarrow> (scast (of_nat n :: u32) :: u64) = of_nat n"
proof -
  assume n: "n < 2 ^ 31"
  have "signed_take_bit 31 (int n) = int n"
    using n by (intro signed_take_bit_int_eq_self) simp_all
  then have "sint (of_nat n :: u32) = int n" by (simp add: signed_of_nat)
  then show ?thesis by (metis of_int_of_nat_eq of_int_sint)
qed

lemma rflags_if: "bit (w :: u64) 9 \<Longrightarrow> NOT w AND push_bit 9 1 = 0"
  using bit_iff_and_push_bit_not_eq_0 [of "NOT w" 9] by (auto simp: bit_not_iff_eq simp del: push_bit_of_1)

section \<open>Process tables\<close>

text \<open>A task is stored under its number, and there is a current task.\<close>

definition tasks_ok :: "ktasks \<Rightarrow> bool" where
  "tasks_ok s \<longleftrightarrow> length (table s) = 16 \<and> curr s < 16 \<and> table s ! curr s \<noteq> None \<and>
     (\<forall>i<16. \<forall>t. table s ! i = Some t \<longrightarrow> t_pid t = int i)"

lemma kill_effect_pid: "t_pid (fst (kill_effect p sig)) = t_pid p"
  by (simp add: kill_effect_def task_unblock_def Let_def)

lemma tasks_ok_put:
  assumes "tasks_ok s" "t_pid t = pid" "0 < pid" "pid < 16"
  shows "tasks_ok (task_put s pid t)"
  using assms by (auto simp: tasks_ok_def task_put_def nth_list_update)

lemma task_get_ok:
  "tasks_ok s \<Longrightarrow> task_get s pid = Some t \<Longrightarrow> t_pid t = pid \<and> 0 \<le> pid \<and> pid < 16"
proof -
  assume s: "tasks_ok s" and t: "task_get s pid = Some t"
  then have pid: "0 \<le> pid" "pid < 16" "table s ! nat pid = Some t"
    by (auto simp: task_get_def split: if_splits)
  moreover have "nat pid < 16" using pid by linarith
  ultimately have "t_pid t = int (nat pid)" using s unfolding tasks_ok_def by blast
  then show ?thesis using pid by simp
qed

lemma kill_group_ok:
  assumes step: "\<And>s p. tasks_ok s \<Longrightarrow> 0 < p \<Longrightarrow> \<exists>s' r. kill s p = Some (s', r) \<and> tasks_ok s'"
  shows "tasks_ok s \<Longrightarrow> \<forall>i\<in>set is. 0 < i \<and> i < 16 \<Longrightarrow>
    \<exists>s' f k. kill_group kill pgid is s found killed = Some (s', f, k) \<and> tasks_ok s'"
proof (induction "is" arbitrary: s found killed)
  case (Cons i "is")
  show ?case
  proof (cases "table s ! i")
    case None
    then show ?thesis using Cons by simp
  next
    case (Some t)
    show ?thesis
    proof (cases "t_pgid t = pgid")
      case True
      have "t_pid t = int i" using Some Cons.prems by (simp add: tasks_ok_def)
      then have "0 < t_pid t" using Cons.prems(2) by simp
      then obtain s1 r where s1: "kill s (t_pid t) = Some (s1, r)" "tasks_ok s1"
        using step Cons.prems(1) by blast
      then show ?thesis using Some True Cons.IH [OF s1(2)] Cons.prems(2) by simp
    qed (use Some Cons in simp)
  qed
qed simp

lemma chld_no_notify: "\<not> snd (kill_effect p SIGCHLD)"
  by (simp add: kill_effect_def sig_stops_def)

text \<open>One task, given that the notification of a parent comes back.\<close>

lemma kill_one_ok:
  assumes s: "tasks_ok s" and pid: "0 < pid"
    and notify: "\<And>s p. tasks_ok s \<Longrightarrow> sig \<noteq> SIGCHLD \<Longrightarrow> \<exists>s' r. kill_safe d s p SIGCHLD True = Some (s', r) \<and> tasks_ok s'"
  shows "\<exists>s' r. kill_safe (Suc d) s pid sig safe = Some (s', r) \<and> tasks_ok s'"
proof -
  obtain tsk where tsk: "table s ! curr s = Some tsk" using s by (auto simp: tasks_ok_def)
  show ?thesis
  proof (cases "task_get s pid")
    case None
    then show ?thesis using s pid tsk by simp
  next
    case (Some ptsk)
    let ?p = "kill_effect (ptsk\<lparr>t_sigpend := fst (sigaddset (t_sigpend ptsk) sig)\<rparr>) sig"
    have put: "tasks_ok (task_put s pid (fst ?p))"
      using tasks_ok_put [OF s _ pid] task_get_ok [OF s Some] by (simp add: kill_effect_pid)
    show ?thesis
    proof (cases "snd ?p")
      case True
      then have "sig \<noteq> SIGCHLD" using chld_no_notify by auto
      then obtain s' r where "kill_safe d (task_put s pid (fst ?p)) (t_ppid (fst ?p)) SIGCHLD True = Some (s', r)"
          "tasks_ok s'"
        using notify [OF put] by blast
      then show ?thesis using s pid tsk Some True by (simp add: case_prod_beta)
    next
      case False
      then show ?thesis using s pid tsk Some put by (simp add: case_prod_beta)
    qed
  qed
qed

lemma kill_group_call_ok:
  assumes s: "tasks_ok s" and pid: "pid \<le> 0"
    and step: "\<And>s p. tasks_ok s \<Longrightarrow> 0 < p \<Longrightarrow> \<exists>s' r. kill_safe d s p sig safe = Some (s', r) \<and> tasks_ok s'"
  shows "\<exists>s' r. kill_safe (Suc d) s pid sig safe = Some (s', r) \<and> tasks_ok s'"
proof -
  obtain tsk where tsk: "table s ! curr s = Some tsk" using s by (auto simp: tasks_ok_def)
  define "is" where "is = [Suc 0..<16]"
  have "\<forall>i\<in>set is. 0 < i \<and> i < 16" by (simp add: is_def)
  then obtain s' f k where "kill_group (\<lambda>s p. kill_safe d s p sig safe)
      (- (if pid = 0 then - t_pgid tsk else pid)) is s False False = Some (s', f, k)" "tasks_ok s'"
    using kill_group_ok [of "\<lambda>s p. kill_safe d s p sig safe", OF step s] by blast
  then show ?thesis
    using s pid tsk by (cases "pid = 0") (simp_all add: is_def [symmetric] Let_def del: upt_rec_numeral upt_Suc)
qed

lemma kill_chld_ok: "tasks_ok s \<Longrightarrow> \<exists>s' r. kill_safe (Suc (Suc d)) s p SIGCHLD True = Some (s', r) \<and> tasks_ok s'"
proof (cases "0 < p")
  case True
  assume "tasks_ok s"
  then show ?thesis using True by (rule kill_one_ok) simp
next
  case False
  assume s: "tasks_ok s"
  show ?thesis
  proof (rule kill_group_call_ok [OF s])
    show "\<exists>s' r. kill_safe (Suc d) s p SIGCHLD True = Some (s', r) \<and> tasks_ok s'"
      if "tasks_ok s" "0 < p" for s p
      using that by (rule kill_one_ok) simp
  qed (use False in simp)
qed

section \<open>Properties\<close>

abbreviation sig_handler_act :: sigaction_t where
  "sig_handler_act \<equiv> \<lparr>sa_handler = 0x400000, sa_flags = 0x10000000, sa_restorer = 0x401000, sa_mask = 1\<rparr>"

definition sig_default_act :: sigaction_t where
  "sig_default_act = \<lparr>sa_handler = SIG_DFL, sa_flags = 0, sa_restorer = 0, sa_mask = 0\<rparr>"

definition sig_example :: task_t where
  "sig_example = \<lparr>t_pid = 1, t_ppid = 1, t_pgid = 1, t_ruid = 5, t_euid = 5, t_suid = 5, t_stat = TASK_RUN,
     t_stat_before_stop = TASK_RUN, t_bretval = 0, t_retval = 0, t_sigcurr = 0, t_sigpend = 2, t_sigmask = 0,
     t_sigacts = replicate 64 sig_handler_act\<rparr>"

definition frame_example :: intr_frame_t where
  "frame_example = \<lparr>f_r15 = 0, f_r14 = 0, f_r13 = 0, f_r12 = 0, f_r11 = 0, f_r10 = 0, f_r9 = 0, f_r8 = 0,
     f_rdi = 7, f_rsi = 0, f_rbp = 0, f_rdx = 0, f_rcx = 0, f_rbx = 0, f_rax = 4, f_vector = 0, f_errcode = 0,
     f_rip = 0x400100, f_cs = 43, f_rflags = 0x202, f_rsp = 0x7fff0000, f_ss = 35\<rparr>"

lemma bit_u64_exp: "n < 64 \<Longrightarrow> w = 2 ^ n \<Longrightarrow> bit (w :: u64) k \<longleftrightarrow> k = n"
  by (auto simp: bit_exp_iff)

lemma sig_example_deliverable: "deliverable sig_example i \<longleftrightarrow> i = 2"
proof -
  have b: "bit (2 :: u64) k \<longleftrightarrow> k = 1" for k by (rule bit_u64_exp) simp_all
  have t: "t_sigpend sig_example = 2" "t_sigmask sig_example = 0" by (simp_all add: sig_example_def)
  show ?thesis unfolding deliverable_def t b by auto
qed

text \<open>
  C17: Delivery of a signal to a user handler and the return from it cancel out. If the handler
  leaves the frame on its stack alone, \<open>sigreturn\<close> restores the signal mask and the previously
  handled signal of the interrupted task and all its registers; only a system call that was
  interrupted and is to be restarted is rewound to its instruction with its number in \<open>rax\<close>.
\<close>

theorem signal_handler_roundtrip:
  assumes "handle_signal tsk iframe nr rax = Some (tsk', SigCall frame iframe')"
    and "mem (f_rsp iframe') = frame" "t_sigcurr tsk2 = t_sigcurr tsk'"
    and "f_cs iframe = 43" "f_ss iframe = 35" "bit (f_rflags iframe) 9"
  shows "\<exists>tsk3 regs. sigreturn tsk2 mem (f_rsp iframe' + 8) = Some (tsk3, regs, 0 \<le> nr) \<and>
    t_sigmask tsk3 = t_sigmask tsk \<and> t_sigcurr tsk3 = t_sigcurr tsk \<and>
    (regs = iframe \<or> 0 \<le> nr \<and> rax = of_int (- EINTR) \<and>
      regs = iframe\<lparr>f_rip := f_rip iframe - 2, f_rax := of_int nr\<rparr>)"
  using assms(1)
proof (rule handle_signal_call)
  fix i
  assume i: "deliverable tsk i" "frame = sig_frame tsk (t_sigacts tsk ! (i - 1)) i iframe nr rax"
    "t_sigcurr tsk' = of_nat i"
  have "i \<le> 64" using i(1) unfolding deliverable_def by blast
  then have sig: "sf_signum frame = scast (t_sigcurr tsk2)"
    using assms(3) i(2,3) scast_small [of i] by (simp add: sig_frame_def)
  have regs: "f_cs (sf_regs frame) = (push_bit 3 5 OR 3)" "f_ss (sf_regs frame) = (push_bit 3 4 OR 3)"
      "NOT (f_rflags (sf_regs frame)) AND push_bit 9 1 = 0"
    using assms(4,5) rflags_if [OF assms(6)] by (simp_all add: i(2) sig_frame_def)
  let ?call = "ffl_syscall (sf_sigffl frame)"
  let ?t = "tsk2\<lparr>t_sigcurr := ucast (sf_sigprv frame), t_sigmask := sf_sigmask frame\<rparr>"
  let ?r = "if ?call \<ge> 0 then (sf_regs frame)\<lparr>f_rip := f_rip (sf_regs frame) - 2, f_rax := of_int ?call\<rparr>
      else sf_regs frame"
  have m: "mem (f_rsp iframe' + 8 - 8) = frame" using assms(2) by simp
  have ret: "sigreturn tsk2 mem (f_rsp iframe' + 8) = Some (?t, ?r, ffl_sysret (sf_sigffl frame))"
    unfolding sigreturn_def Let_def m by (simp only: sig regs assertk_True simp_thms bind.bind_lunit)
  have f: "ffl_sysret (sf_sigffl frame) = (0 \<le> nr)" "sf_regs frame = iframe"
      "sf_sigmask frame = t_sigmask tsk" "ucast (sf_sigprv frame) = t_sigcurr tsk"
      "0 \<le> ?call \<Longrightarrow> ?call = nr \<and> 0 \<le> nr \<and> rax = of_int (- EINTR)"
    by (simp_all add: i(2) sig_frame_def ucast_scast_u32 split: if_splits)
  show ?thesis
  proof (intro exI conjI)
    show "sigreturn tsk2 mem (f_rsp iframe' + 8) = Some (?t, ?r, 0 \<le> nr)" using ret by (simp only: f(1))
    show "t_sigmask ?t = t_sigmask tsk" "t_sigcurr ?t = t_sigcurr tsk" by (simp_all add: f(3,4))
    show "?r = iframe \<or> 0 \<le> nr \<and> rax = of_int (- EINTR) \<and>
        ?r = iframe\<lparr>f_rip := f_rip iframe - 2, f_rax := of_int nr\<rparr>"
      using f(5) by (cases "0 \<le> ?call") (simp_all only: f(2) if_True if_False simp_thms)
  qed
qed

theorem signal_handler_roundtrip_witness:
  "\<exists>tsk' frame iframe' tsk3 regs.
    handle_signal sig_example frame_example (-1) 0 = Some (tsk', SigCall frame iframe') \<and>
    sigreturn tsk' (\<lambda>_. frame) (f_rsp iframe' + 8) = Some (tsk3, regs, False) \<and>
    t_sigmask tsk3 = t_sigmask sig_example \<and> regs = frame_example"
proof -
  have "\<exists>tsk' frame iframe'. handle_signal sig_example frame_example (-1) 0 = Some (tsk', SigCall frame iframe')"
  proof (cases rule: handle_signal_cases [of sig_example frame_example "-1" 0])
    case (sig i)
    then have "i = 2" by (simp add: sig_example_deliverable)
    then show ?thesis using sig(4) by (simp add: handle_signal_one_def Let_def sig_example_def)
  qed (simp_all add: sig_example_deliverable)
  then obtain tsk' frame iframe' where
    h: "handle_signal sig_example frame_example (-1) 0 = Some (tsk', SigCall frame iframe')"
    by blast
  show ?thesis
    using h signal_handler_roundtrip [OF h, of "\<lambda>_. frame" tsk']
    by (simp add: frame_example_def bit_numeral_rec(1) bit_simps) blast
qed

text \<open>
  C18: The signal that reaches a handler is the least one that is pending and not blocked. It is
  passed in \<open>rdi\<close> to the registered handler and is no longer pending; while the handler runs,
  the old mask, the mask of the action and, without \<open>SA_NODEFER\<close>, the signal itself are
  blocked. Every other unblocked signal stays pending, but the blocked ones are discarded.
\<close>

theorem signal_delivery:
  assumes "handle_signal tsk iframe nr rax = Some (tsk', SigCall frame iframe')"
  shows "\<exists>i. deliverable tsk i \<and> (\<forall>j<i. \<not> deliverable tsk j) \<and> f_rdi iframe' = of_nat i \<and>
    f_rip iframe' = sa_handler (t_sigacts tsk ! (i - 1)) \<and>
    (\<forall>j. bit (t_sigpend tsk') j \<longleftrightarrow> bit (t_sigpend tsk) j \<and> \<not> bit (t_sigmask tsk) j \<and> j \<noteq> i - 1) \<and>
    (\<forall>j. bit (t_sigmask tsk') j \<longleftrightarrow> bit (t_sigmask tsk) j \<or> bit (sa_mask (t_sigacts tsk ! (i - 1))) j \<or>
      (j = i - 1 \<and> NOT (sa_flags (t_sigacts tsk ! (i - 1))) AND SA_NODEFER \<noteq> 0))"
  using assms
proof (rule handle_signal_call)
  fix i
  let ?a = "t_sigacts tsk ! (i - 1)"
  assume i: "deliverable tsk i" "\<forall>j<i. \<not> deliverable tsk j"
    "iframe' = iframe\<lparr>f_rdi := of_nat i, f_rip := sa_handler ?a,
      f_rsp := f_rsp iframe - sizeof_signal_frame - 128\<rparr>"
    "t_sigpend tsk' = fst (sigdelset (t_sigpend tsk AND NOT (t_sigmask tsk)) (int i))"
    "t_sigmask tsk' = t_sigmask tsk OR
      (if NOT (sa_flags ?a) AND SA_NODEFER \<noteq> 0 then fst (sigaddset (sa_mask ?a) (int i)) else sa_mask ?a)"
  have range: "1 \<le> int i" "int i \<le> 64" and idx: "nat (int i - 1) = i - 1"
    using i(1) by (auto simp: deliverable_def)
  have pend: "\<forall>j. bit (t_sigpend tsk') j \<longleftrightarrow> bit (t_sigpend tsk) j \<and> \<not> bit (t_sigmask tsk) j \<and> j \<noteq> i - 1"
    by (auto simp: i(4) bit_sigdelset [OF range] idx bit_simps dest: bit_imp_le_length)
  have msk: "\<forall>j. bit (t_sigmask tsk') j \<longleftrightarrow> bit (t_sigmask tsk) j \<or> bit (sa_mask ?a) j \<or>
      (j = i - 1 \<and> NOT (sa_flags ?a) AND SA_NODEFER \<noteq> 0)"
    by (auto simp: i(5) bit_sigaddset [OF range] idx bit_or_iff)
  show ?thesis using i(1-3) pend msk by (intro exI [of _ i]) simp
qed

theorem signal_delivery_witness:
  "\<exists>tsk' frame iframe'. handle_signal sig_example frame_example 3 0 = Some (tsk', SigCall frame iframe') \<and>
    f_rdi iframe' = 2"
proof -
  have "\<exists>tsk' frame iframe'. handle_signal sig_example frame_example 3 0 = Some (tsk', SigCall frame iframe')"
  proof (cases rule: handle_signal_cases [of sig_example frame_example 3 0])
    case (sig i)
    then have "i = 2" by (simp add: sig_example_deliverable)
    then show ?thesis using sig(4) by (simp add: handle_signal_one_def Let_def sig_example_def)
  qed (simp_all add: sig_example_deliverable)
  then obtain tsk' frame iframe' where
    h: "handle_signal sig_example frame_example 3 0 = Some (tsk', SigCall frame iframe')"
    by blast
  show ?thesis using h signal_delivery [OF h] by (auto simp: sig_example_deliverable)
qed

text \<open>
  A signal with the default action and no entry in the table of default actions stops the
  kernel when it is delivered: \<open>SIGSTKFLT\<close> and \<open>SIGSTOP\<close> have a null entry, and the signals
  from 32 on lie behind the end of the table.
\<close>

lemma signal_default_crash:
  assumes "deliverable tsk i" "\<forall>j<i. \<not> deliverable tsk j" "\<not> deliverable tsk 9"
    and "sa_handler (t_sigacts tsk ! (i - 1)) = SIG_DFL" "i = 16 \<or> i = 19 \<or> 32 \<le> i"
  shows "handle_signal tsk iframe nr rax = None"
proof (cases rule: handle_signal_cases [of tsk iframe nr rax])
  case (sig j)
  then have "j = i" using assms(1,2) by (metis linorder_neqE_nat)
  moreover have "sig_default_call i = None"
    using assms(5) by (auto simp: sig_default_call_def sig_def_def)
  ultimately show ?thesis using sig(4) assms(4) by (simp add: handle_signal_one_def Let_def)
qed (use assms in auto)

text \<open>
  C19: Sending a signal always comes to an end: on a well-formed process table the calls for the
  members of a group and for the notification of the parents are nested at most four deep,
  and the table stays well-formed.
\<close>

theorem kill_safe_terminates:
  assumes "tasks_ok s" "4 \<le> d"
  shows "\<exists>s' r. kill_safe d s pid sig safe = Some (s', r) \<and> tasks_ok s'"
proof -
  obtain e where "d = 4 + e" using le_Suc_ex [OF assms(2)] by blast
  then have d: "d = Suc (Suc (Suc (Suc e)))" by simp
  have one: "\<exists>s' r. kill_safe (Suc (Suc (Suc n))) s p sig safe = Some (s', r) \<and> tasks_ok s'"
    if "tasks_ok s" "0 < p" for s p n
    using that by (rule kill_one_ok) (rule kill_chld_ok)
  show ?thesis
  proof (cases "0 < pid")
    case True
    then show ?thesis using one [OF assms(1)] by (simp only: d)
  next
    case False
    then show ?thesis unfolding d using one by (intro kill_group_call_ok [OF assms(1)]) auto
  qed
qed

theorem kill_safe_terminates_witness:
  "\<exists>s' r. kill_safe 4 \<lparr>table = None # Some sig_example # replicate 14 None, curr = 1\<rparr> 0 19 False = Some (s', r) \<and>
    tasks_ok s'"
proof (rule kill_safe_terminates)
  show "tasks_ok \<lparr>table = None # Some sig_example # replicate 14 None, curr = 1\<rparr>"
    by (auto simp: tasks_ok_def sig_example_def nth_Cons split: nat.splits)
qed simp

text \<open>
  What sending a signal to one task does. Without permission nothing changes and the result
  is \<open>-EPERM\<close>. Otherwise an ordinary signal becomes pending for this task and for no other, and
  a task that is blocked or asleep is made ready with \<open>-EINTR\<close> as the result of its wait.
\<close>

lemma kill_one_task:
  assumes "tasks_ok s" "table s ! curr s = Some tsk" "0 < pid" "task_get s pid = Some ptsk"
    and "0 < sig" "sig < NSIG" "\<not> sig_stops sig" "sig \<noteq> SIGKILL" "sig \<noteq> SIGCONT"
  shows "\<exists>s' r. kill_safe (Suc d) s pid sig safe = Some (s', r) \<and>
    (\<forall>q. q \<noteq> pid \<longrightarrow> task_get s' q = task_get s q) \<and>
    (if kill_denied tsk ptsk safe then s' = s \<and> r = - EPERM
     else r = 0 \<and> (\<exists>p'. task_get s' pid = Some p' \<and> sigismember (t_sigpend p') sig = 1 \<and>
       (\<forall>m. 1 \<le> m \<and> m \<le> 64 \<and> m \<noteq> sig \<longrightarrow> sigismember (t_sigpend p') m = sigismember (t_sigpend ptsk) m) \<and>
       (if t_stat ptsk = TASK_BLK \<or> t_stat ptsk = TASK_SLP
        then t_stat p' = TASK_PRE \<and> t_bretval p' = - EINTR else t_stat p' = t_stat ptsk)))"
proof (cases "kill_denied tsk ptsk safe")
  case True
  then show ?thesis using assms by simp
next
  case False
  let ?q = "ptsk\<lparr>t_sigpend := fst (sigaddset (t_sigpend ptsk) sig)\<rparr>"
  let ?p = "if t_stat ptsk = TASK_BLK \<or> t_stat ptsk = TASK_SLP then task_unblock ?q (- EINTR) else ?q"
  have eff: "kill_effect ?q sig = (?p, False)" using assms(7-9) by (simp add: kill_effect_def)
  have pid: "pid < 16" "nat pid < length (table s)"
    using task_get_ok [OF assms(1,4)] assms(1,3) by (auto simp: tasks_ok_def)
  have "kill_safe (Suc d) s pid sig safe = Some (task_put s pid ?p, 0)"
    using assms(2-6) False eff by simp
  moreover have "task_get (task_put s pid ?p) q = task_get s q" if "q \<noteq> pid" for q
    using that assms(3) by (auto simp: task_get_def task_put_def nat_eq_iff)
  moreover have "task_get (task_put s pid ?p) pid = Some ?p"
    using assms(3) pid by (simp add: task_get_def task_put_def)
  moreover have "sigismember (t_sigpend ?p) m = (if m = sig then 1 else sigismember (t_sigpend ptsk) m)"
    if "1 \<le> m" "m \<le> 64" for m
  proof -
    have "t_sigpend ?p = fst (sigaddset (t_sigpend ptsk) sig)" by (simp add: task_unblock_def)
    then show ?thesis
      using that assms(5,6) sigset_member_laws(1) [of sig m "t_sigpend ptsk"] by (simp only: NSIG_def)
  qed
  ultimately show ?thesis
    using False assms(5,6) by (auto simp: NSIG_def task_unblock_def split: if_splits)
qed

end
