(* ===== verification/Tty_Vga.thy ===== *)
theory Tty_Vga
  imports Textos_Prelude
begin

text \<open>
  The state of the console (\<open>struct con\<close> of \<open>src/include/textos/dev/tty/console.h\<close>), the table
  of driver operations \<open>struct conop\<close>, and the text mode driver
  \<open>src/kernel/dev/tty/vgacon.c\<close>. The record also has the state behind the driver: the memory
  at \<open>base\<close>, the cursor registers of the VGA controller, and the two static variables of
  \<open>curstat\<close>. A store outside of the mapped memory is \<open>None\<close>. In \<open>struct con\<close> the field \<open>row\<close> is
  the number of characters in a line and \<open>col\<close> the number of lines.
\<close>

datatype con_state = STATE_NOR | STATE_ESC | STATE_CSI | STATE_PMF | STATE_ARG | STATE_CMD

record con =
  cn_scroll :: bool
  cn_cursor :: bool
  cn_hidden :: bool
  cn_underl :: bool
  cn_strike :: bool
  cur_x :: u16
  cur_y :: u16
  cn_fg :: u32
  cn_bg :: u32
  vpm_top :: u16
  vpm_bot :: u16
  cn_argc :: int
  cn_argv :: "u32 list"
  cn_state :: con_state
  cn_pmcmd :: bool
  cn_acs :: bool
  cn_hor :: u32
  cn_ver :: u32
  cn_row :: u16
  cn_col :: u16
  cn_fgdef :: u32
  cn_bgdef :: u32
  cn_vram :: "u16 list"
  cn_hwstart :: u8
  cn_hwpos :: u16
  cn_save_x :: u16
  cn_save_y :: u16

record conop =
  op_sgr0 :: "u32 list \<Rightarrow> u32 \<Rightarrow> u32 \<Rightarrow> (int \<times> u32 \<times> u32) option"
  op_xyputc :: "u8 \<Rightarrow> u32 \<Rightarrow> u32 \<Rightarrow> con \<Rightarrow> con option"
  op_curtoggle :: "con \<Rightarrow> con option"
  op_pullup :: "con \<Rightarrow> con option"
  op_pulldn :: "con \<Rightarrow> con option"
  op_clrch :: "int \<Rightarrow> int \<Rightarrow> con \<Rightarrow> con option"
  op_clrrg :: "int \<Rightarrow> int \<Rightarrow> con \<Rightarrow> con option"
  op_clrln :: "int \<Rightarrow> con \<Rightarrow> con option"
  op_scrclr :: "con \<Rightarrow> con option"

definition CON_ARG_MAX :: nat where "CON_ARG_MAX = 16"

text \<open>The static variable of the console before \<open>console_init\<close>, with video memory \<open>v\<close>.\<close>

definition con_static :: "u16 list \<Rightarrow> con" where
  "con_static v =
     \<lparr>cn_scroll = False, cn_cursor = False, cn_hidden = False, cn_underl = False, cn_strike = False,
      cur_x = 0, cur_y = 0, cn_fg = 0, cn_bg = 0, vpm_top = 0, vpm_bot = 0, cn_argc = 0,
      cn_argv = replicate CON_ARG_MAX 0, cn_state = STATE_NOR, cn_pmcmd = False, cn_acs = False,
      cn_hor = 0, cn_ver = 0, cn_row = 0, cn_col = 0, cn_fgdef = 0, cn_bgdef = 0,
      cn_vram = v, cn_hwstart = 0, cn_hwpos = 0, cn_save_x = 0, cn_save_y = 0\<rparr>"

abbreviation con_small :: con where
  "con_small \<equiv> con_static [1, 2, 3, 4, 5, 6]\<lparr>cn_row := 2, cn_col := 3\<rparr>"

section \<open>Cells\<close>

definition vga_put :: "int \<Rightarrow> u16 \<Rightarrow> con \<Rightarrow> con option" where
  "vga_put i v c = do {
     assertk (0 \<le> i \<and> i < int (length (cn_vram c)));
     Some (c\<lparr>cn_vram := (cn_vram c)[nat i := v]\<rparr>)
   }"

definition vga_copy :: "int \<Rightarrow> int \<Rightarrow> con \<Rightarrow> con option" where
  "vga_copy dst src c = do {
     assertk (0 \<le> src \<and> src < int (length (cn_vram c)));
     vga_put dst (cn_vram c ! nat src) c
   }"

definition vga_empty :: "con \<Rightarrow> u16" where
  "vga_empty c = ucast (32 OR push_bit 8 (cn_fg c) OR push_bit 12 (cn_bg c))"

definition vga_movcur :: "int \<Rightarrow> int \<Rightarrow> con \<Rightarrow> con" where
  "vga_movcur x y c = c\<lparr>cn_hwpos := of_int (y * uint (cn_row c) + x)\<rparr>"

section \<open>Colours\<close>

definition vga_color :: "u32 list list" where
  "vga_color = [[0, 4, 2, 6, 1, 5, 3, 7], [8, 12, 10, 14, 9, 13, 11, 15]]"

text \<open>
  An element of the argument vector; reading behind its end is \<open>None\<close>. The colour operations take
  the vector from the current argument on and return the number of arguments they used, the
  background and the foreground.
\<close>

definition arg_at :: "u32 list \<Rightarrow> nat \<Rightarrow> u32 option" where
  "arg_at argv k = (if k < length argv then Some (argv ! k) else None)"

definition vga_truecolor :: "u8 \<Rightarrow> u8 \<Rightarrow> u8 \<Rightarrow> u8" where
  "vga_truecolor r g b =
     (let weight = (uint r * 299 + uint g * 587 + uint b * 114) div 1000 in
      (if r > 128 then 4 else 0) OR (if g > 128 then 2 else 0) OR (if b > 128 then 1 else 0)
      OR (if weight > 128 then 8 else 0))"

definition vga_sgr8 :: "u32 list \<Rightarrow> u32 \<Rightarrow> u32 \<Rightarrow> (int \<times> u32 \<times> u32) option" where
  "vga_sgr8 argv fg bg = do {
     a0 \<leftarrow> arg_at argv 0;
     if a0 \<noteq> 38 \<and> a0 \<noteq> 48 then Some (1, bg, fg)
     else do {
       a1 \<leftarrow> arg_at argv 1;
       if a1 = 2 then do {
         r \<leftarrow> arg_at argv 2;
         g \<leftarrow> arg_at argv 3;
         b \<leftarrow> arg_at argv 4;
         let color = ucast (vga_truecolor (ucast r) (ucast g) (ucast b));
         Some (if a0 = 38 then (5, bg, color) else (5, color, fg))
       }
       else if a1 = 5 then Some (if a0 = 38 then (3, bg, 0) else (3, 0, fg))
       else Some (2, bg, fg)
     }
   }"

definition vga_sgr0 :: "u32 list \<Rightarrow> u32 \<Rightarrow> u32 \<Rightarrow> (int \<times> u32 \<times> u32) option" where
  "vga_sgr0 argv bg fg = do {
     a0 \<leftarrow> arg_at argv 0;
     let v = sint a0;
     if 30 \<le> v \<and> v \<le> 37 then Some (1, bg, vga_color ! 0 ! nat (v mod 10))
     else if 90 \<le> v \<and> v \<le> 97 then Some (1, bg, vga_color ! 1 ! nat (v mod 10))
     else if 40 \<le> v \<and> v \<le> 47 then Some (1, vga_color ! 0 ! nat (v mod 10), fg)
     else if 100 \<le> v \<and> v \<le> 107 then Some (1, vga_color ! 1 ! nat (v mod 10), fg)
     else vga_sgr8 argv fg bg
   }"

section \<open>Drawing\<close>

definition cp437_acs :: "(u8 \<times> u8) list" where
  "cp437_acs =
     [(48, 0xdb), (104, 0xb0), (118, 0xc1), (126, 0xf9), (97, 0xb1), (46, 0x19), (102, 0xf8), (96, 0x04),
      (62, 0xf2), (113, 0xc4), (105, 0x0f), (44, 0x1b), (121, 0xf3), (109, 0xc0), (106, 0xd9), (116, 0xc3),
      (124, 0x1c), (123, 0xe3), (103, 0xf1), (110, 0x2b), (43, 0x1a), (117, 0xb4), (111, 0xc4), (112, 0xc4),
      (114, 45), (115, 95), (125, 0x9c), (119, 0xc2), (45, 0x18), (108, 0xda), (107, 0xbf), (120, 0xb3)]"

definition cp437_acsget :: "u8 \<Rightarrow> u8" where
  "cp437_acsget c = (case map_of cp437_acs c of Some d \<Rightarrow> d | None \<Rightarrow> 32)"

definition vga_xyputc :: "u8 \<Rightarrow> u32 \<Rightarrow> u32 \<Rightarrow> con \<Rightarrow> con option" where
  "vga_xyputc ch x y c =
     (let ch = (if cn_acs c then cp437_acsget ch else ch);
          cell = ucast (ucast ch OR push_bit 8 (cn_fg c) OR push_bit 12 (cn_bg c))
      in vga_put (uint (y * ucast (cn_row c) + x)) cell c)"

definition vga_curtoggle :: "con \<Rightarrow> con option" where
  "vga_curtoggle c =
     Some (vga_movcur (uint (cur_x c)) (uint (cur_y c)) (c\<lparr>cn_hwstart := cn_hwstart c XOR 0x20\<rparr>))"

text \<open>The number of cells that scrolling moves; it can be negative.\<close>

definition vga_span :: "con \<Rightarrow> int" where
  "vga_span c = uint (cn_row c) * (uint (cn_col c) - uint (vpm_bot c) - uint (vpm_top c) - 1)"

definition vga_pullup :: "con \<Rightarrow> con option" where
  "vga_pullup c =
     (let dst = uint (vpm_top c) * uint (cn_row c);
          src = dst + uint (cn_row c);
          n = nat (vga_span c)
      in do {
        c \<leftarrow> foldM (\<lambda>i. vga_copy (dst + int i) (src + int i)) [0..<n] c;
        foldM (\<lambda>i c. vga_put (dst + int n + int i) (vga_empty c) c) [0..<unat (cn_row c)] c
      })"

definition vga_pulldn :: "con \<Rightarrow> con option" where
  "vga_pulldn c =
     (let dst = uint (cn_row c) * (uint (cn_col c) - uint (vpm_bot c)) - 1;
          src = uint (cn_row c) * (uint (cn_col c) - uint (vpm_bot c) - 1) - 1;
          n = nat (vga_span c)
      in do {
        c \<leftarrow> foldM (\<lambda>i. vga_copy (dst - int i) (src - int i)) [0..<n] c;
        foldM (\<lambda>i c. vga_put (dst - int n - int i) (vga_empty c) c) [0..<unat (cn_row c)] c
      })"

definition vga_clrch :: "int \<Rightarrow> int \<Rightarrow> con \<Rightarrow> con option" where
  "vga_clrch xc yc c =
     (if xc \<ge> uint (cn_row c) \<or> yc \<ge> uint (cn_col c) then Some c
      else vga_put (yc * uint (cn_row c) + xc) (vga_empty c) c)"

definition vga_clrrg :: "int \<Rightarrow> int \<Rightarrow> con \<Rightarrow> con option" where
  "vga_clrrg start end c =
     foldM (\<lambda>j c. vga_put (uint (cur_y c) * uint (cn_row c) + j) (vga_empty c) c)
       [start..min (uint (cn_row c)) end - 1] c"

definition vga_clrln :: "int \<Rightarrow> con \<Rightarrow> con option" where
  "vga_clrln line c =
     (if line \<ge> uint (cn_col c) then Some c
      else foldM (\<lambda>j c. vga_put (line * uint (cn_row c) + int j) (vga_empty c) c) [0..<unat (cn_row c)] c)"

definition vga_scrclr :: "con \<Rightarrow> con option" where
  "vga_scrclr c =
     foldM (\<lambda>i c. foldM (\<lambda>j c. vga_put (int i * uint (cn_row c) + int j) (vga_empty c) c)
        [0..<unat (cn_row c)] c) [0..<unat (cn_col c)] c"

definition conop_vga :: conop where
  "conop_vga = \<lparr>op_sgr0 = vga_sgr0, op_xyputc = vga_xyputc, op_curtoggle = vga_curtoggle,
     op_pullup = vga_pullup, op_pulldn = vga_pulldn, op_clrch = vga_clrch, op_clrrg = vga_clrrg,
     op_clrln = vga_clrln, op_scrclr = vga_scrclr\<rparr>"

text \<open>
  \<open>__init_impl\<close>: one page of video memory, 2048 cells, is mapped. Switching off the blink
  attribute touches only registers of the controller and is left out.
\<close>

definition vga_init :: "con \<Rightarrow> con option" where
  "vga_init c = do {
     let c = c\<lparr>cn_hor := 0, cn_ver := 0, cn_row := 80, cn_col := 25, cn_fg := 7, cn_fgdef := 7,
               cn_bg := 0, cn_bgdef := 0\<rparr>;
     c \<leftarrow> vga_curtoggle (vga_movcur 0 0 c);
     vga_scrclr c
   }"

section \<open>What the driver changes\<close>

text \<open>
  The drawing operations change the cells and the registers of the controller and nothing
  else of the console, as the comment in \<open>struct conop\<close> asks for.
\<close>

definition con_same :: "con \<Rightarrow> con \<Rightarrow> bool" where
  "con_same c c' \<longleftrightarrow>
     c'\<lparr>cn_vram := [], cn_hwstart := 0, cn_hwpos := 0\<rparr> = c\<lparr>cn_vram := [], cn_hwstart := 0, cn_hwpos := 0\<rparr>
     \<and> length (cn_vram c') = length (cn_vram c)"

definition vga_dev :: "con \<Rightarrow> bool" where
  "vga_dev c \<longleftrightarrow> 0 < cn_row c \<and> 0 < cn_col c \<and> unat (cn_row c) * unat (cn_col c) \<le> length (cn_vram c)"

lemma con_same_refl [simp, intro]: "con_same c c"
  by (simp add: con_same_def)

lemma con_sameI [intro]: "length v = length (cn_vram c) \<Longrightarrow> con_same c (c\<lparr>cn_vram := v\<rparr>)"
  by (simp add: con_same_def)

lemma con_same_trans: "con_same c c1 \<Longrightarrow> con_same c1 c2 \<Longrightarrow> con_same c c2"
  unfolding con_same_def by (simp only: conj_assoc)

lemma con_same_fields:
  assumes "con_same c c'"
  shows "cn_row c' = cn_row c" "cn_col c' = cn_col c" "cur_x c' = cur_x c" "cur_y c' = cur_y c"
    "cn_state c' = cn_state c" "vpm_top c' = vpm_top c" "vpm_bot c' = vpm_bot c"
    "length (cn_vram c') = length (cn_vram c)" "vga_dev c' = vga_dev c" "vga_empty c' = vga_empty c"
proof -
  have eq: "f (c'\<lparr>cn_vram := [], cn_hwstart := 0, cn_hwpos := 0\<rparr>) = f (c\<lparr>cn_vram := [], cn_hwstart := 0, cn_hwpos := 0\<rparr>)"
    for f :: "con \<Rightarrow> 'b"
    using assms by (simp only: con_same_def)
  show row: "cn_row c' = cn_row c" using eq [of cn_row] by simp
  show col: "cn_col c' = cn_col c" using eq [of cn_col] by simp
  show "cur_x c' = cur_x c" using eq [of cur_x] by simp
  show "cur_y c' = cur_y c" using eq [of cur_y] by simp
  show "cn_state c' = cn_state c" using eq [of cn_state] by simp
  show "vpm_top c' = vpm_top c" using eq [of vpm_top] by simp
  show "vpm_bot c' = vpm_bot c" using eq [of vpm_bot] by simp
  show len: "length (cn_vram c') = length (cn_vram c)" using assms by (simp only: con_same_def)
  show "vga_dev c' = vga_dev c" by (simp only: vga_dev_def row col len)
  show "vga_empty c' = vga_empty c"
    using eq [of cn_fg] eq [of cn_bg] by (simp add: vga_empty_def)
qed

lemma vga_put_ok:
  "0 \<le> i \<Longrightarrow> i < int (length (cn_vram c)) \<Longrightarrow> \<exists>c'. vga_put i v c = Some c' \<and> con_same c c'"
  by (auto simp: vga_put_def assertk_def)

lemma vga_copy_ok:
  "0 \<le> i \<Longrightarrow> i < int (length (cn_vram c)) \<Longrightarrow> 0 \<le> j \<Longrightarrow> j < int (length (cn_vram c)) \<Longrightarrow>
   \<exists>c'. vga_copy i j c = Some c' \<and> con_same c c'"
  using vga_put_ok by (auto simp: vga_copy_def assertk_def)

lemma foldM_same:
  assumes "\<And>x c'. x \<in> set xs \<Longrightarrow> con_same c c' \<Longrightarrow> \<exists>c''. f x c' = Some c'' \<and> con_same c' c''"
  shows "\<exists>c'. foldM f xs c = Some c' \<and> con_same c c'"
proof (rule foldM_invar [where P = "con_same c"])
  fix x s
  assume "x \<in> set xs" "con_same c s"
  then show "\<exists>s'. f x s = Some s' \<and> con_same c s'"
    using assms con_same_trans by blast
qed simp

section \<open>The copy loops as list operations\<close>

lemma vga_empty_vram [simp]: "vga_empty (c\<lparr>cn_vram := v\<rparr>) = vga_empty c"
  by (simp add: vga_empty_def)

lemma window_snoc:
  assumes "d + n < length v" and "length w = n"
  shows "(take d v @ w @ drop (d + n) v)[d + n := x] = take d v @ (w @ [x]) @ drop (d + Suc n) v"
proof -
  have "drop (d + n) v = v ! (d + n) # drop (d + Suc n) v"
    using assms by (simp add: Cons_nth_drop_Suc)
  then show ?thesis
    using assms by (simp add: list_update_append min_def)
qed

lemma vga_fill_loop:
  assumes "d + n \<le> length (cn_vram c)"
  shows "foldM (\<lambda>i c. vga_put (int d + int i) (vga_empty c) c) [0..<n] c =
    Some (c\<lparr>cn_vram := take d (cn_vram c) @ replicate n (vga_empty c) @ drop (d + n) (cn_vram c)\<rparr>)"
  using assms
proof (induction n)
  case 0
  then show ?case by simp
next
  case (Suc n)
  have "vga_put (int d + int n) e (c\<lparr>cn_vram := take d v @ replicate n e @ drop (d + n) v\<rparr>) =
      Some (c\<lparr>cn_vram := take d v @ replicate (Suc n) e @ drop (d + Suc n) v\<rparr>)"
    if "length v = length (cn_vram c)" for v e
    using window_snoc [of d n v "replicate n e" e] Suc.prems that
    by (simp add: vga_put_def nat_add_distrib replicate_append_same)
  then show ?case
    using Suc by (simp add: foldM_append)
qed

lemma vga_copy_loop:
  assumes "d \<le> s" "s + n \<le> length (cn_vram c)"
  shows "foldM (\<lambda>i. vga_copy (int d + int i) (int s + int i)) [0..<n] c =
    Some (c\<lparr>cn_vram := take d (cn_vram c) @ take n (drop s (cn_vram c)) @ drop (d + n) (cn_vram c)\<rparr>)"
  using assms
proof (induction n)
  case 0
  then show ?case by simp
next
  case (Suc n)
  let ?v = "cn_vram c"
  let ?w = "take d ?v @ take n (drop s ?v) @ drop (d + n) ?v"
  have len: "length ?w = length ?v" using Suc.prems by simp
  have src: "?w ! (s + n) = ?v ! (s + n)"
    using Suc.prems by (auto simp: nth_append add.commute)
  have "take n (drop s ?v) @ [?v ! (s + n)] = take (Suc n) (drop s ?v)"
    using Suc.prems by (simp add: take_Suc_conv_app_nth)
  then have "?w[d + n := ?v ! (s + n)] = take d ?v @ take (Suc n) (drop s ?v) @ drop (d + Suc n) ?v"
    using window_snoc [of d n ?v "take n (drop s ?v)" "?v ! (s + n)"] Suc.prems by simp
  then have "vga_copy (int d + int n) (int s + int n) (c\<lparr>cn_vram := ?w\<rparr>) =
      Some (c\<lparr>cn_vram := take d ?v @ take (Suc n) (drop s ?v) @ drop (d + Suc n) ?v\<rparr>)"
    using Suc.prems src len by (simp add: vga_copy_def vga_put_def nat_add_distrib)
  then show ?case
    using Suc by (simp add: foldM_append)
qed

text \<open>Scrolling, as a function on the lines of the scrolling region.\<close>

definition scroll_up :: "nat \<Rightarrow> nat \<Rightarrow> nat \<Rightarrow> 'a \<Rightarrow> 'a list \<Rightarrow> 'a list" where
  "scroll_up w t b e v = take (w * t) v @ take (w * (b - t - 1)) (drop (w * t + w) v)
     @ replicate w e @ drop (w * b) v"

lemma vga_pullup_eq:
  assumes dev: "vga_dev c" and m: "unat (vpm_top c) + unat (vpm_bot c) < unat (cn_col c)"
  shows "vga_pullup c = Some (c\<lparr>cn_vram := scroll_up (unat (cn_row c)) (unat (vpm_top c))
           (unat (cn_col c) - unat (vpm_bot c)) (vga_empty c) (cn_vram c)\<rparr>)"
proof -
  let ?w = "unat (cn_row c)" and ?t = "unat (vpm_top c)" and ?b = "unat (cn_col c) - unat (vpm_bot c)"
    and ?v = "cn_vram c" and ?e = "vga_empty c"
  define k where "k = ?b - ?t - 1"
  have b: "?b = ?t + 1 + k" using m by (simp add: k_def)
  have le: "?w * ?b \<le> length ?v"
    using dev by (meson diff_le_self le_trans mult_le_mono2 vga_dev_def)
  have row: "uint (cn_row c) = int ?w" by simp
  have "uint (cn_col c) = int (unat (cn_col c))" "uint (vpm_bot c) = int (unat (vpm_bot c))"
    "uint (vpm_top c) = int ?t" by simp_all
  then have "uint (cn_col c) - uint (vpm_bot c) - uint (vpm_top c) - 1 = int k"
    using m unfolding k_def by linarith
  then have span: "nat (vga_span c) = ?w * k"
    by (simp only: vga_span_def row nat_int flip: of_nat_mult)
  have dst: "uint (vpm_top c) * uint (cn_row c) = int (?w * ?t)"
    by (simp add: mult.commute)
  have fits: "?w * ?t + ?w + ?w * k \<le> length ?v" using le by (simp add: b algebra_simps)
  let ?v1 = "take (?w * ?t) ?v @ take (?w * k) (drop (?w * ?t + ?w) ?v) @ drop (?w * ?t + ?w * k) ?v"
  have len1: "length ?v1 = length ?v" using fits by simp
  have copy: "foldM (\<lambda>i. vga_copy (int (?w * ?t) + int i) (int (?w * ?t + ?w) + int i)) [0..<?w * k] c
      = Some (c\<lparr>cn_vram := ?v1\<rparr>)"
    using vga_copy_loop [of "?w * ?t" "?w * ?t + ?w" "?w * k" c] fits by simp
  have fill: "foldM (\<lambda>i c. vga_put (int (?w * ?t + ?w * k) + int i) (vga_empty c) c) [0..<?w] (c\<lparr>cn_vram := ?v1\<rparr>)
      = Some (c\<lparr>cn_vram := take (?w * ?t + ?w * k) ?v1 @ replicate ?w ?e @ drop (?w * ?t + ?w * k + ?w) ?v1\<rparr>)"
    using vga_fill_loop [of "?w * ?t + ?w * k" ?w "c\<lparr>cn_vram := ?v1\<rparr>"] fits len1 by simp
  have take1: "take (?w * ?t + ?w * k) ?v1 = take (?w * ?t) ?v @ take (?w * k) (drop (?w * ?t + ?w) ?v)"
    using fits by simp
  have drop1: "drop (?w * ?t + ?w * k + ?w) ?v1 = drop (?w * ?b) ?v"
    using fits by (simp add: b algebra_simps)
  have row1: "cn_row (c\<lparr>cn_vram := v\<rparr>) = cn_row c" for v by simp
  show ?thesis
    using copy fill unfolding vga_pullup_def Let_def dst span
    by (simp only: scroll_up_def take1 drop1 of_nat_add row bind.bind_lunit con.simps append_assoc row1 flip: k_def)
qed

text \<open>The cells of a line.\<close>

definition con_line :: "con \<Rightarrow> nat \<Rightarrow> u16 list" where
  "con_line c k = take (unat (cn_row c)) (drop (k * unat (cn_row c)) (cn_vram c))"

lemma length_scroll_up:
  assumes "t < b" "w * b \<le> length v"
  shows "length (scroll_up w t b e v) = length v"
proof -
  obtain m where b: "b = t + 1 + m" using less_imp_Suc_add [OF assms(1)] by auto
  show ?thesis using assms(2) by (simp add: scroll_up_def b algebra_simps)
qed

lemma vga_dev_lines: "vga_dev c \<Longrightarrow> unat (cn_row c) * (unat (cn_col c) - k) \<le> length (cn_vram c)"
  by (meson diff_le_self le_trans mult_le_mono2 vga_dev_def)

lemma win_left: "p + w \<le> length a \<Longrightarrow> take w (drop p (a @ b)) = take w (drop p a)"
  by simp

lemma win_right: "take w (drop (length a + p) (a @ b)) = take w (drop p b)"
  by simp

lemma win_take: "p + w \<le> n \<Longrightarrow> take w (drop p (take n a)) = take w (drop p a)"
  by (simp add: drop_take min_def)

lemma scroll_up_line:
  assumes "t < b" "w * b \<le> length v"
  shows "take w (drop (k * w) (scroll_up w t b e v)) =
    (if k < t \<or> b \<le> k then take w (drop (k * w) v)
     else if k = b - 1 then replicate w e
     else take w (drop (Suc k * w) v))"
proof -
  obtain m where b: "b = t + 1 + m" using less_imp_Suc_add [OF assms(1)] by auto
  let ?x = "take (w * t) v" and ?y = "take (w * m) (drop (w * t + w) v)" and ?z = "drop (w * b) v"
  have fits: "w * t + w + w * m \<le> length v" using assms(2) by (simp add: b algebra_simps)
  then have len: "length ?x = w * t" "length ?y = w * m" by simp_all
  have s: "scroll_up w t b e v = ?x @ ?y @ replicate w e @ ?z"
    by (simp add: scroll_up_def b)
  consider "k < t" | "t \<le> k" "k - t < m" | "k = t + m" | "b \<le> k"
    unfolding b by linarith
  then show ?thesis
  proof cases
    case 1
    then have "Suc k * w \<le> t * w" by (intro mult_le_mono1) simp
    then have "k * w + w \<le> w * t" by (simp add: mult.commute)
    then show ?thesis using 1 len win_left [of "k * w" w ?x] win_take [of "k * w" w "w * t" v] by (simp add: s)
  next
    case 2
    define j where "j = k - t"
    with 2 have j: "k = t + j" "j < m" by simp_all
    then have "Suc j * w \<le> m * w" by (intro mult_le_mono1) simp
    then have le: "j * w + w \<le> w * m" by (simp add: mult.commute)
    have kw: "k * w = length ?x + j * w" using len by (simp add: j algebra_simps)
    have "take w (drop (k * w) (scroll_up w t b e v)) = take w (drop (j * w) (?y @ replicate w e @ ?z))"
      by (simp only: s kw win_right)
    also have "\<dots> = take w (drop (j * w) ?y)"
      by (rule win_left) (simp only: len le)
    also have "\<dots> = take w (drop (j * w) (drop (w * t + w) v))"
      by (rule win_take) (rule le)
    finally have "take w (drop (k * w) (scroll_up w t b e v)) = take w (drop (j * w) (drop (w * t + w) v))" .
    then show ?thesis using j b by (simp add: algebra_simps)
  next
    case 3
    then have "k * w = length (?x @ ?y) + 0" using len by (simp add: algebra_simps)
    then have "take w (drop (k * w) (scroll_up w t b e v)) = replicate w e"
      unfolding s append_assoc [symmetric, of ?x] by (simp only: win_right) simp
    then show ?thesis using 3 b by simp
  next
    case 4
    then obtain j where j: "k = b + j" using le_Suc_ex by blast
    then have "k * w = length (?x @ ?y @ replicate w e) + j * w" using len by (simp add: b algebra_simps)
    then have "take w (drop (k * w) (scroll_up w t b e v)) = take w (drop (j * w) ?z)"
      using win_right [of w "?x @ ?y @ replicate w e" "j * w" ?z] unfolding s by simp
    then show ?thesis using j by (simp add: algebra_simps)
  qed
qed

text \<open>
  C36: scrolling up moves every line of the scrolling region, but its first, one line up, makes the
  last line of the region blank and leaves the lines outside of it and the memory behind the
  screen as they are, when the margins leave at least one line.
\<close>

theorem vga_pullup_lines:
  assumes "vga_dev c" "unat (vpm_top c) + unat (vpm_bot c) < unat (cn_col c)"
  shows "\<exists>c'. vga_pullup c = Some c' \<and> con_same c c'
    \<and> (let bot = unat (cn_col c) - unat (vpm_bot c) in
       con_line c' k = (if k < unat (vpm_top c) \<or> bot \<le> k then con_line c k
                        else if k = bot - 1 then replicate (unat (cn_row c)) (vga_empty c)
                        else con_line c (Suc k)))"
proof -
  let ?w = "unat (cn_row c)" and ?t = "unat (vpm_top c)" and ?b = "unat (cn_col c) - unat (vpm_bot c)"
  let ?c = "c\<lparr>cn_vram := scroll_up ?w ?t ?b (vga_empty c) (cn_vram c)\<rparr>"
  have region: "?t < ?b" "?w * ?b \<le> length (cn_vram c)"
    using assms by (simp_all add: vga_dev_lines)
  have "vga_pullup c = Some ?c" by (rule vga_pullup_eq) (fact assms)+
  moreover have "con_same c ?c" using region by (intro con_sameI length_scroll_up)
  ultimately show ?thesis
    using scroll_up_line [OF region, of k "vga_empty c"] by (simp add: con_line_def Let_def)
qed

theorem vga_pullup_lines_witness:
  "\<exists>c'. vga_pullup con_small = Some c' \<and> con_line c' 1 = [5, 6]"
  using vga_pullup_lines [of con_small 1]
  by (auto simp: con_static_def vga_dev_def con_line_def Let_def)

section \<open>Every operation stays inside the video memory\<close>

lemma cell_lt: "x < w \<Longrightarrow> y < h \<Longrightarrow> y * w + x < w * (h :: nat)"
proof -
  assume "x < w" "y < h"
  then have "y * w + x < Suc y * w" by simp
  also have "\<dots> \<le> h * w" using \<open>y < h\<close> by (intro mult_le_mono1) simp
  finally show ?thesis by (simp add: mult.commute)
qed

lemma vga_cell:
  assumes "vga_dev c" "x < unat (cn_row c)" "y < unat (cn_col c)"
  shows "int y * uint (cn_row c) + int x < int (length (cn_vram c))"
proof -
  have "y * unat (cn_row c) + x < length (cn_vram c)"
    using cell_lt [OF assms(2,3)] assms(1) by (simp add: vga_dev_def)
  then have "int (y * unat (cn_row c) + x) < int (length (cn_vram c))" by (simp only: of_nat_less_iff)
  then show ?thesis by simp
qed

lemma vga_put_cell:
  assumes "vga_dev c" "x < unat (cn_row c)" "y < unat (cn_col c)"
  shows "\<exists>c'. vga_put (int y * uint (cn_row c) + int x) v c = Some c' \<and> con_same c c'"
  by (rule vga_put_ok) (use vga_cell [OF assms] in simp_all)

lemma vga_offset:
  assumes "x < cn_row c" "y < cn_col c"
  shows "uint (ucast y * ucast (cn_row c) + ucast x :: u32) = int (unat y) * uint (cn_row c) + int (unat x)"
proof -
  have "unat y * unat (cn_row c) + unat x < unat (cn_row c) * unat (cn_col c)"
    using assms by (intro cell_lt) (simp_all add: word_less_nat_alt)
  also have "\<dots> \<le> 65535 * 65535"
    using unat_lt2p [of "cn_row c"] unat_lt2p [of "cn_col c"] by (intro mult_le_mono) simp_all
  finally have "unat y * unat (cn_row c) + unat x < 2 ^ 32" by simp
  then have "unat (of_nat (unat y * unat (cn_row c) + unat x) :: u32) = unat y * unat (cn_row c) + unat x"
    by (intro unat_of_nat_lt) simp
  moreover have "(ucast y * ucast (cn_row c) + ucast x :: u32) = of_nat (unat y * unat (cn_row c) + unat x)"
    by simp
  ultimately have "unat (ucast y * ucast (cn_row c) + ucast x :: u32) = unat y * unat (cn_row c) + unat x"
    by (simp only:)
  then show ?thesis by (simp only: uint_nat of_nat_add of_nat_mult)
qed

lemma vga_xyputc_ok:
  assumes "vga_dev c" "x < cn_row c" "y < cn_col c"
  shows "\<exists>c'. vga_xyputc ch (ucast x) (ucast y) c = Some c' \<and> con_same c c'"
  unfolding vga_xyputc_def Let_def vga_offset [OF assms(2,3)]
  by (rule vga_put_cell) (use assms in \<open>simp_all add: word_less_nat_alt\<close>)

lemma vga_curtoggle_ok: "\<exists>c'. vga_curtoggle c = Some c' \<and> con_same c c'"
  by (simp add: vga_curtoggle_def vga_movcur_def con_same_def)

lemma vga_clrch_ok:
  assumes "vga_dev c"
  shows "\<exists>c'. vga_clrch (int x) (int y) c = Some c' \<and> con_same c c'"
proof (cases "x < unat (cn_row c) \<and> y < unat (cn_col c)")
  case True
  then have "int x < uint (cn_row c)" "int y < uint (cn_col c)"
    by (simp_all only: uint_nat of_nat_less_iff)
  then show ?thesis
    using vga_put_cell [OF assms] True by (simp add: vga_clrch_def)
next
  case False
  then have "uint (cn_row c) \<le> int x \<or> uint (cn_col c) \<le> int y"
    by (simp only: uint_nat of_nat_le_iff) linarith
  then show ?thesis by (auto simp: vga_clrch_def)
qed

lemma vga_line_ok:
  assumes "vga_dev c" "y < unat (cn_col c)"
  shows "\<exists>c'. foldM (\<lambda>j c. vga_put (int y * uint (cn_row c) + int j) (vga_empty c) c) [0..<unat (cn_row c)] c
    = Some c' \<and> con_same c c'"
proof (rule foldM_same)
  fix x c'
  assume x: "x \<in> set [0..<unat (cn_row c)]" and same: "con_same c c'"
  have "\<exists>c''. vga_put (int y * uint (cn_row c') + int x) (vga_empty c') c' = Some c'' \<and> con_same c' c''"
    by (rule vga_put_cell) (use x assms in \<open>simp_all add: con_same_fields [OF same]\<close>)
  then show "\<exists>c''. vga_put (int y * uint (cn_row c') + int x) (vga_empty c') c' = Some c'' \<and> con_same c' c''" .
qed

lemma vga_clrln_ok:
  assumes "vga_dev c"
  shows "\<exists>c'. vga_clrln (int y) c = Some c' \<and> con_same c c'"
proof (cases "y < unat (cn_col c)")
  case True
  then have "int y < uint (cn_col c)" by (simp only: uint_nat of_nat_less_iff)
  then show ?thesis using vga_line_ok [OF assms True] by (simp add: vga_clrln_def)
next
  case False
  then have "uint (cn_col c) \<le> int y" by (simp only: uint_nat of_nat_le_iff)
  then show ?thesis by (simp add: vga_clrln_def)
qed

lemma vga_scrclr_ok:
  assumes "vga_dev c"
  shows "\<exists>c'. vga_scrclr c = Some c' \<and> con_same c c'"
  unfolding vga_scrclr_def
proof (rule foldM_same)
  fix y c'
  assume "y \<in> set [0..<unat (cn_col c)]" and same: "con_same c c'"
  then show "\<exists>c''. foldM (\<lambda>j c. vga_put (int y * uint (cn_row c) + int j) (vga_empty c) c) [0..<unat (cn_row c')] c'
      = Some c'' \<and> con_same c' c''"
    using assms by (intro vga_line_ok) (simp_all add: con_same_fields [OF same])
qed

lemma vga_pullup_ok:
  assumes "vga_dev c" "unat (vpm_top c) + unat (vpm_bot c) < unat (cn_col c)"
  shows "\<exists>c'. vga_pullup c = Some c' \<and> con_same c c'"
proof -
  have "con_same c (c\<lparr>cn_vram := scroll_up (unat (cn_row c)) (unat (vpm_top c))
      (unat (cn_col c) - unat (vpm_bot c)) (vga_empty c) (cn_vram c)\<rparr>)"
    using assms by (intro con_sameI length_scroll_up) (simp_all add: vga_dev_lines)
  then show ?thesis using vga_pullup_eq [OF assms] by blast
qed

end
