(* ===== verification/Tty_Console.thy ===== *)
theory Tty_Console
  imports Tty_Vga
begin

text \<open>
  The console \<open>src/kernel/dev/tty/console.c\<close>: control characters, the state machine for escape
  sequences and its commands, over an arbitrary table of driver operations. Arguments of
  sequences are 32-bit integers, read as signed; their digits are accumulated with
  wrap-around. An access outside of the argument vector or of the driver's memory is \<open>None\<close>.
\<close>

definition CON_ARG_RESET :: int where "CON_ARG_RESET = -1"
definition TABWID :: int where "TABWID = 8"

section \<open>Lines\<close>

definition con_clrcon :: "conop \<Rightarrow> con \<Rightarrow> con option" where
  "con_clrcon opn c = op_scrclr opn (c\<lparr>cur_y := 0\<rparr>)"

definition con_scrln :: "conop \<Rightarrow> bool \<Rightarrow> con \<Rightarrow> con option" where
  "con_scrln opn up c = (if up then op_pullup opn c else op_pulldn opn c)"

definition con_full :: "conop \<Rightarrow> con \<Rightarrow> con option" where
  "con_full opn c =
     (if cn_scroll c then do {
        c \<leftarrow> (if vpm_bot c = 0 \<and> vpm_top c = 0 then con_scrln opn True c else Some c);
        Some (c\<lparr>cur_y := cur_y c - 1\<rparr>)
      }
      else con_clrcon opn c)"

definition con_clrscr :: "conop \<Rightarrow> int \<Rightarrow> con \<Rightarrow> con option" where
  "con_clrscr opn m c =
     (if m = 0 then do {
        c \<leftarrow> foldM (\<lambda>x c. op_clrch opn (int x) (uint (cur_y c)) c) [unat (cur_x c)..<unat (cn_row c)] c;
        foldM (\<lambda>y. op_clrln opn (int y)) [unat (cur_y c + 1)..<unat (cn_col c)] c
      }
      else if m = 1 then do {
        c \<leftarrow> foldM (\<lambda>x c. op_clrch opn (int x) (uint (cur_y c)) c) [0..<unat (cur_x c)] c;
        foldM (\<lambda>y. op_clrln opn (int y)) [0..<unat (cur_y c)] c
      }
      else if m = 2 then op_scrclr opn c
      else Some c)"

definition con_insln :: "conop \<Rightarrow> con \<Rightarrow> con option" where
  "con_insln opn c = op_pullup opn c"

definition con_insch :: "con \<Rightarrow> con" where
  "con_insch c = c"

section \<open>Control characters\<close>

definition con_cr :: "con \<Rightarrow> con" where
  "con_cr c = c\<lparr>cur_x := 0\<rparr>"

definition con_ht :: "conop \<Rightarrow> con \<Rightarrow> con option" where
  "con_ht opn c =
     (let c = c\<lparr>cur_x := of_int ((uint (cur_x c) + TABWID - 1) div TABWID * TABWID)\<rparr> in
      if cur_x c \<ge> cn_row c then
        (let y = cur_y c; c = c\<lparr>cur_y := cur_y c + 1\<rparr> in
         if y \<ge> cn_col c then con_full opn c else Some c)
      else Some c)"

definition con_lf :: "conop \<Rightarrow> con \<Rightarrow> con option" where
  "con_lf opn c =
     (let c = c\<lparr>cur_y := cur_y c + 1\<rparr> in
      if cur_y c \<ge> cn_col c then con_full opn c else Some c)"

definition con_ff :: "conop \<Rightarrow> con \<Rightarrow> con option" where
  "con_ff opn c =
     (let c = c\<lparr>cur_y := cur_y c + 1\<rparr> in
      if cur_y c \<ge> cn_col c then con_full opn c else Some c)"

definition con_bs :: "conop \<Rightarrow> con \<Rightarrow> con option" where
  "con_bs opn c =
     (let c = c\<lparr>cur_x := of_int (max (uint (cur_x c) - 1) 0)\<rparr> in
      op_clrch opn (uint (cur_x c)) (uint (cur_y c)) c)"

definition con_so :: "con \<Rightarrow> con" where
  "con_so c = c\<lparr>cn_acs := True\<rparr>"

definition con_si :: "con \<Rightarrow> con" where
  "con_si c = c\<lparr>cn_acs := False\<rparr>"

text \<open>The part of \<open>nor\<close> for a character that is not a control character.\<close>

definition con_emit :: "conop \<Rightarrow> u8 \<Rightarrow> con \<Rightarrow> con option" where
  "con_emit opn ch c = do {
     c \<leftarrow> (if \<not> cn_hidden c then op_xyputc opn ch (ucast (cur_x c)) (ucast (cur_y c)) c else Some c);
     let c = c\<lparr>cur_x := cur_x c + 1\<rparr>;
     if cur_x c \<ge> cn_row c then do {
       let c = c\<lparr>cur_y := cur_y c + 1\<rparr>;
       c \<leftarrow> (if cur_y c \<ge> cn_col c then con_full opn c else Some c);
       Some (c\<lparr>cur_x := 0\<rparr>)
     }
     else Some c
   }"

definition con_nor :: "conop \<Rightarrow> u8 \<Rightarrow> con \<Rightarrow> con option" where
  "con_nor opn ch c =
     (if ch = 0 \<or> ch = 7 then Some c
      else if ch = 9 then con_ht opn c
      else if ch = 10 \<or> ch = 11 then con_lf opn c
      else if ch = 12 then con_ff opn c
      else if ch = 13 then Some (con_cr c)
      else if ch = 8 then con_bs opn c
      else if ch = 14 then Some (con_so c)
      else if ch = 15 then Some (con_si c)
      else if ch = 27 then Some (c\<lparr>cn_state := STATE_ESC\<rparr>)
      else con_emit opn ch c)"

section \<open>Select graphic rendition\<close>

text \<open>
  The local variables of \<open>sgr\<close>. The loop runs at most once for each argument when the driver
  consumes at least one argument, so the number of arguments is enough fuel; without fuel
  the result is \<open>None\<close>.
\<close>

record sgr_vars =
  sg_fg :: u32
  sg_bg :: u32
  sg_hidden :: bool
  sg_underl :: bool
  sg_strike :: bool

definition con_sgr_one :: "conop \<Rightarrow> con \<Rightarrow> nat \<Rightarrow> sgr_vars \<Rightarrow> (int \<times> sgr_vars) option" where
  "con_sgr_one opn c i s = do {
     v \<leftarrow> arg_at (cn_argv c) i;
     if v = 0 then Some (1, s\<lparr>sg_fg := cn_fgdef c, sg_bg := cn_bgdef c, sg_hidden := False,
                              sg_underl := False, sg_strike := False\<rparr>)
     else if v = 4 then Some (1, s\<lparr>sg_underl := True\<rparr>)
     else if v = 7 then
       (let fg = sg_fg s XOR sg_bg s; bg = fg XOR sg_bg s; fg = fg XOR bg in
        Some (1, s\<lparr>sg_fg := fg, sg_bg := bg\<rparr>))
     else if v = 8 then Some (1, s\<lparr>sg_hidden := True\<rparr>)
     else if v = 9 then Some (1, s\<lparr>sg_strike := True\<rparr>)
     else do {
       (skip, bg, fg) \<leftarrow> op_sgr0 opn (drop i (cn_argv c)) (sg_bg s) (sg_fg s);
       Some (skip, s\<lparr>sg_fg := fg, sg_bg := bg\<rparr>)
     }
   }"

fun con_sgr_loop :: "nat \<Rightarrow> conop \<Rightarrow> con \<Rightarrow> int \<Rightarrow> sgr_vars \<Rightarrow> sgr_vars option" where
  "con_sgr_loop fuel opn c i s =
     (if i < cn_argc c then
        (case fuel of
           0 \<Rightarrow> None
         | Suc f \<Rightarrow> do {
             (skip, s) \<leftarrow> con_sgr_one opn c (nat i) s;
             con_sgr_loop f opn c (i + skip) s
           })
      else Some s)"

declare con_sgr_loop.simps [simp del]

definition con_sgr :: "conop \<Rightarrow> con \<Rightarrow> con option" where
  "con_sgr opn c = do {
     s \<leftarrow> con_sgr_loop (nat (cn_argc c)) opn c 0
            \<lparr>sg_fg = 0, sg_bg = 0, sg_hidden = cn_hidden c, sg_underl = cn_underl c, sg_strike = cn_strike c\<rparr>;
     Some (c\<lparr>cn_fg := sg_fg s, cn_bg := sg_bg s, cn_hidden := sg_hidden s,
             cn_underl := sg_underl s, cn_strike := sg_strike s\<rparr>)
   }"

section \<open>Cursor\<close>

definition con_move :: "int \<Rightarrow> int \<Rightarrow> con \<Rightarrow> con" where
  "con_move x y c =
     (let x = (if x < 0 then 0 else x);
          x = (if x \<ge> uint (cn_row c) then uint (cn_row c) - 1 else x);
          c = c\<lparr>cur_x := of_int x\<rparr>;
          c = (if y < 0 then c\<lparr>cur_y := 0\<rparr> else c);
          y = (if y \<ge> uint (cn_col c) then uint (cn_col c) - 1 else y)
      in c\<lparr>cur_y := of_int y\<rparr>)"

definition clampd :: "int \<Rightarrow> int" where
  "clampd d = (if d \<noteq> 0 then d else 1)"

definition con_moved :: "int \<Rightarrow> int \<Rightarrow> con \<Rightarrow> con" where
  "con_moved dx dy c = con_move (uint (cur_x c) + dx) (uint (cur_y c) + dy) c"

definition con_curshow :: "conop \<Rightarrow> bool \<Rightarrow> con \<Rightarrow> con option" where
  "con_curshow opn sh c =
     (if cn_cursor c \<noteq> sh then op_curtoggle opn (c\<lparr>cn_cursor := sh\<rparr>) else Some c)"

definition con_curstat :: "bool \<Rightarrow> con \<Rightarrow> con" where
  "con_curstat save c =
     (if save then c\<lparr>cn_save_x := cur_x c, cn_save_y := cur_y c\<rparr>
      else c\<lparr>cur_x := cn_save_x c, cur_y := cn_save_y c\<rparr>)"

section \<open>State machine\<close>

definition con_esc :: "u8 \<Rightarrow> con \<Rightarrow> con" where
  "con_esc ch c = c\<lparr>cn_state := (if ch = chr CHR ''['' then STATE_CSI else STATE_NOR)\<rparr>"

definition con_csi :: "u8 \<Rightarrow> con \<Rightarrow> bool \<times> con" where
  "con_csi ch c =
     (let c = c\<lparr>cn_state := STATE_ARG, cn_argc := CON_ARG_RESET, cn_pmcmd := (ch = chr CHR ''?'')\<rparr>
      in (cn_pmcmd c, c))"

text \<open>
  The commands, in the order of the \<open>switch\<close>; \<open>a0\<close> and \<open>a1\<close> are the first two arguments. The loops
  \<open>while (con.argv[0]--)\<close> of \<open>L\<close> and \<open>@\<close> run as often as the argument says, read as unsigned, and
  leave \<open>-1\<close> behind.
\<close>

definition con_repeat :: "int \<Rightarrow> (int \<Rightarrow> con \<Rightarrow> con option) \<Rightarrow> con \<Rightarrow> con option" where
  "con_repeat n f c = foldM f [0..n - 1] c"

definition con_clreol :: "conop \<Rightarrow> int \<Rightarrow> con \<Rightarrow> con option" where
  "con_clreol opn mode c =
     (if mode = 0 then op_clrrg opn (uint (cur_x c)) (uint (cn_col c)) c
      else if mode = 1 then op_clrrg opn 0 (uint (cur_x c)) c
      else op_clrrg opn 0 (uint (cn_col c)) c)"

definition con_cmd_move :: "u8 \<Rightarrow> int \<Rightarrow> int \<Rightarrow> con \<Rightarrow> con option" where
  "con_cmd_move ch a0 a1 c =
     (if ch = chr CHR ''F'' then Some (con_moved 0 (- clampd a0) (con_move 0 (uint (cur_y c)) c))
      else if ch = chr CHR ''A'' then Some (con_moved 0 (- clampd a0) c)
      else if ch = chr CHR ''E'' then Some (con_moved 0 (clampd a0) (con_move 0 (uint (cur_y c)) c))
      else if ch = chr CHR ''e'' \<or> ch = chr CHR ''B'' then Some (con_moved 0 (clampd a0) c)
      else if ch = chr CHR ''a'' \<or> ch = chr CHR ''C'' then Some (con_moved (clampd a0) 0 c)
      else if ch = chr CHR ''D'' then Some (con_moved (- clampd a0) 0 c)
      else if ch = chr CHR ''d'' then Some (con_move (uint (cur_x c)) a0 c)
      else if ch = chr CHR ''H'' \<or> ch = chr CHR ''f'' then Some (con_move a1 a0 c)
      else if ch = 0x60 \<or> ch = chr CHR ''G'' then Some (con_move a0 (uint (cur_y c)) c)
      else Some c)"

definition con_cmd_edit :: "conop \<Rightarrow> u8 \<Rightarrow> int \<Rightarrow> int \<Rightarrow> con \<Rightarrow> con option" where
  "con_cmd_edit opn ch a0 a1 c =
     (let n = max a0 1 in
      if ch = chr CHR ''L'' then do {
        c \<leftarrow> con_repeat (a0 mod 2 ^ 32) (\<lambda>_. con_insln opn) c;
        Some (c\<lparr>cn_argv := (cn_argv c)[0 := - 1]\<rparr>)
      }
      else if ch = chr CHR ''@'' then do {
        c \<leftarrow> con_repeat (a0 mod 2 ^ 32) (\<lambda>_ c. Some (con_insch c)) c;
        Some (c\<lparr>cn_argv := (cn_argv c)[0 := - 1]\<rparr>)
      }
      else if ch = chr CHR ''M'' then con_repeat n (\<lambda>i c. op_clrln opn (uint (cur_y c) + i) c) c
      else if ch = chr CHR ''P'' then con_repeat n (\<lambda>i c. op_clrch opn (uint (cur_x c) + i) (uint (cur_y c)) c) c
      else if ch = chr CHR ''J'' then con_clrscr opn a0 c
      else if ch = chr CHR ''s'' then Some (con_curstat True c)
      else if ch = chr CHR ''u'' then Some (con_curstat False c)
      else if ch = chr CHR ''K'' then con_clreol opn a0 c
      else if ch = chr CHR ''X'' then op_clrrg opn (uint (cur_x c)) n c
      else if ch = chr CHR ''S'' then con_repeat n (\<lambda>_. con_scrln opn True) c
      else if ch = chr CHR ''T'' then con_repeat n (\<lambda>_. con_scrln opn False) c
      else if ch = chr CHR ''m'' then con_sgr opn c
      else if ch = chr CHR ''r'' then
        Some (c\<lparr>vpm_top := of_int a0, vpm_bot := of_int a1, cur_x := 0, cur_y := 0\<rparr>)
      else Some c)"

definition con_is_move :: "u8 \<Rightarrow> bool" where
  "con_is_move ch \<longleftrightarrow> ch \<in> set (map chr ''FAEeBaCDdHfG'') \<or> ch = 0x60"

definition con_cmd :: "conop \<Rightarrow> u8 \<Rightarrow> con \<Rightarrow> con option" where
  "con_cmd opn ch c = do {
     a0 \<leftarrow> arg_at (cn_argv c) 0;
     a1 \<leftarrow> arg_at (cn_argv c) 1;
     c \<leftarrow> (if con_is_move ch then con_cmd_move ch (sint a0) (sint a1) c
          else con_cmd_edit opn ch (sint a0) (sint a1) c);
     Some (c\<lparr>cn_state := STATE_NOR\<rparr>)
   }"

definition PM_CURSOR :: u32 where "PM_CURSOR = 25"

definition con_pmcmd :: "conop \<Rightarrow> u8 \<Rightarrow> con \<Rightarrow> con option" where
  "con_pmcmd opn ch c = do {
     a0 \<leftarrow> arg_at (cn_argv c) 0;
     c \<leftarrow> (if a0 = PM_CURSOR then con_curshow opn (ch = chr CHR ''h'') c else Some c);
     Some (c\<lparr>cn_state := STATE_NOR\<rparr>)
   }"

definition con_argreset :: "con \<Rightarrow> con" where
  "con_argreset c =
     (if cn_argc c = CON_ARG_RESET then c\<lparr>cn_argv := replicate CON_ARG_MAX 0, cn_argc := 0\<rparr> else c)"

definition con_arg :: "conop \<Rightarrow> u8 \<Rightarrow> con \<Rightarrow> con option" where
  "con_arg opn ch c =
     (let c = con_argreset c in
      if chr CHR ''0'' \<le> ch \<and> ch \<le> chr CHR ''9'' then do {
        v \<leftarrow> arg_at (cn_argv c) (nat (cn_argc c));
        Some (c\<lparr>cn_argv := (cn_argv c)[nat (cn_argc c) := v * 10 + ucast ch - ucast (chr CHR ''0'')]\<rparr>)
      }
      else if ch = chr CHR '';'' then
        (let c = c\<lparr>cn_argc := cn_argc c + 1\<rparr> in
         Some (if cn_argc c > int CON_ARG_MAX then c\<lparr>cn_argc := cn_argc c - 1\<rparr> else c))
      else
        (let c = c\<lparr>cn_argc := cn_argc c + 1\<rparr> in
         if cn_pmcmd c then con_pmcmd opn ch c else con_cmd opn ch c))"

definition con_cputc :: "conop \<Rightarrow> u8 \<Rightarrow> con \<Rightarrow> con option" where
  "con_cputc opn ch c =
     (case cn_state c of
        STATE_NOR \<Rightarrow> con_nor opn ch c
      | STATE_ESC \<Rightarrow> Some (con_esc ch c)
      | STATE_CSI \<Rightarrow> (let (pm, c) = con_csi ch c in if pm then Some c else con_arg opn ch c)
      | STATE_ARG \<Rightarrow> con_arg opn ch c
      | _ \<Rightarrow> Some c)"

section \<open>The device\<close>

definition console_write :: "conop \<Rightarrow> u8 list \<Rightarrow> con \<Rightarrow> (int \<times> con) option" where
  "console_write opn s c = do {
     c \<leftarrow> con_curshow opn False c;
     c \<leftarrow> foldM (con_cputc opn) s c;
     c \<leftarrow> con_curshow opn True c;
     Some (int (length s), c)
   }"

record winsize =
  ws_row :: u16
  ws_col :: u16
  ws_xpixel :: u16
  ws_ypixel :: u16

text \<open>\<open>TIOCGWINSZ\<close> fills the structure of the caller; the errors are \<open>-EPERM\<close> and \<open>-EINVAL\<close>.\<close>

definition console_ioctl :: "u32 \<Rightarrow> con \<Rightarrow> winsize \<Rightarrow> int \<times> winsize" where
  "console_ioctl req c win =
     (if req = 0x5413 then
        (0, \<lparr>ws_row = cn_col c, ws_col = cn_row c, ws_xpixel = ucast (cn_hor c), ws_ypixel = ucast (cn_ver c)\<rparr>)
      else if req = 0x5414 then (- 1, win)
      else (- 22, win))"

text \<open>\<open>init\<close> is the initialisation of the driver that \<open>screen_istxt\<close> selects.\<close>

definition console_init :: "(con \<Rightarrow> con option) \<Rightarrow> con \<Rightarrow> con option" where
  "console_init init c = do {
     c \<leftarrow> init c;
     Some (c\<lparr>cn_scroll := True, cn_cursor := False, cn_hidden := False, cn_underl := False,
             cn_strike := False, cur_x := 0, cur_y := 0, cn_bg := cn_bgdef c, cn_fg := cn_fgdef c,
             vpm_top := 0, vpm_bot := 0, cn_argc := CON_ARG_RESET, cn_state := STATE_NOR, cn_pmcmd := False\<rparr>)
   }"

section \<open>Text on any driver\<close>

text \<open>
  What the console relies on: in a usable device state (\<open>dev\<close>), drawing at a position of the
  screen, clearing and scrolling without margins succeed and change nothing but the
  device.
\<close>

locale con_driver =
  fixes opn :: conop and dev :: "con \<Rightarrow> bool"
  assumes dev_size: "dev c \<Longrightarrow> 0 < cn_row c \<and> 0 < cn_col c"
    and dev_same: "con_same c c' \<Longrightarrow> dev c' = dev c"
    and dev_cursor: "dev (c\<lparr>cur_x := x\<rparr>) = dev c" "dev (c\<lparr>cur_y := y\<rparr>) = dev c"
      "dev (c\<lparr>cn_acs := a\<rparr>) = dev c" "dev (c\<lparr>cn_cursor := a\<rparr>) = dev c"
    and xyputc: "dev c \<Longrightarrow> x < cn_row c \<Longrightarrow> y < cn_col c \<Longrightarrow>
      \<exists>c'. op_xyputc opn ch (ucast x) (ucast y) c = Some c' \<and> con_same c c'"
    and curtoggle: "dev c \<Longrightarrow> \<exists>c'. op_curtoggle opn c = Some c' \<and> con_same c c'"
    and pullup: "dev c \<Longrightarrow> vpm_top c = 0 \<Longrightarrow> vpm_bot c = 0 \<Longrightarrow> \<exists>c'. op_pullup opn c = Some c' \<and> con_same c c'"
    and clrch: "dev c \<Longrightarrow> \<exists>c'. op_clrch opn (uint x) (uint y) c = Some c' \<and> con_same c c'"
    and scrclr: "dev c \<Longrightarrow> \<exists>c'. op_scrclr opn c = Some c' \<and> con_same c c'"
begin

definition wf :: "con \<Rightarrow> bool" where
  "wf c \<longleftrightarrow> dev c \<and> cur_x c < cn_row c \<and> cur_y c < cn_col c \<and> cn_state c = STATE_NOR"

lemma wf_same: "con_same c c' \<Longrightarrow> wf c \<Longrightarrow> wf c'"
  by (simp add: wf_def con_same_fields dev_same)

lemma full_ok:
  assumes "dev c" "cur_y c = cn_col c" "cn_state c = STATE_NOR"
  shows "\<exists>c'. con_full opn c = Some c' \<and> cur_x c' = cur_x c \<and> cn_row c' = cn_row c \<and> dev c'
    \<and> cur_y c' < cn_col c' \<and> cn_state c' = STATE_NOR"
proof (cases "cn_scroll c")
  case True
  have "\<exists>c1. (if vpm_bot c = 0 \<and> vpm_top c = 0 then con_scrln opn True c else Some c) = Some c1 \<and> con_same c c1"
    using pullup [OF assms(1)] by (auto simp: con_scrln_def)
  then obtain c1 where c1: "(if vpm_bot c = 0 \<and> vpm_top c = 0 then con_scrln opn True c else Some c) = Some c1"
    and same: "con_same c c1" by blast
  have "cn_col c - 1 < cn_col c" using dev_size [OF assms(1)] by unat_arith
  then show ?thesis
    using True c1 assms by (simp add: con_full_def con_same_fields [OF same] dev_same [OF same] dev_cursor)
next
  case False
  obtain c1 where c1: "op_scrclr opn (c\<lparr>cur_y := 0\<rparr>) = Some c1" and same: "con_same (c\<lparr>cur_y := 0\<rparr>) c1"
    using scrclr [of "c\<lparr>cur_y := 0\<rparr>"] assms(1) by (auto simp: dev_cursor)
  then show ?thesis
    using False assms dev_size [OF assms(1)]
    by (simp add: con_full_def con_clrcon_def con_same_fields [OF same] dev_same [OF same] dev_cursor)
qed

lemma newline_ok:
  assumes "dev c" "cur_y c < cn_col c" "cn_state c = STATE_NOR"
  shows "\<exists>c'. con_lf opn c = Some c' \<and> cur_x c' = cur_x c \<and> cn_row c' = cn_row c \<and> dev c'
    \<and> cur_y c' < cn_col c' \<and> cn_state c' = STATE_NOR"
proof (cases "cn_col c \<le> cur_y c + 1")
  case True
  with assms(2) have "cur_y c + 1 = cn_col c"
    by (metis inc_le order_antisym)
  then show ?thesis
    using full_ok [of "c\<lparr>cur_y := cur_y c + 1\<rparr>"] assms by (simp add: con_lf_def Let_def dev_cursor)
next
  case False
  then show ?thesis using assms by (auto simp: con_lf_def Let_def dev_cursor)
qed

lemma emit_ok:
  assumes "wf c"
  shows "\<exists>c'. con_emit opn ch c = Some c' \<and> wf c'"
proof -
  have "\<exists>c1. (if \<not> cn_hidden c then op_xyputc opn ch (ucast (cur_x c)) (ucast (cur_y c)) c else Some c) = Some c1
      \<and> con_same c c1"
    using xyputc assms by (auto simp: wf_def)
  then obtain c1 where
    c1: "(if \<not> cn_hidden c then op_xyputc opn ch (ucast (cur_x c)) (ucast (cur_y c)) c else Some c) = Some c1"
    and "con_same c c1" by blast
  then have w: "wf c1" using assms wf_same by blast
  let ?c = "c1\<lparr>cur_x := cur_x c1 + 1\<rparr>"
  show ?thesis
  proof (cases "cn_row c1 \<le> cur_x c1 + 1")
    case True
    obtain c2 where "con_lf opn ?c = Some c2" "dev c2" "cur_y c2 < cn_col c2" "cn_state c2 = STATE_NOR"
      using newline_ok [of ?c] w by (auto simp: wf_def dev_cursor)
    then show ?thesis
      using c1 True dev_size [of c2] unfolding con_emit_def
      by (simp add: con_lf_def Let_def wf_def dev_cursor)
  next
    case False
    then show ?thesis
      using c1 w unfolding con_emit_def by (auto simp: Let_def wf_def dev_cursor)
  qed
qed

lemma bs_ok:
  assumes "wf c"
  shows "\<exists>c'. con_bs opn c = Some c' \<and> wf c'"
proof -
  let ?x = "of_int (max (uint (cur_x c) - 1) 0) :: u16"
  have "?x \<le> cur_x c"
  proof (cases "cur_x c = 0")
    case False
    then have "0 < uint (cur_x c)" by (simp add: less_le uint_0_iff)
    then have "?x = cur_x c - 1" by simp
    then show ?thesis using False by (simp only:) unat_arith
  qed simp
  then have w: "wf (c\<lparr>cur_x := ?x\<rparr>)" using assms by (auto simp: wf_def dev_cursor)
  then obtain c' where "op_clrch opn (uint ?x) (uint (cur_y c)) (c\<lparr>cur_x := ?x\<rparr>) = Some c'"
    and "con_same (c\<lparr>cur_x := ?x\<rparr>) c'"
    using clrch [of "c\<lparr>cur_x := ?x\<rparr>" ?x "cur_y c"] unfolding wf_def by blast
  then show ?thesis
    using wf_same w by (simp add: con_bs_def Let_def)
qed

lemma cputc_text:
  assumes "wf c" "ch \<noteq> 9" "ch \<noteq> 27"
  shows "\<exists>c'. con_cputc opn ch c = Some c' \<and> wf c'"
proof -
  have "\<exists>c'. con_lf opn c = Some c' \<and> wf c'"
    using newline_ok [of c] assms(1) by (auto simp: wf_def)
  moreover have "con_ff opn c = con_lf opn c" by (simp add: con_ff_def con_lf_def)
  moreover have "wf (con_cr c)" "wf (con_so c)" "wf (con_si c)"
    using assms(1) dev_size by (auto simp: wf_def con_cr_def con_so_def con_si_def dev_cursor)
  ultimately show ?thesis
    using assms emit_ok bs_ok by (simp add: con_cputc_def con_nor_def wf_def)
qed

lemma curshow_ok:
  assumes "wf c"
  shows "\<exists>c'. con_curshow opn sh c = Some c' \<and> wf c'"
  using assms curtoggle [of "c\<lparr>cn_cursor := sh\<rparr>"]
  by (auto simp: con_curshow_def wf_def dev_cursor con_same_fields dev_same)

lemma write_text:
  assumes "wf c" "\<And>ch. ch \<in> set s \<Longrightarrow> ch \<noteq> 9 \<and> ch \<noteq> 27"
  shows "\<exists>c'. console_write opn s c = Some (int (length s), c') \<and> wf c'"
proof -
  obtain c1 where c1: "con_curshow opn False c = Some c1" "wf c1" using curshow_ok assms(1) by blast
  obtain c2 where c2: "foldM (con_cputc opn) s c1 = Some c2" "wf c2"
    using foldM_invar [where P = wf and f = "con_cputc opn" and xs = s] assms(2) c1(2) cputc_text by blast
  obtain c3 where "con_curshow opn True c2 = Some c3" "wf c3" using curshow_ok c2(2) by blast
  then show ?thesis using c1 c2 by (simp add: console_write_def)
qed

end

interpretation vga: con_driver conop_vga vga_dev
proof unfold_locales
  fix c :: con and x y :: u16
  assume "vga_dev c"
  then show "\<exists>c'. op_clrch conop_vga (uint x) (uint y) c = Some c' \<and> con_same c c'"
    using vga_clrch_ok [of c "unat x" "unat y"] by (simp add: conop_vga_def)
next
  fix c :: con
  assume "vga_dev c" "vpm_top c = 0" "vpm_bot c = 0"
  then show "\<exists>c'. op_pullup conop_vga c = Some c' \<and> con_same c c'"
    using vga_pullup_ok [of c] by (auto simp: conop_vga_def vga_dev_def unat_gt_0)
qed (simp_all add: conop_vga_def vga_xyputc_ok vga_curtoggle_ok vga_scrclr_ok con_same_fields vga_dev_def)

text \<open>
  C26: on the text mode screen, any string without tab and escape characters, written with the
  cursor on the screen, is written completely; every store is inside the video memory,
  and the cursor is on the screen again.
\<close>

theorem console_text_safe:
  assumes "vga_dev c" "cur_x c < cn_row c" "cur_y c < cn_col c" "cn_state c = STATE_NOR"
    and "\<forall>ch \<in> set s. ch \<noteq> 9 \<and> ch \<noteq> 27"
  shows "\<exists>c'. console_write conop_vga s c = Some (int (length s), c') \<and> vga_dev c'
    \<and> cur_x c' < cn_row c' \<and> cur_y c' < cn_col c' \<and> cn_state c' = STATE_NOR"
  using vga.write_text [of c s] assms by (simp add: vga.wf_def)

section \<open>Escape sequences\<close>

text \<open>The decimal digits of a number, as characters.\<close>

fun dec :: "nat \<Rightarrow> u8 list" where
  "dec n = (if n < 10 then [of_nat (48 + n)] else dec (n div 10) @ [of_nat (48 + n mod 10)])"

declare dec.simps [simp del]

lemma digit_char:
  assumes "d < 10"
  shows "chr CHR ''0'' \<le> of_nat (48 + d)" "of_nat (48 + d) \<le> chr CHR ''9''"
    "unat (of_nat (48 + d) :: u8) = 48 + d"
proof -
  show u: "unat (of_nat (48 + d) :: u8) = 48 + d" using assms by (intro unat_of_nat_lt) simp
  show "chr CHR ''0'' \<le> of_nat (48 + d)" "of_nat (48 + d) \<le> chr CHR ''9''"
    using assms unfolding word_le_nat_alt u by simp_all
qed

lemma arg_digit:
  assumes "d < 10" "cn_state c = STATE_ARG" "0 \<le> cn_argc c" "nat (cn_argc c) < length (cn_argv c)"
  shows "con_cputc opn (of_nat (48 + d)) c =
    Some (c\<lparr>cn_argv := (cn_argv c)[nat (cn_argc c) := cn_argv c ! nat (cn_argc c) * 10 + of_nat d]\<rparr>)"
proof -
  have "(ucast (of_nat (48 + d) :: u8) :: u32) = of_nat (unat (of_nat (48 + d) :: u8))" by simp
  also have "\<dots> = of_nat (48 + d)" by (simp only: digit_char(3) [OF assms(1)])
  also have "\<dots> = 48 + of_nat d" by simp
  finally have num: "v * 10 + ucast (of_nat (48 + d) :: u8) - 48 = v * 10 + of_nat d" for v :: u32
    by simp
  have "con_argreset c = c" using assms by (simp add: con_argreset_def CON_ARG_RESET_def)
  then show ?thesis
    using assms digit_char [OF assms(1)] by (simp add: num con_cputc_def con_arg_def arg_at_def Let_def del: of_nat_add)
qed

lemma arg_dec:
  assumes "cn_state c = STATE_ARG" "0 \<le> cn_argc c" "nat (cn_argc c) < length (cn_argv c)"
    "cn_argv c ! nat (cn_argc c) = 0"
  shows "foldM (con_cputc opn) (dec n) c = Some (c\<lparr>cn_argv := (cn_argv c)[nat (cn_argc c) := of_nat n]\<rparr>)"
  using assms
proof (induction n rule: dec.induct)
  case (1 n)
  show ?case
  proof (cases "n < 10")
    case True
    then show ?thesis using 1 arg_digit [of n c opn] by (simp add: dec.simps [of n])
  next
    case False
    have n: "(of_nat (n div 10) * 10 + of_nat (n mod 10) :: u32) = of_nat n"
      by (metis div_mult_mod_eq of_nat_add of_nat_mult of_nat_numeral)
    show ?thesis
      using 1 False n arg_digit [of "n mod 10" "c\<lparr>cn_argv := (cn_argv c)[nat (cn_argc c) := of_nat (n div 10)]\<rparr>" opn]
      by (simp add: dec.simps [of n] foldM_append del: of_nat_add)
  qed
qed

lemma dec_head: "\<exists>d ds. dec n = of_nat (48 + d) # ds \<and> d < 10"
proof (induction n rule: dec.induct)
  case (1 n)
  show ?case
  proof (cases "n < 10")
    case True
    then have "dec n = of_nat (48 + n) # []" by (subst dec.simps) simp
    then show ?thesis using True by blast
  next
    case False
    with 1 obtain d ds where "dec (n div 10) = of_nat (48 + d) # ds" "d < 10" by blast
    then have "dec n = of_nat (48 + d) # (ds @ [of_nat (48 + n mod 10)])" "d < 10"
      using False by (simp_all add: dec.simps [of n] del: of_nat_add)
    then show ?thesis by blast
  qed
qed

text \<open>The state in which the first character of the arguments is read.\<close>

abbreviation con_args :: "con \<Rightarrow> con" where
  "con_args c \<equiv> c\<lparr>cn_state := STATE_ARG, cn_argc := 0, cn_argv := replicate CON_ARG_MAX 0, cn_pmcmd := False\<rparr>"

lemma csi_first:
  assumes "ch \<noteq> chr CHR ''?''"
  shows "con_cputc opn ch (c\<lparr>cn_state := STATE_CSI\<rparr>) = con_cputc opn ch (con_args c)"
proof -
  have "con_argreset (c\<lparr>cn_state := STATE_ARG, cn_argc := CON_ARG_RESET, cn_pmcmd := False\<rparr>) = con_args c"
    "con_argreset (con_args c) = con_args c"
    by (simp_all add: con_argreset_def CON_ARG_RESET_def)
  then show ?thesis
    using assms by (simp add: con_cputc_def con_csi_def con_arg_def Let_def)
qed

lemma csi_dec:
  "foldM (con_cputc opn) (dec n) (c\<lparr>cn_state := STATE_CSI\<rparr>)
   = Some (con_args c\<lparr>cn_argv := (replicate CON_ARG_MAX 0)[0 := of_nat n]\<rparr>)"
proof -
  obtain d ds where d: "dec n = of_nat (48 + d) # ds" "d < 10" using dec_head by blast
  have "(of_nat (48 + d) :: u8) \<noteq> chr CHR ''?''"
  proof
    assume "(of_nat (48 + d) :: u8) = chr CHR ''?''"
    then have "unat (of_nat (48 + d) :: u8) = unat (chr CHR ''?'')" by (rule arg_cong)
    then show False using d(2) by (simp only: digit_char) simp
  qed
  then have "foldM (con_cputc opn) (dec n) (c\<lparr>cn_state := STATE_CSI\<rparr>) = foldM (con_cputc opn) (dec n) (con_args c)"
    unfolding d(1) foldM.simps by (subst csi_first) (assumption, rule refl)
  then show ?thesis using arg_dec [of "con_args c" opn n] by (simp add: CON_ARG_MAX_def)
qed

lemma con_intro:
  "cn_state c = STATE_NOR \<Longrightarrow>
   foldM (con_cputc opn) (27 # chr CHR ''['' # s) c = foldM (con_cputc opn) s (c\<lparr>cn_state := STATE_CSI\<rparr>)"
  by (simp add: con_cputc_def con_nor_def con_esc_def)

lemma sint_of_nat_u32: "n < 2 ^ 31 \<Longrightarrow> sint (of_nat n :: u32) = int n"
  by (simp add: signed_of_nat signed_take_bit_int_eq_self)

lemma clamp_u16:
  fixes r :: u16
  assumes "0 < r"
  shows "of_int (if uint r \<le> int k then uint r - 1 else int k) = (of_nat (min k (unat r - 1)) :: u16)"
proof -
  have pos: "0 < unat r" using assms by (simp add: word_less_nat_alt)
  have le: "uint r \<le> int k \<longleftrightarrow> unat r \<le> k" by (simp only: uint_nat of_nat_le_iff)
  show ?thesis
  proof (cases "unat r \<le> k")
    case True
    have "uint r - 1 = int (unat r - 1)" using pos by (simp add: of_nat_diff)
    moreover have "min k (unat r - 1) = unat r - 1" using True by simp
    ultimately show ?thesis using True by (simp only: le if_True of_int_of_nat_eq)
  next
    case False
    then have "min k (unat r - 1) = k" by simp
    then show ?thesis using False by (simp only: le if_False of_int_of_nat_eq)
  qed
qed

lemma con_move_clamp:
  assumes "0 < cn_row c" "0 < cn_col c"
  shows "con_move (int x) (int y) c =
    c\<lparr>cur_x := of_nat (min x (unat (cn_row c) - 1)), cur_y := of_nat (min y (unat (cn_col c) - 1))\<rparr>"
  unfolding clamp_u16 [OF assms(1), symmetric] clamp_u16 [OF assms(2), symmetric]
  by (simp add: con_move_def Let_def split del: if_split cong: if_cong)

text \<open>
  C27: the sequence \<open>ESC [ y ; x H\<close> with decimal numbers below \<open>2^31\<close> moves the cursor to line \<open>y\<close> and
  column \<open>x\<close>, or to the last line or column where these are smaller; nothing is drawn and the
  console reads text again, on every driver.
\<close>

theorem console_csi_move:
  assumes "cn_state c = STATE_NOR" "0 < cn_row c" "0 < cn_col c" "x < 2 ^ 31" "y < 2 ^ 31"
  shows "foldM (con_cputc opn) ([27, chr CHR ''['' ] @ dec y @ [chr CHR '';''] @ dec x @ [chr CHR ''H'']) c =
    Some (c\<lparr>cur_x := of_nat (min x (unat (cn_row c) - 1)), cur_y := of_nat (min y (unat (cn_col c) - 1)),
            cn_argc := 2, cn_argv := of_nat y # of_nat x # replicate 14 0,
            cn_state := STATE_NOR, cn_pmcmd := False\<rparr>)"
proof -
  let ?v1 = "(replicate CON_ARG_MAX 0)[0 := of_nat y] :: u32 list"
  let ?c1 = "con_args c\<lparr>cn_argv := ?v1\<rparr>"
  let ?c2 = "con_args c\<lparr>cn_argv := ?v1, cn_argc := 1\<rparr>"
  let ?v2 = "of_nat y # of_nat x # replicate 14 0 :: u32 list"
  have sep: "con_cputc opn (chr CHR '';'') ?c1 = Some ?c2"
    by (simp add: con_cputc_def con_arg_def con_argreset_def CON_ARG_RESET_def CON_ARG_MAX_def Let_def)
  have v2: "?v1[1 := of_nat x] = ?v2" by (simp add: CON_ARG_MAX_def numeral_nat)
  have num: "foldM (con_cputc opn) (dec x) ?c2 = Some (?c2\<lparr>cn_argv := ?v2\<rparr>)"
    using arg_dec [of ?c2 opn x] v2 by (simp add: CON_ARG_MAX_def)
  have "con_cmd_move (chr CHR ''H'') (int y) (int x) d =
      Some (d\<lparr>cur_x := of_nat (min x (unat (cn_row d) - 1)), cur_y := of_nat (min y (unat (cn_col d) - 1))\<rparr>)"
    if "0 < cn_row d" "0 < cn_col d" for d
    using con_move_clamp [OF that] by (simp add: con_cmd_move_def)
  then have cmd: "con_cputc opn (chr CHR ''H'') (?c2\<lparr>cn_argv := ?v2\<rparr>) =
      Some (c\<lparr>cur_x := of_nat (min x (unat (cn_row c) - 1)), cur_y := of_nat (min y (unat (cn_col c) - 1)),
            cn_argc := 2, cn_argv := ?v2, cn_state := STATE_NOR, cn_pmcmd := False\<rparr>)"
    using assms(2,3) sint_of_nat_u32 [OF assms(4)] sint_of_nat_u32 [OF assms(5)]
    by (simp add: con_cputc_def con_arg_def con_argreset_def CON_ARG_RESET_def Let_def con_cmd_def arg_at_def
        con_is_move_def)
  show ?thesis
    using csi_dec [of opn y c] sep num cmd unfolding append.simps con_intro [OF assms(1)]
    by (simp only: foldM_append bind.bind_lunit foldM.simps)
qed

text \<open>
  On the 80 by 25 screen, \<open>ESC [ A\<close> (cursor up) in the first line sets \<open>cur_y\<close> to 65535, and the
  next printable character is stored outside of the video memory: \<open>move\<close> stores the
  negative line after it has clamped the wrong variable.
\<close>

lemma console_up_at_top:
  assumes "cn_state c = STATE_NOR" "\<not> cn_hidden c" "cn_row c = 80" "cn_col c = 25"
    "length (cn_vram c) = 2048" "cur_x c < 80" "cur_y c = 0" "32 \<le> ch"
  shows "\<exists>c1. foldM (con_cputc conop_vga) [27, chr CHR ''['', chr CHR ''A''] c = Some c1 \<and> cur_y c1 = 65535
    \<and> con_cputc conop_vga ch c1 = None"
proof -
  let ?c1 = "con_args c\<lparr>cn_argc := 1, cur_x := cur_x c, cur_y := 65535, cn_state := STATE_NOR\<rparr>"
  have mv: "con_moved 0 (- 1) (con_args c\<lparr>cn_argc := 1\<rparr>) = con_args c\<lparr>cn_argc := 1, cur_x := cur_x c, cur_y := 65535\<rparr>"
    using assms(6) by (simp add: con_moved_def con_move_def assms(3,4,7) word_less_def)
  have "con_cputc conop_vga (chr CHR ''A'') (c\<lparr>cn_state := STATE_CSI\<rparr>) = con_cputc conop_vga (chr CHR ''A'') (con_args c)"
    by (rule csi_first) simp
  also have "\<dots> = Some ?c1"
    using mv by (simp add: con_cputc_def con_arg_def con_argreset_def CON_ARG_RESET_def Let_def con_cmd_def arg_at_def
        con_is_move_def con_cmd_move_def clampd_def CON_ARG_MAX_def)
  finally have up: "foldM (con_cputc conop_vga) [27, chr CHR ''['', chr CHR ''A''] c = Some ?c1"
    unfolding con_intro [OF assms(1)] by (simp only: foldM.simps bind.bind_lunit)
  have ch: "ch \<notin> {0, 7, 8, 9, 10, 11, 12, 13, 14, 15, 27}" using assms(8) by auto
  have "unat (ucast (cur_x c) :: u32) < 80" using assms(6) by (simp add: unat_ucast_up word_less_nat_alt)
  then have "unat (5242800 + ucast (cur_x c) :: u32) = 5242800 + unat (ucast (cur_x c) :: u32)"
    by (subst unat_add_lt) simp_all
  then have "2048 \<le> uint (5242800 + ucast (cur_x c) :: u32)"
    by (simp only: uint_nat)
  then have "vga_xyputc ch (ucast (cur_x c)) 65535 ?c1 = None"
    using assms(5) by (simp add: vga_xyputc_def Let_def vga_put_def assms(3) assertk_def)
  then have "con_cputc conop_vga ch ?c1 = None"
    using ch assms(2) by (simp add: con_cputc_def con_nor_def con_emit_def conop_vga_def)
  with up show ?thesis by simp
qed

lemma arg_seps:
  "k \<le> CON_ARG_MAX \<Longrightarrow> foldM (con_cputc opn) (replicate k (chr CHR '';'')) (con_args c) = Some (con_args c\<lparr>cn_argc := int k\<rparr>)"
proof (induction k)
  case (Suc k)
  have "con_cputc opn (chr CHR '';'') (con_args c\<lparr>cn_argc := int k\<rparr>) = Some (con_args c\<lparr>cn_argc := int k + 1\<rparr>)"
    using Suc.prems by (simp add: con_cputc_def con_arg_def con_argreset_def CON_ARG_RESET_def Let_def)
  moreover have "int (Suc k) = int k + 1" by simp
  moreover have "replicate (Suc k) (chr CHR '';'') = replicate k (chr CHR '';'') @ [chr CHR '';'']"
    by (simp add: replicate_append_same)
  ultimately show ?case
    using Suc by (simp only: foldM_append foldM.simps bind.bind_lunit Suc_leD)
qed simp

text \<open>
  A sequence with sixteen separators and one more digit stores behind the end of \<open>argv\<close>: the bound
  check of \<open>arg\<close> allows the index \<open>ARG_MAX\<close>.
\<close>

lemma console_arg_overflow:
  assumes "cn_state c = STATE_NOR" "chr CHR ''0'' \<le> d" "d \<le> chr CHR ''9''"
  shows "foldM (con_cputc opn) ([27, chr CHR ''[''] @ replicate 16 (chr CHR '';'') @ [d]) c = None"
proof -
  have "foldM (con_cputc opn) (replicate 16 (chr CHR '';'')) (c\<lparr>cn_state := STATE_CSI\<rparr>) =
      foldM (con_cputc opn) (replicate 16 (chr CHR '';'')) (con_args c)"
  proof -
    have "replicate 16 (chr CHR '';'') = chr CHR '';'' # replicate 15 (chr CHR '';'')"
      by (simp add: numeral_nat)
    then show ?thesis
      by (simp only: foldM.simps) (subst csi_first, simp, rule refl)
  qed
  also have "\<dots> = Some (con_args c\<lparr>cn_argc := 16\<rparr>)"
    using arg_seps [of 16] by (simp add: CON_ARG_MAX_def)
  finally have "foldM (con_cputc opn) (replicate 16 (chr CHR '';'')) (c\<lparr>cn_state := STATE_CSI\<rparr>) = Some (con_args c\<lparr>cn_argc := 16\<rparr>)" .
  moreover have "con_cputc opn d (con_args c\<lparr>cn_argc := 16\<rparr>) = None"
    using assms(2,3) by (simp add: con_cputc_def con_arg_def con_argreset_def CON_ARG_RESET_def CON_ARG_MAX_def Let_def arg_at_def)
  ultimately show ?thesis
    unfolding append.simps con_intro [OF assms(1)]
    by (simp only: foldM_append bind.bind_lunit foldM.simps bind.bind_lzero)
qed

section \<open>Colours\<close>

lemma vga_sgr0_skip:
  assumes "5 \<le> length argv"
  shows "\<exists>skip bg' fg'. vga_sgr0 argv bg fg = Some (skip, bg', fg') \<and> 1 \<le> skip"
  using assms by (auto simp: vga_sgr0_def vga_sgr8_def arg_at_def Let_def)

lemma sgr_one_skip:
  assumes "i + 5 \<le> length (cn_argv c)"
  shows "\<exists>skip s'. con_sgr_one conop_vga c i s = Some (skip, s') \<and> 1 \<le> skip"
proof -
  have "5 \<le> length (drop i (cn_argv c))" using assms by simp
  then obtain skip bg' fg' where
    "vga_sgr0 (drop i (cn_argv c)) (sg_bg s) (sg_fg s) = Some (skip, bg', fg')" "1 \<le> skip"
    using vga_sgr0_skip by blast
  then show ?thesis
    using assms by (simp add: con_sgr_one_def arg_at_def Let_def conop_vga_def)
qed

lemma sgr_loop_total:
  assumes "0 \<le> i" "cn_argc c - i \<le> int fuel" "cn_argc c + 4 \<le> int (length (cn_argv c))"
  shows "\<exists>s'. con_sgr_loop fuel conop_vga c i s = Some s'"
  using assms
proof (induction fuel arbitrary: i s)
  case 0
  then show ?case by (simp add: con_sgr_loop.simps)
next
  case (Suc fuel)
  show ?case
  proof (cases "i < cn_argc c")
    case True
    have "nat i + 5 \<le> length (cn_argv c)" using True Suc.prems by linarith
    then obtain skip s1 where s1: "con_sgr_one conop_vga c (nat i) s = Some (skip, s1)" "1 \<le> skip"
      using sgr_one_skip by blast
    then have "\<exists>s'. con_sgr_loop fuel conop_vga c (i + skip) s1 = Some s'"
      using Suc by auto
    then show ?thesis using s1 True by (subst con_sgr_loop.simps) simp
  next
    case False
    then show ?thesis by (simp add: con_sgr_loop.simps)
  qed
qed

text \<open>
  With at most twelve arguments the loop of \<open>sgr\<close> ends on the text mode driver, for any arguments, and
  changes only the colours and the attributes.
\<close>

lemma console_sgr_ends:
  assumes "length (cn_argv c) = CON_ARG_MAX" "cn_argc c \<le> 12"
  shows "\<exists>f b h u k. con_sgr conop_vga c =
    Some (c\<lparr>cn_fg := f, cn_bg := b, cn_hidden := h, cn_underl := u, cn_strike := k\<rparr>)"
proof -
  let ?s = "\<lparr>sg_fg = 0, sg_bg = 0, sg_hidden = cn_hidden c, sg_underl = cn_underl c, sg_strike = cn_strike c\<rparr>"
  have "cn_argc c - 0 \<le> int (nat (cn_argc c))" "cn_argc c + 4 \<le> int (length (cn_argv c))"
    using assms by (simp_all add: CON_ARG_MAX_def)
  then obtain s where "con_sgr_loop (nat (cn_argc c)) conop_vga c 0 ?s = Some s"
    using sgr_loop_total by blast
  then show ?thesis unfolding con_sgr_def by (simp only: bind.bind_lunit) blast
qed

text \<open>The colours start as black on black, so a sequence that only asks for underlining hides the text.\<close>

lemma con_sgr_underline:
  "con_sgr opn (c\<lparr>cn_argc := 1, cn_argv := 4 # v\<rparr>) =
   Some (c\<lparr>cn_argc := 1, cn_argv := 4 # v, cn_fg := 0, cn_bg := 0, cn_hidden := cn_hidden c,
           cn_underl := True, cn_strike := cn_strike c\<rparr>)"
  by (simp add: con_sgr_def con_sgr_loop.simps con_sgr_one_def arg_at_def)

section \<open>Examples\<close>

theorem console_text_safe_witness:
  "\<exists>c'. console_write conop_vga [65, 10, 66] con_small = Some (3, c') \<and> cur_x c' < cn_row c'"
  using console_text_safe [of con_small "[65, 10, 66]"]
  by (auto simp: con_static_def vga_dev_def)

theorem console_csi_move_witness:
  "\<exists>c'. foldM (con_cputc conop_vga) [27, 91, 49, 50, 59, 49, 72] con_small = Some c' \<and> cur_x c' = 1 \<and> cur_y c' = 2"
  using console_csi_move [of con_small 1 12 conop_vga]
  by (simp add: con_static_def dec.simps)

end
