(* ===== verification/Klib_List.thy ===== *)
theory Klib_List
  imports Textos_Prelude
begin

text \<open>
  The circular doubly linked list \<open>src/include/textos/klib/list.h\<close>. Nodes are addresses; the
  memory gives the two pointers of each node. A list is a head node whose cycle of \<open>next\<close>
  pointers runs through the elements, with \<open>prev\<close> as the inverse (\<open>list_rep\<close>); every
  operation is related to the operation on sequences that it stands for.
\<close>

type_synonym node_ref = nat

record list_mem =
  l_prev :: "node_ref \<Rightarrow> node_ref"
  l_next :: "node_ref \<Rightarrow> node_ref"

abbreviation set_prev :: "node_ref \<Rightarrow> node_ref \<Rightarrow> list_mem \<Rightarrow> list_mem" where
  "set_prev n p m \<equiv> m\<lparr>l_prev := (l_prev m)(n := p)\<rparr>"

abbreviation set_next :: "node_ref \<Rightarrow> node_ref \<Rightarrow> list_mem \<Rightarrow> list_mem" where
  "set_next n p m \<equiv> m\<lparr>l_next := (l_next m)(n := p)\<rparr>"

definition list_init :: "node_ref \<Rightarrow> list_mem \<Rightarrow> list_mem" where
  "list_init l m = set_next l l (set_prev l l m)"

definition list_insert_after :: "node_ref \<Rightarrow> node_ref \<Rightarrow> list_mem \<Rightarrow> list_mem" where
  "list_insert_after l n m =
     (let m = set_next n (l_next m l) m;
          m = set_prev (l_next m n) n m;
          m = set_prev n l m
      in set_next l n m)"

definition list_insert_before :: "node_ref \<Rightarrow> node_ref \<Rightarrow> list_mem \<Rightarrow> list_mem" where
  "list_insert_before l n m = list_insert_after (l_prev m l) n m"

definition list_insert :: "node_ref \<Rightarrow> node_ref \<Rightarrow> list_mem \<Rightarrow> list_mem" where
  "list_insert l n m = list_insert_after l n m"

definition list_remove :: "node_ref \<Rightarrow> list_mem \<Rightarrow> list_mem" where
  "list_remove n m =
     (if l_prev m n = n then m
      else
        (let m = set_next (l_prev m n) (l_next m n) m
         in set_prev (l_next m n) (l_prev m n) m))"

definition list_pushhead :: "node_ref \<Rightarrow> node_ref \<Rightarrow> list_mem \<Rightarrow> list_mem" where
  "list_pushhead l n m = list_insert_after l n m"

definition list_pushback :: "node_ref \<Rightarrow> node_ref \<Rightarrow> list_mem \<Rightarrow> list_mem" where
  "list_pushback l n m = list_insert_before l n m"

definition list_pophead :: "node_ref \<Rightarrow> list_mem \<Rightarrow> node_ref \<times> list_mem" where
  "list_pophead l m = (let h = l_next m l in (h, list_remove h m))"

definition list_popback :: "node_ref \<Rightarrow> list_mem \<Rightarrow> node_ref \<times> list_mem" where
  "list_popback l m = (let b = l_prev m l in (b, list_remove b m))"

definition list_empty :: "node_ref \<Rightarrow> list_mem \<Rightarrow> bool" where
  "list_empty l m \<longleftrightarrow> l = l_prev m l"

text \<open>
  The nodes that the loops \<open>LIST_FOREACH\<close> and \<open>LIST_FOREACH_REV\<close> visit, when the body leaves the list
  alone; the fuel bounds the number of rounds, and a walk that does not end is \<open>None\<close>.
\<close>

fun list_walk :: "nat \<Rightarrow> (node_ref \<Rightarrow> node_ref) \<Rightarrow> node_ref \<Rightarrow> node_ref \<Rightarrow> node_ref list option" where
  "list_walk fuel step iter l =
     (if iter = l then Some []
      else case fuel of
          0 \<Rightarrow> None
        | Suc f \<Rightarrow> map_option (Cons iter) (list_walk f step (step iter) l))"

declare list_walk.simps [simp del]

definition LIST_FOREACH :: "nat \<Rightarrow> node_ref \<Rightarrow> list_mem \<Rightarrow> node_ref list option" where
  "LIST_FOREACH fuel l m = list_walk fuel (l_next m) (l_next m l) l"

definition LIST_FOREACH_REV :: "nat \<Rightarrow> node_ref \<Rightarrow> list_mem \<Rightarrow> node_ref list option" where
  "LIST_FOREACH_REV fuel l m = list_walk fuel (l_prev m) (l_prev m l) l"

section \<open>Lists as sequences\<close>

text \<open>A segment from \<open>a\<close> through the nodes \<open>xs\<close> to \<open>b\<close>.\<close>

fun chain :: "list_mem \<Rightarrow> node_ref \<Rightarrow> node_ref list \<Rightarrow> node_ref \<Rightarrow> bool" where
  "chain m a [] b \<longleftrightarrow> l_next m a = b \<and> l_prev m b = a"
| "chain m a (x # xs) b \<longleftrightarrow> l_next m a = x \<and> l_prev m x = a \<and> chain m x xs b"

definition list_rep :: "list_mem \<Rightarrow> node_ref \<Rightarrow> node_ref list \<Rightarrow> bool" where
  "list_rep m l xs \<longleftrightarrow> distinct (l # xs) \<and> chain m l xs l"

lemma chain_append: "chain m a (xs @ y # ys) b \<longleftrightarrow> chain m a xs y \<and> chain m y ys b"
  by (induction xs arbitrary: a) auto

lemma chain_next_frame [simp]: "n \<noteq> a \<Longrightarrow> n \<notin> set xs \<Longrightarrow> chain (set_next n v m) a xs b = chain m a xs b"
  by (induction xs arbitrary: a) auto

lemma chain_prev_frame [simp]: "n \<noteq> b \<Longrightarrow> n \<notin> set xs \<Longrightarrow> chain (set_prev n v m) a xs b = chain m a xs b"
  by (induction xs arbitrary: a) auto

lemma chain_cong:
  assumes "\<And>n. n = a \<or> n \<in> set xs \<Longrightarrow> l_next m' n = l_next m n"
    and "\<And>n. n = b \<or> n \<in> set xs \<Longrightarrow> l_prev m' n = l_prev m n"
  shows "chain m' a xs b = chain m a xs b"
  using assms by (induction xs arbitrary: a) auto

lemma chain_prev: "chain m a xs b \<Longrightarrow> l_prev m b = last (a # xs)"
  by (induction xs arbitrary: a) auto

lemma chain_next: "chain m a xs b \<Longrightarrow> l_next m a = hd (xs @ [b])"
  by (cases xs) auto

text \<open>The last node of a segment can be given another successor.\<close>

lemma chain_relink:
  assumes "chain m a xs b" "distinct (a # xs)" "b' \<notin> set xs"
    and "l_next m' (last (a # xs)) = b'" "l_prev m' b' = last (a # xs)"
    and "\<And>n. n \<noteq> last (a # xs) \<Longrightarrow> n = a \<or> n \<in> set xs \<Longrightarrow> l_next m' n = l_next m n"
    and "\<And>n. n \<in> set xs \<Longrightarrow> l_prev m' n = l_prev m n"
  shows "chain m' a xs b'"
  using assms
proof (induction xs arbitrary: a)
  case (Cons x xs)
  have "a \<noteq> last (x # xs)" using Cons.prems(2) last_in_set [of "x # xs"] by auto
  then have "l_next m' a = x" using Cons.prems by auto
  moreover have "chain m' x xs b'"
    by (rule Cons.IH) (use Cons.prems in auto)
  ultimately show ?case using Cons.prems by auto
qed simp

text \<open>Likewise the first node of a segment can be given another predecessor.\<close>

lemma chain_rehead:
  assumes "chain m a ys b" "distinct ys" "b \<notin> set ys"
    and "l_next m' a' = hd (ys @ [b])" "l_prev m' (hd (ys @ [b])) = a'"
    and "\<And>n. n \<in> set ys \<Longrightarrow> l_next m' n = l_next m n"
    and "\<And>n. n \<noteq> hd (ys @ [b]) \<Longrightarrow> n = b \<or> n \<in> set ys \<Longrightarrow> l_prev m' n = l_prev m n"
  shows "chain m' a' ys b"
proof (cases ys)
  case (Cons y zs)
  have "n \<noteq> y" if "n = b \<or> n \<in> set zs" for n using that assms(2,3) Cons by auto
  then have "chain m' y zs b = chain m y zs b"
    by (intro chain_cong) (simp_all add: assms(6,7) Cons)
  then show ?thesis using assms Cons by simp
qed (use assms in simp)

lemma chain_split:
  "chain m a (xs @ ys) b \<longleftrightarrow> chain m a xs (hd (ys @ [b])) \<and> chain m (last (a # xs)) ys b"
  by (cases ys; induction xs arbitrary: a) auto

lemma list_init_rep: "list_rep (list_init l m) l []"
  by (simp add: list_rep_def list_init_def)

lemma list_empty_rep: "list_rep m l xs \<Longrightarrow> list_empty l m \<longleftrightarrow> xs = []"
  using last_in_set [of xs] by (auto simp: list_rep_def list_empty_def dest!: chain_prev split: if_splits)

lemma list_ends:
  assumes "distinct (l # xs @ ys)" "p = last (l # xs)" "q = hd (ys @ [l])"
  shows "p \<in> set (l # xs)" "q \<in> set (ys @ [l])" "q \<notin> set xs" "p \<notin> set ys"
proof -
  show p: "p \<in> set (l # xs)" using last_in_set [of "l # xs"] assms(2) by simp
  show q: "q \<in> set (ys @ [l])" using hd_in_set [of "ys @ [l]"] assms(3) by simp
  show "q \<notin> set xs" "p \<notin> set ys" using p q assms(1) by auto
qed

lemma insert_after_rep:
  assumes rep: "list_rep m l (xs @ ys)" and new: "n \<notin> set (l # xs @ ys)"
  shows "list_rep (list_insert_after (last (l # xs)) n m) l (xs @ n # ys)"
proof -
  define p q where pq: "p = last (l # xs)" "q = hd (ys @ [l])"
  define m' where "m' = list_insert_after p n m"
  have d: "distinct (l # xs @ ys)" and c: "chain m l xs q" "chain m p ys l"
    using rep by (simp_all only: list_rep_def chain_split pq)
  note ends = list_ends [OF d pq]
  then have np: "n \<noteq> p" "n \<noteq> q" using new by auto
  have qn: "l_next m p = q" using chain_next [OF c(2)] pq by simp
  have m: "l_next m' = (l_next m)(n := q, p := n)" "l_prev m' = (l_prev m)(q := n, n := p)"
    unfolding m'_def list_insert_after_def Let_def using qn np by simp_all
  have "chain m' l xs n"
    by (rule chain_relink [OF c(1), folded pq]) (use d new np ends in \<open>auto simp: m\<close>)
  moreover have "chain m' n ys l"
    by (rule chain_rehead [OF c(2), folded pq]) (use d new np ends in \<open>auto simp: m\<close>)
  ultimately show ?thesis
    unfolding pq(1) [symmetric] m'_def [symmetric] using d new by (auto simp: list_rep_def chain_append)
qed

lemma list_remove_rep:
  assumes rep: "list_rep m l (xs @ n # ys)"
  shows "list_rep (list_remove n m) l (xs @ ys)"
proof -
  define p q where pq: "p = last (l # xs)" "q = hd (ys @ [l])"
  define m' where "m' = list_remove n m"
  have d: "distinct (l # xs @ n # ys)" and c: "chain m l xs n" "chain m n ys l"
    using rep by (simp_all add: list_rep_def chain_append)
  have d': "distinct (l # xs @ ys)" using d by auto
  note ends = list_ends [OF d' pq]
  then have np: "p \<noteq> n" "q \<noteq> n" using d by auto
  have lk: "l_prev m n = p" "l_next m n = q" using chain_prev [OF c(1)] chain_next [OF c(2)] pq by simp_all
  have m: "l_next m' = (l_next m)(p := q)" "l_prev m' = (l_prev m)(q := p)"
    unfolding m'_def list_remove_def Let_def using lk np by simp_all
  have "chain m' l xs q"
    by (rule chain_relink [OF c(1), folded pq]) (use d ends in \<open>auto simp: m\<close>)
  moreover have "chain m' p ys l"
    by (rule chain_rehead [OF c(2), folded pq]) (use d ends in \<open>auto simp: m\<close>)
  ultimately show ?thesis
    unfolding m'_def [symmetric] using d' by (simp only: list_rep_def chain_split pq [symmetric])
qed

lemma list_remove_rep':
  "list_rep m l xs \<Longrightarrow> n \<in> set xs \<Longrightarrow> list_rep (list_remove n m) l (remove1 n xs)"
  by (metis list_remove_rep remove1_split)

lemma walk_next:
  "chain m a xs l \<Longrightarrow> l \<notin> set xs \<Longrightarrow> list_walk (length xs) (l_next m) (l_next m a) l = Some xs"
  by (induction xs arbitrary: a) (simp_all add: list_walk.simps)

lemma walk_prev:
  "chain m a xs b \<Longrightarrow> a \<notin> set xs \<Longrightarrow> list_walk (length xs) (l_prev m) (l_prev m b) a = Some (rev xs)"
  by (induction xs arbitrary: b rule: rev_induct) (simp_all add: list_walk.simps chain_append)

text \<open>
  C14: the list operations implement operations on sequences: insertion at both ends, removal of any
  element, the two pop operations, the emptiness test, and the loops in both directions
  visit exactly the elements, in order and in reverse.
\<close>

theorem list_refines_sequence:
  assumes "list_rep m l xs" and "n \<notin> set (l # xs)"
  shows "list_rep (list_pushhead l n m) l (n # xs)
    \<and> list_rep (list_pushback l n m) l (xs @ [n])
    \<and> (k \<in> set xs \<longrightarrow> list_rep (list_remove k m) l (remove1 k xs))
    \<and> (xs \<noteq> [] \<longrightarrow> fst (list_pophead l m) = hd xs \<and> list_rep (snd (list_pophead l m)) l (tl xs))
    \<and> (xs \<noteq> [] \<longrightarrow> fst (list_popback l m) = last xs \<and> list_rep (snd (list_popback l m)) l (butlast xs))
    \<and> (list_empty l m \<longleftrightarrow> xs = [])
    \<and> LIST_FOREACH (length xs) l m = Some xs
    \<and> LIST_FOREACH_REV (length xs) l m = Some (rev xs)"
proof (intro conjI impI)
  have c: "chain m l xs l" and l: "l \<notin> set xs" using assms(1) by (simp_all add: list_rep_def)
  show "list_rep (list_pushhead l n m) l (n # xs)"
    using insert_after_rep [of m l "[]" xs n] assms by (simp add: list_pushhead_def)
  show "list_rep (list_pushback l n m) l (xs @ [n])"
    using insert_after_rep [of m l xs "[]" n] assms chain_prev [OF c]
    by (simp add: list_pushback_def list_insert_before_def)
  show "list_rep (list_remove k m) l (remove1 k xs)" if "k \<in> set xs"
    by (rule list_remove_rep') (use assms that in simp_all)
  show "fst (list_pophead l m) = hd xs" "list_rep (snd (list_pophead l m)) l (tl xs)" if "xs \<noteq> []"
    using list_remove_rep [of m l "[]" "hd xs" "tl xs"] assms(1) c that chain_next [OF c]
    by (simp_all add: list_pophead_def Let_def)
  show "fst (list_popback l m) = last xs" "list_rep (snd (list_popback l m)) l (butlast xs)" if "xs \<noteq> []"
    using list_remove_rep [of m l "butlast xs" "last xs" "[]"] assms(1) that chain_prev [OF c]
    by (simp_all add: list_popback_def Let_def)
  show "list_empty l m \<longleftrightarrow> xs = []" by (rule list_empty_rep) (fact assms(1))
  show "LIST_FOREACH (length xs) l m = Some xs" unfolding LIST_FOREACH_def by (rule walk_next) (fact c l)+
  show "LIST_FOREACH_REV (length xs) l m = Some (rev xs)" unfolding LIST_FOREACH_REV_def by (rule walk_prev) (fact c l)+
qed

theorem list_refines_sequence_witness:
  "list_rep (list_pushback 1 3 (list_pushback 1 2 (list_init 1 \<lparr>l_prev = (\<lambda>_. 0), l_next = (\<lambda>_. 0)\<rparr>))) 1 [2, 3]"
  using list_refines_sequence [of "list_pushback 1 2 (list_init 1 \<lparr>l_prev = (\<lambda>_. 0), l_next = (\<lambda>_. 0)\<rparr>)" 1 "[2]" 3]
  by (simp add: list_rep_def list_pushback_def list_insert_before_def list_insert_after_def list_init_def Let_def)

end
