(* ===== verification/Task_Ktimer.thy ===== *)
theory Task_Ktimer
  imports Klib_List
begin

text \<open>
  Kernel timers, \<open>src/kernel/ktimer.c\<close>. The timers are linked through the list node they
  contain, so a timer and its node have the same address. The state has the timers, the
  memory of the nodes, the head of the list (\<open>timers\<close>), the tick counter \<open>__ktick\<close> with
  \<open>__ktick_ms\<close>, and the rest of the system, which only the functions of the timers change. \<open>call\<close>
  runs such a function; it may change the whole state.
\<close>

record ktimer_t =
  kt_func :: nat
  kt_arg :: nat
  kt_expires :: u64
  kt_dead :: bool

record 'w ktimers =
  tm_tmr :: "node_ref \<Rightarrow> ktimer_t"
  tm_list :: list_mem
  tm_head :: node_ref
  tm_tick :: u64
  tm_tick_ms :: u64
  tm_world :: 'w

abbreviation upd_tmr :: "node_ref \<Rightarrow> (ktimer_t \<Rightarrow> ktimer_t) \<Rightarrow> 'w ktimers \<Rightarrow> 'w ktimers" where
  "upd_tmr t f s \<equiv> s\<lparr>tm_tmr := (tm_tmr s)(t := f (tm_tmr s t))\<rparr>"

definition ktimer :: "node_ref \<Rightarrow> nat \<Rightarrow> nat \<Rightarrow> u64 \<Rightarrow> 'w ktimers \<Rightarrow> 'w ktimers" where
  "ktimer t func arg ms s =
     (let s = upd_tmr t (\<lambda>k. k\<lparr>kt_func := func, kt_arg := arg, kt_expires := tm_tick s + ms\<rparr>) s in
      if \<not> kt_dead (tm_tmr s t) then s
      else
        (let s = upd_tmr t (\<lambda>k. k\<lparr>kt_dead := False\<rparr>) s
         in s\<lparr>tm_list := list_insert (tm_head s) t (tm_list s)\<rparr>))"

definition ktimer_init :: "node_ref \<Rightarrow> 'w ktimers \<Rightarrow> 'w ktimers" where
  "ktimer_init t s = upd_tmr t (\<lambda>k. k\<lparr>kt_dead := True\<rparr>) s"

definition ktimer_kill :: "node_ref \<Rightarrow> 'w ktimers \<Rightarrow> 'w ktimers" where
  "ktimer_kill t s =
     (if kt_dead (tm_tmr s t) then s
      else
        (let s = upd_tmr t (\<lambda>k. k\<lparr>kt_dead := True\<rparr>) s
         in s\<lparr>tm_list := list_remove t (tm_list s)\<rparr>))"

definition ktimer_fire ::
  "(nat \<Rightarrow> nat \<Rightarrow> 'w ktimers \<Rightarrow> 'w ktimers) \<Rightarrow> node_ref \<Rightarrow> 'w ktimers \<Rightarrow> 'w ktimers" where
  "ktimer_fire call t s =
     (if kt_dead (tm_tmr s t) then s
      else
        (let s = ktimer_kill t s
         in call (kt_func (tm_tmr s t)) (kt_arg (tm_tmr s t)) s))"

text \<open>The fuel bounds the number of rounds; a loop that needs more is \<open>None\<close>.\<close>

fun ktimer_check_loop ::
  "(nat \<Rightarrow> nat \<Rightarrow> 'w ktimers \<Rightarrow> 'w ktimers) \<Rightarrow> nat \<Rightarrow> node_ref \<Rightarrow> node_ref \<Rightarrow> 'w ktimers \<Rightarrow> 'w ktimers option" where
  "ktimer_check_loop call fuel ptr nxt s =
     (if ptr = tm_head s then Some s
      else case fuel of
          0 \<Rightarrow> None
        | Suc f \<Rightarrow>
            (let s = (if kt_expires (tm_tmr s ptr) > tm_tick s then s else ktimer_fire call ptr s)
             in ktimer_check_loop call f nxt (l_next (tm_list s) nxt) s))"

declare ktimer_check_loop.simps [simp del]

definition ktimer_check :: "(nat \<Rightarrow> nat \<Rightarrow> 'w ktimers \<Rightarrow> 'w ktimers) \<Rightarrow> nat \<Rightarrow> 'w ktimers \<Rightarrow> 'w ktimers option" where
  "ktimer_check call fuel s =
     (let ptr = l_next (tm_list s) (tm_head s);
          nxt = l_next (tm_list s) ptr
      in ktimer_check_loop call fuel ptr nxt s)"

definition ktimer_remain :: "node_ref \<Rightarrow> 'w ktimers \<Rightarrow> u64" where
  "ktimer_remain t s =
     (if kt_dead (tm_tmr s t) then 0
      else if kt_expires (tm_tmr s t) > tm_tick s then kt_expires (tm_tmr s t) - tm_tick s
      else 0)"

definition ktimer_remain_ms :: "node_ref \<Rightarrow> 'w ktimers \<Rightarrow> u64" where
  "ktimer_remain_ms t s = ktimer_remain t s * tm_tick_ms s"

section \<open>The list holds the running timers\<close>

definition timers_ok :: "'w ktimers \<Rightarrow> node_ref list \<Rightarrow> bool" where
  "timers_ok s xs \<longleftrightarrow> list_rep (tm_list s) (tm_head s) xs \<and> (\<forall>t. kt_dead (tm_tmr s t) \<longleftrightarrow> t \<notin> set xs)"

lemma timers_ok_distinct: "timers_ok s xs \<Longrightarrow> distinct xs \<and> tm_head s \<notin> set xs"
  by (simp add: timers_ok_def list_rep_def)

lemma ktimer_ok:
  assumes "timers_ok s xs" "t \<noteq> tm_head s"
  shows "timers_ok (ktimer t f a ms s) (if t \<in> set xs then xs else t # xs)"
proof (cases "t \<in> set xs")
  case True
  then show ?thesis using assms by (auto simp: timers_ok_def ktimer_def Let_def)
next
  case False
  then have "list_rep (list_insert_after (tm_head s) t (tm_list s)) (tm_head s) (t # xs)"
    using insert_after_rep [of "tm_list s" "tm_head s" "[]" xs t] assms by (simp add: timers_ok_def)
  then show ?thesis using False assms by (auto simp: timers_ok_def ktimer_def Let_def list_insert_def)
qed

lemma ktimer_kill_ok:
  assumes "timers_ok s xs"
  shows "timers_ok (ktimer_kill t s) (remove1 t xs)"
proof (cases "t \<in> set xs")
  case True
  have "distinct xs" using timers_ok_distinct [OF assms] by simp
  then show ?thesis
    using True assms list_remove_rep' [of "tm_list s" "tm_head s" xs t]
    by (auto simp: timers_ok_def ktimer_kill_def Let_def)
next
  case False
  then show ?thesis using assms by (simp add: timers_ok_def ktimer_kill_def remove1_idem)
qed

section \<open>Firing\<close>

text \<open>The timers that are due, and what their functions do to the rest of the system.\<close>

definition tm_due :: "'w ktimers \<Rightarrow> node_ref \<Rightarrow> bool" where
  "tm_due s t \<longleftrightarrow> kt_expires (tm_tmr s t) \<le> tm_tick s"

definition tm_run :: "(nat \<Rightarrow> nat \<Rightarrow> 'w \<Rightarrow> 'w) \<Rightarrow> 'w ktimers \<Rightarrow> node_ref list \<Rightarrow> 'w" where
  "tm_run act s ts = fold (\<lambda>t. act (kt_func (tm_tmr s t)) (kt_arg (tm_tmr s t))) ts (tm_world s)"

text \<open>The functions of the timers do not touch the timers.\<close>

definition tm_calls :: "(nat \<Rightarrow> nat \<Rightarrow> 'w ktimers \<Rightarrow> 'w ktimers) \<Rightarrow> (nat \<Rightarrow> nat \<Rightarrow> 'w \<Rightarrow> 'w) \<Rightarrow> bool" where
  "tm_calls call act \<longleftrightarrow> (\<forall>f a s. call f a s = s\<lparr>tm_world := act f a (tm_world s)\<rparr>)"

lemma kt_dead_same: "kt_dead k = b \<Longrightarrow> k\<lparr>kt_dead := b\<rparr> = k"
  by (cases k) simp

lemma check_loop_spec:
  fixes act :: "nat \<Rightarrow> nat \<Rightarrow> 'w \<Rightarrow> 'w" and s :: "'w ktimers"
  assumes call: "tm_calls call act"
    and "timers_ok s (ys @ zs)" "ptr = hd (zs @ [tm_head s])" "nxt = l_next (tm_list s) ptr" "length zs \<le> fuel"
  shows "\<exists>s'. ktimer_check_loop call fuel ptr nxt s = Some s'
    \<and> timers_ok s' (ys @ filter (Not \<circ> tm_due s) zs)
    \<and> tm_world s' = tm_run act s (filter (tm_due s) zs)
    \<and> (\<forall>t. tm_tmr s' t = (tm_tmr s t)\<lparr>kt_dead := t \<notin> set (ys @ filter (Not \<circ> tm_due s) zs)\<rparr>)
    \<and> tm_head s' = tm_head s \<and> tm_tick s' = tm_tick s"
  using assms(2-)
proof (induction zs arbitrary: ys ptr nxt fuel s)
  case Nil
  have "kt_dead (tm_tmr s t) = (t \<notin> set ys)" for t using Nil.prems(1) by (simp add: timers_ok_def)
  then have "(tm_tmr s t)\<lparr>kt_dead := t \<notin> set ys\<rparr> = tm_tmr s t" for t
    by (rule kt_dead_same)
  then show ?case using Nil by (simp add: ktimer_check_loop.simps tm_run_def)
next
  case (Cons z zs)
  then obtain f where fuel: "fuel = Suc f" "length zs \<le> f" by (cases fuel) auto
  have ptr: "ptr = z" "z \<noteq> tm_head s" "z \<notin> set (ys @ zs)" "\<not> kt_dead (tm_tmr s z)"
    using Cons.prems timers_ok_distinct [OF Cons.prems(1)] by (auto simp: timers_ok_def)
  have "chain (tm_list s) z zs (tm_head s)"
    using Cons.prems(1) by (simp add: timers_ok_def list_rep_def chain_append)
  then have nxt: "nxt = hd (zs @ [tm_head s])" using Cons.prems(3) ptr(1) chain_next by blast
  show ?case
  proof (cases "tm_due s z")
    case False
    have "\<exists>s'. ktimer_check_loop call f nxt (l_next (tm_list s) nxt) s = Some s'
        \<and> timers_ok s' ((ys @ [z]) @ filter (Not \<circ> tm_due s) zs)
        \<and> tm_world s' = tm_run act s (filter (tm_due s) zs)
        \<and> (\<forall>t. tm_tmr s' t = (tm_tmr s t)\<lparr>kt_dead := t \<notin> set ((ys @ [z]) @ filter (Not \<circ> tm_due s) zs)\<rparr>)
        \<and> tm_head s' = tm_head s \<and> tm_tick s' = tm_tick s"
      by (rule Cons.IH) (use Cons.prems nxt fuel in simp_all)
    moreover have "ktimer_check_loop call fuel ptr nxt s = ktimer_check_loop call f nxt (l_next (tm_list s) nxt) s"
      using False ptr fuel by (subst ktimer_check_loop.simps) (simp add: tm_due_def linorder_not_le)
    moreover have "ys @ filter (Not \<circ> tm_due s) (z # zs) = (ys @ [z]) @ filter (Not \<circ> tm_due s) zs"
      "filter (tm_due s) (z # zs) = filter (tm_due s) zs"
      using False by simp_all
    ultimately show ?thesis by (simp only:)
  next
    case True
    let ?s1 = "(ktimer_kill z s)\<lparr>tm_world := act (kt_func (tm_tmr s z)) (kt_arg (tm_tmr s z)) (tm_world s)\<rparr>"
    have fire: "ktimer_fire call z s = ?s1"
      using ptr(4) call by (simp add: ktimer_fire_def tm_calls_def ktimer_kill_def Let_def)
    have same: "tm_head ?s1 = tm_head s" "tm_tick ?s1 = tm_tick s"
      "tm_tmr ?s1 t = (if t = z then (tm_tmr s z)\<lparr>kt_dead := True\<rparr> else tm_tmr s t)" for t
      using ptr(4) by (simp_all add: ktimer_kill_def Let_def)
    have kill: "tm_tmr (ktimer_kill z s) t = (if t = z then (tm_tmr s z)\<lparr>kt_dead := True\<rparr> else tm_tmr s t)"
      "tm_head (ktimer_kill z s) = tm_head s" "tm_tick (ktimer_kill z s) = tm_tick s" for t
      using same by simp_all
    have due: "tm_due ?s1 = tm_due s" by (rule ext) (simp add: tm_due_def kill)
    have "timers_ok (ktimer_kill z s) (ys @ zs)"
      using ktimer_kill_ok [OF Cons.prems(1), of z] ptr(3) by (simp add: remove1_append)
    then have "timers_ok ?s1 (ys @ zs)" by (simp add: timers_ok_def)
    then have "\<exists>s'. ktimer_check_loop call f nxt (l_next (tm_list ?s1) nxt) ?s1 = Some s'
        \<and> timers_ok s' (ys @ filter (Not \<circ> tm_due ?s1) zs)
        \<and> tm_world s' = tm_run act ?s1 (filter (tm_due ?s1) zs)
        \<and> (\<forall>t. tm_tmr s' t = (tm_tmr ?s1 t)\<lparr>kt_dead := t \<notin> set (ys @ filter (Not \<circ> tm_due ?s1) zs)\<rparr>)
        \<and> tm_head s' = tm_head ?s1 \<and> tm_tick s' = tm_tick ?s1"
      by (rule Cons.IH) (use nxt fuel in \<open>simp_all add: kill\<close>)
    moreover have "tm_run act ?s1 ts = tm_run act s (z # ts)" for ts
    proof -
      have "(\<lambda>t. act (kt_func (tm_tmr ?s1 t)) (kt_arg (tm_tmr ?s1 t))) = (\<lambda>t. act (kt_func (tm_tmr s t)) (kt_arg (tm_tmr s t)))"
        by (rule ext) (simp add: kill)
      then show ?thesis by (simp add: tm_run_def)
    qed
    moreover have "(tm_tmr ?s1 t)\<lparr>kt_dead := t \<notin> set (ys @ filter (Not \<circ> tm_due s) zs)\<rparr>
        = (tm_tmr s t)\<lparr>kt_dead := t \<notin> set (ys @ filter (Not \<circ> tm_due s) zs)\<rparr>" for t
      by (simp add: kill)
    moreover have "ktimer_check_loop call fuel ptr nxt s = ktimer_check_loop call f nxt (l_next (tm_list ?s1) nxt) ?s1"
      using True ptr fuel fire by (subst ktimer_check_loop.simps) (auto simp: tm_due_def Let_def dest: leD)
    moreover have "filter (Not \<circ> tm_due s) (z # zs) = filter (Not \<circ> tm_due s) zs" "filter (tm_due s) (z # zs) = z # filter (tm_due s) zs"
      using True by simp_all
    ultimately show ?thesis by (simp only: due same)
  qed
qed

lemma check_spec:
  assumes "tm_calls call act"
    and "timers_ok s xs" and "length xs \<le> fuel"
  shows "\<exists>s'. ktimer_check call fuel s = Some s'
    \<and> timers_ok s' (filter (Not \<circ> tm_due s) xs)
    \<and> tm_world s' = tm_run act s (filter (tm_due s) xs)
    \<and> (\<forall>t. tm_tmr s' t = (tm_tmr s t)\<lparr>kt_dead := t \<notin> set (filter (Not \<circ> tm_due s) xs)\<rparr>)
    \<and> tm_head s' = tm_head s \<and> tm_tick s' = tm_tick s"
proof -
  have "chain (tm_list s) (tm_head s) xs (tm_head s)" using assms(2) by (simp add: timers_ok_def list_rep_def)
  then have "l_next (tm_list s) (tm_head s) = hd (xs @ [tm_head s])" by (rule chain_next)
  then show ?thesis
    using check_loop_spec [OF assms(1), of s "[]" xs "l_next (tm_list s) (tm_head s)" _ fuel] assms(2,3)
    by (simp only: ktimer_check_def Let_def append_Nil simp_thms)
qed



definition ktimers_example :: "nat ktimers" where
  "ktimers_example =
     \<lparr>tm_tmr = (\<lambda>t. \<lparr>kt_func = t, kt_arg = 0, kt_expires = of_nat t, kt_dead = t \<noteq> 2 \<and> t \<noteq> 3\<rparr>),
      tm_list = list_pushback 1 3 (list_pushback 1 2 (list_init 1 \<lparr>l_prev = (\<lambda>_. 0), l_next = (\<lambda>_. 0)\<rparr>)),
      tm_head = 1, tm_tick = 2, tm_tick_ms = 1, tm_world = 0\<rparr>"

lemma ktimers_example_ok: "timers_ok ktimers_example [2, 3]"
  by (simp add: timers_ok_def ktimers_example_def list_rep_def list_pushback_def list_insert_before_def
      list_insert_after_def list_init_def Let_def)



end
