(* ===== verification/Task_Lock.thy ===== *)
theory Task_Lock
  imports Klib_List
begin

text \<open>
  The binary semaphore and the recursive lock of \<open>src/kernel/lock.c\<close>. The operations on the
  semaphore run with interrupts off (\<open>UNINTR_AREA\<close>) and are one step each, up to the call of
  \<open>task_block\<close>; every other access to the lock in \<open>lock_acquire\<close> and \<open>lock_release\<close> is a step of its own,
  so that any interleaving is covered. \<open>task_block\<close> puts the node \<open>blist\<close> of the task at
  the front of the list of waiters, \<open>sema_up\<close> takes the first node out; the list is the linked list in memory, because a
  signal can wake a waiter (\<open>kill\<close> calls \<open>task_unblock\<close>) whose node stays in the list. A failed assertion stops the kernel.
\<close>

text \<open>The nodes: the head of the list and the node of each task. \<open>CR\<close> gives the task of a node.\<close>

definition WAITER :: node_ref where "WAITER = 0"
definition blist :: "task_ref \<Rightarrow> node_ref" where "blist t = Suc t"
definition CR_blist :: "node_ref \<Rightarrow> task_ref" where "CR_blist n = n - 1"

record semaphore_t =
  sm_val :: int
  sm_waiter :: list_mem

record lock_t =
  lk_holder :: "task_ref option"
  lk_hrepeat :: u32
  lk_sema :: semaphore_t

definition sema_init :: "int \<Rightarrow> list_mem \<Rightarrow> semaphore_t" where
  "sema_init v m = \<lparr>sm_val = v, sm_waiter = list_init WAITER m\<rparr>"

text \<open>\<open>sema_up\<close> also returns the task that it unblocks. Taking the head itself for the node of a task would be a wild access.\<close>

definition sema_up :: "semaphore_t \<Rightarrow> (task_ref option \<times> semaphore_t) option" where
  "sema_up s = do {
     assertk (sm_val s = 0);
     let s = s\<lparr>sm_val := sm_val s + 1\<rparr>;
     assertk (sm_val s = 1);
     if \<not> list_empty WAITER (sm_waiter s) then do {
       let first = l_next (sm_waiter s) WAITER;
       assertk (first \<noteq> WAITER);
       Some (Some (CR_blist first), s\<lparr>sm_waiter := list_remove first (sm_waiter s)\<rparr>)
     } else Some (None, s)
   }"

text \<open>
  One round of \<open>sema_down\<close>: either task \<open>t\<close> goes to sleep as a waiter, and its next step is the test
  of the loop again, or it has taken the semaphore.
\<close>

datatype down_result = Slept semaphore_t | Taken semaphore_t

definition sema_down :: "task_ref \<Rightarrow> semaphore_t \<Rightarrow> down_result option" where
  "sema_down t s =
     (if sm_val s = 0 then Some (Slept (s\<lparr>sm_waiter := list_insert WAITER (blist t) (sm_waiter s)\<rparr>))
      else do {
        assertk (sm_val s = 1);
        let s = s\<lparr>sm_val := sm_val s - 1\<rparr>;
        assertk (sm_val s = 0);
        Some (Taken s)
      })"

definition lock_init :: "list_mem \<Rightarrow> lock_t" where
  "lock_init m = \<lparr>lk_holder = None, lk_hrepeat = 0, lk_sema = sema_init 1 m\<rparr>"

section \<open>Steps of the tasks\<close>

text \<open>
  Where a task is: outside (\<open>Idle\<close>), at the loop of \<open>sema_down\<close> (\<open>Down\<close>), blocked there (\<open>Asleep\<close>), before
  the two stores of \<open>lock_acquire\<close> (\<open>Got\<close>, \<open>Got2\<close>), holding the lock (\<open>Held\<close>), and after the first
  and the second store of \<open>lock_release\<close> (\<open>Rel1\<close>, \<open>Rel2\<close>).
\<close>

datatype lock_pc = Idle | Down | Asleep | Got | Got2 | Held | Rel1 | Rel2

record lock_sys =
  ls_lock :: lock_t
  ls_pc :: "task_ref \<Rightarrow> lock_pc"

abbreviation goto :: "task_ref \<Rightarrow> lock_pc \<Rightarrow> lock_sys \<Rightarrow> lock_sys" where
  "goto t p s \<equiv> s\<lparr>ls_pc := (ls_pc s)(t := p)\<rparr>"

abbreviation set_sema :: "semaphore_t \<Rightarrow> lock_sys \<Rightarrow> lock_sys" where
  "set_sema m s \<equiv> s\<lparr>ls_lock := (ls_lock s)\<lparr>lk_sema := m\<rparr>\<rparr>"

text \<open>\<open>acquire\<close> and \<open>release\<close>: the first access, where the task decides what to do.\<close>

definition acquire_enter :: "task_ref \<Rightarrow> lock_sys \<Rightarrow> lock_sys" where
  "acquire_enter t s =
     (if lk_holder (ls_lock s) \<noteq> Some t then goto t Down s
      else s\<lparr>ls_lock := (ls_lock s)\<lparr>lk_hrepeat := lk_hrepeat (ls_lock s) + 1\<rparr>\<rparr>)"

definition acquire_down :: "task_ref \<Rightarrow> lock_sys \<Rightarrow> lock_sys option" where
  "acquire_down t s = do {
     r \<leftarrow> sema_down t (lk_sema (ls_lock s));
     Some (case r of
        Slept m \<Rightarrow> goto t Asleep (set_sema m s)
      | Taken m \<Rightarrow> goto t Got (set_sema m s))
   }"

definition release_enter :: "task_ref \<Rightarrow> lock_sys \<Rightarrow> lock_sys option" where
  "release_enter t s = do {
     let l = ls_lock s;
     assertk (lk_holder l = Some t);
     Some (if lk_hrepeat l > 1 then s\<lparr>ls_lock := l\<lparr>lk_hrepeat := lk_hrepeat l - 1\<rparr>\<rparr>
           else goto t Rel1 (s\<lparr>ls_lock := l\<lparr>lk_holder := None\<rparr>\<rparr>))
   }"

text \<open>\<open>task_unblock\<close> has an effect on a blocked task only.\<close>

definition lock_unblock :: "task_ref \<Rightarrow> lock_sys \<Rightarrow> lock_sys" where
  "lock_unblock t s = (if ls_pc s t = Asleep then goto t Down s else s)"

definition release_up :: "task_ref \<Rightarrow> lock_sys \<Rightarrow> lock_sys option" where
  "release_up t s = do {
     (w, m) \<leftarrow> sema_up (lk_sema (ls_lock s));
     let s = goto t Idle (set_sema m s);
     Some (case w of None \<Rightarrow> s | Some u \<Rightarrow> lock_unblock u s)
   }"

text \<open>
  A step of task \<open>t\<close>; \<open>None\<close> as the next state is a stop of the kernel. A task calls \<open>lock_release\<close> only
  while it holds the lock.
\<close>

inductive lock_step :: "task_ref \<Rightarrow> lock_sys \<Rightarrow> lock_sys option \<Rightarrow> bool" where
  acquire: "ls_pc s t = Idle \<or> ls_pc s t = Held \<Longrightarrow> lock_step t s (Some (acquire_enter t s))"
| down: "ls_pc s t = Down \<Longrightarrow> lock_step t s (acquire_down t s)"
| got: "ls_pc s t = Got \<Longrightarrow> lock_step t s (Some (goto t Got2 (s\<lparr>ls_lock := (ls_lock s)\<lparr>lk_holder := Some t\<rparr>\<rparr>)))"
| got2: "ls_pc s t = Got2 \<Longrightarrow> lock_step t s (Some (goto t Held (s\<lparr>ls_lock := (ls_lock s)\<lparr>lk_hrepeat := 1\<rparr>\<rparr>)))"
| release: "ls_pc s t = Held \<Longrightarrow> lock_step t s (release_enter t s)"
| rel1: "ls_pc s t = Rel1 \<Longrightarrow> lock_step t s (Some (goto t Rel2 (s\<lparr>ls_lock := (ls_lock s)\<lparr>lk_hrepeat := 0\<rparr>\<rparr>)))"
| rel2: "ls_pc s t = Rel2 \<Longrightarrow> lock_step t s (release_up t s)"

definition lock_start :: "list_mem \<Rightarrow> lock_sys" where
  "lock_start m = \<lparr>ls_lock = lock_init m, ls_pc = (\<lambda>_. Idle)\<rparr>"

text \<open>The runs; with \<open>True\<close> a signal can wake a blocked task at any time.\<close>

inductive lock_run :: "bool \<Rightarrow> lock_sys \<Rightarrow> lock_sys \<Rightarrow> bool" where
  start: "lock_run b s s"
| step: "lock_run b s s' \<Longrightarrow> lock_step t s' (Some s'') \<Longrightarrow> lock_run b s s''"
| signal: "lock_run True s s' \<Longrightarrow> lock_run True s (lock_unblock t s')"

section \<open>Invariants\<close>

definition in_crit :: "lock_pc \<Rightarrow> bool" where
  "in_crit p \<longleftrightarrow> p \<in> {Got, Got2, Held, Rel1, Rel2}"

definition is_owner :: "lock_pc \<Rightarrow> bool" where
  "is_owner p \<longleftrightarrow> p \<in> {Got2, Held}"

text \<open>The tasks at a place that satisfies \<open>P\<close>.\<close>

definition tasks_at :: "(lock_pc \<Rightarrow> bool) \<Rightarrow> (task_ref \<Rightarrow> lock_pc) \<Rightarrow> task_ref set" where
  "tasks_at P pc = {t. P (pc t)}"

text \<open>What holds with signals, and what holds without: then the list of the waiters is intact.\<close>

definition lock_inv :: "lock_sys \<Rightarrow> bool" where
  "lock_inv s \<longleftrightarrow>
     (let v = sm_val (lk_sema (ls_lock s)); m = sm_waiter (lk_sema (ls_lock s)); pc = ls_pc s in
      (v = 1 \<and> tasks_at in_crit pc = {} \<or> v = 0 \<and> (\<exists>t. tasks_at in_crit pc = {t}))
      \<and> tasks_at is_owner pc = set_option (lk_holder (ls_lock s))
      \<and> (l_next m WAITER = WAITER \<longrightarrow> l_prev m WAITER = WAITER))"

definition waiters_inv :: "lock_sys \<Rightarrow> task_ref list \<Rightarrow> bool" where
  "waiters_inv s ws \<longleftrightarrow>
     (let v = sm_val (lk_sema (ls_lock s)); m = sm_waiter (lk_sema (ls_lock s)); pc = ls_pc s in
      list_rep m WAITER (map blist ws) \<and> set ws = tasks_at ((=) Asleep) pc
      \<and> (v = 1 \<and> ws \<noteq> [] \<longrightarrow> tasks_at ((=) Down) pc \<noteq> {}))"

lemma tasks_at_upd:
  "tasks_at P (pc(t := p)) = (if P p then insert t (tasks_at P pc) else tasks_at P pc - {t})"
  by (auto simp: tasks_at_def)

lemma tasks_at_iff: "t \<in> tasks_at P pc \<longleftrightarrow> P (pc t)"
  by (simp add: tasks_at_def)

lemma is_owner_simps [simp]:
  "is_owner Got2" "is_owner Held" "\<not> is_owner Idle" "\<not> is_owner Down" "\<not> is_owner Asleep"
  "\<not> is_owner Got" "\<not> is_owner Rel1" "\<not> is_owner Rel2"
  by (simp_all add: is_owner_def)

lemma in_crit_simps [simp]:
  "in_crit Got" "in_crit Got2" "in_crit Held" "in_crit Rel1" "in_crit Rel2"
  "\<not> in_crit Idle" "\<not> in_crit Down" "\<not> in_crit Asleep"
  by (simp_all add: in_crit_def)

lemma pc_cases:
  "ls_pc s t = p \<Longrightarrow> in_crit p \<longleftrightarrow> t \<in> tasks_at in_crit (ls_pc s)"
  "ls_pc s t = p \<Longrightarrow> is_owner p \<longleftrightarrow> t \<in> tasks_at is_owner (ls_pc s)"
  "ls_pc s t = p \<Longrightarrow> p = Asleep \<longleftrightarrow> t \<in> tasks_at ((=) Asleep) (ls_pc s)"
  "ls_pc s t = p \<Longrightarrow> p = Down \<longleftrightarrow> t \<in> tasks_at ((=) Down) (ls_pc s)"
  by (auto simp: tasks_at_def)

lemma lock_inv_start: "lock_inv (lock_start m)"
  by (simp add: lock_inv_def Let_def tasks_at_def lock_start_def lock_init_def sema_init_def list_init_def)

lemma holder_iff: "lock_inv s \<Longrightarrow> lk_holder (ls_lock s) = Some t \<longleftrightarrow> is_owner (ls_pc s t)"
  unfolding lock_inv_def Let_def by (metis elem_set tasks_at_iff)

lemma lock_unblock_inv:
  assumes "lock_inv s"
  shows "lock_inv (lock_unblock t s)"
proof (cases "ls_pc s t = Asleep")
  case True
  then show ?thesis using assms pc_cases [OF True] by (simp add: lock_unblock_def lock_inv_def Let_def tasks_at_upd)
qed (use assms in \<open>simp add: lock_unblock_def\<close>)

lemma acquire_enter_inv:
  assumes "lock_inv s" "ls_pc s t = Idle \<or> ls_pc s t = Held"
  shows "lock_inv (acquire_enter t s)"
proof (cases "ls_pc s t = Held")
  case True
  then show ?thesis using assms(1) holder_iff [OF assms(1), of t] by (simp add: acquire_enter_def lock_inv_def Let_def)
next
  case False
  then have pc: "ls_pc s t = Idle" using assms(2) by simp
  then have "lk_holder (ls_lock s) \<noteq> Some t" using holder_iff [OF assms(1), of t] by simp
  then show ?thesis using assms(1) pc_cases [OF pc]
    by (simp add: acquire_enter_def lock_inv_def Let_def tasks_at_upd)
qed

lemma insert_first [simp]: "l_next (list_insert WAITER (blist t) m) WAITER = blist t" "blist t \<noteq> WAITER" "CR_blist (blist t) = t"
  by (simp_all add: list_insert_def list_insert_after_def Let_def blist_def WAITER_def CR_blist_def)

lemma acquire_down_inv:
  assumes "lock_inv s" "ls_pc s t = Down"
  shows "\<exists>s'. acquire_down t s = Some s' \<and> lock_inv s'"
proof (cases "sm_val (lk_sema (ls_lock s)) = 0")
  case True
  then show ?thesis using assms(1) pc_cases [OF assms(2)]
    by (simp add: acquire_down_def sema_down_def lock_inv_def Let_def tasks_at_upd)
next
  case False
  then have v: "sm_val (lk_sema (ls_lock s)) = 1" using assms(1) by (auto simp: lock_inv_def Let_def)
  then show ?thesis using assms(1) pc_cases [OF assms(2)]
    by (simp add: acquire_down_def sema_down_def lock_inv_def Let_def tasks_at_upd)
qed

text \<open>A task that moves inside the critical part keeps the semaphore and the waiters.\<close>

lemma crit_move_inv:
  assumes "lock_inv s" "ls_pc s t = p" "in_crit p" "in_crit q"
    and "lk_holder l = (if is_owner q then Some t else None)" "lk_sema l = lk_sema (ls_lock s)"
  shows "lock_inv (goto t q (s\<lparr>ls_lock := l\<rparr>))"
proof -
  have crit: "tasks_at in_crit (ls_pc s) = {t}"
    using assms(1) pc_cases(1) [OF assms(2)] assms(3) by (auto simp: lock_inv_def Let_def)
  have "tasks_at is_owner (ls_pc s) \<subseteq> tasks_at in_crit (ls_pc s)"
    by (auto simp: tasks_at_def is_owner_def in_crit_def)
  then have own: "tasks_at is_owner (ls_pc s) \<subseteq> {t}" using crit by simp
  then show ?thesis
    using assms(1,5,6) own crit assms(4) pc_cases [OF assms(2)]
    by (auto simp: lock_inv_def Let_def tasks_at_upd)
qed

lemma holder_none:
  assumes "lock_inv s" "ls_pc s t = Rel1"
  shows "lk_holder (ls_lock s) = None"
proof (rule ccontr)
  assume "lk_holder (ls_lock s) \<noteq> None"
  then obtain u where "lk_holder (ls_lock s) = Some u" by auto
  then have "is_owner (ls_pc s u)" using holder_iff [OF assms(1)] by simp
  then have "u \<in> tasks_at in_crit (ls_pc s)" "t \<in> tasks_at in_crit (ls_pc s)" "u \<noteq> t"
    using assms(2) by (auto simp: tasks_at_iff is_owner_def)
  then show False using assms(1) by (auto simp: lock_inv_def Let_def)
qed

lemma remove_first:
  "l_next m l = f \<Longrightarrow> f \<noteq> l \<Longrightarrow> l_next (list_remove f m) l = l \<Longrightarrow> l_prev (list_remove f m) l = l"
  by (auto simp: list_remove_def Let_def split: if_splits)

lemma release_up_eq:
  "sema_up (lk_sema (ls_lock s)) = Some (w, m) \<Longrightarrow> release_up t s
    = Some (case w of None \<Rightarrow> goto t Idle (set_sema m s) | Some u \<Rightarrow> lock_unblock u (goto t Idle (set_sema m s)))"
  by (simp add: release_up_def Let_def split: option.split)

lemma release_up_cases:
  assumes "lock_inv s" "ls_pc s t = Rel2"
  obtains w m where "sema_up (lk_sema (ls_lock s)) = Some (w, m)" "lock_inv (goto t Idle (set_sema m s))"
    "release_up t s = Some (case w of None \<Rightarrow> goto t Idle (set_sema m s) | Some u \<Rightarrow> lock_unblock u (goto t Idle (set_sema m s)))"
proof -
  let ?m = "lk_sema (ls_lock s)"
  have crit: "tasks_at in_crit (ls_pc s) = {t}" and v: "sm_val ?m = 0"
    and e: "l_next (sm_waiter ?m) WAITER = WAITER \<longrightarrow> l_prev (sm_waiter ?m) WAITER = WAITER"
    using assms(1) pc_cases(1) [OF assms(2)] by (auto simp: lock_inv_def Let_def)
  have "\<exists>w m. sema_up ?m = Some (w, m) \<and> sm_val m = 1 \<and> (l_next (sm_waiter m) WAITER = WAITER \<longrightarrow> l_prev (sm_waiter m) WAITER = WAITER)"
  proof (cases "list_empty WAITER (sm_waiter ?m)")
    case True
    then show ?thesis using v e by (simp add: sema_up_def)
  next
    case False
    then have "l_next (sm_waiter ?m) WAITER \<noteq> WAITER" using e by (auto simp: list_empty_def)
    then show ?thesis using v False remove_first [OF refl, of "sm_waiter ?m" WAITER] by (simp add: sema_up_def Let_def)
  qed
  then obtain w m where m: "sema_up ?m = Some (w, m)" "sm_val m = 1" "l_next (sm_waiter m) WAITER = WAITER \<longrightarrow> l_prev (sm_waiter m) WAITER = WAITER" by blast
  moreover have "lock_inv (goto t Idle (set_sema m s))"
    using assms(1) m(2,3) crit v pc_cases [OF assms(2)] by (simp add: lock_inv_def Let_def tasks_at_upd)
  ultimately show thesis using that [OF _ _ release_up_eq] by blast
qed

lemma release_up_inv:
  assumes "lock_inv s" "ls_pc s t = Rel2"
  shows "\<exists>s'. release_up t s = Some s' \<and> lock_inv s'"
  by (rule release_up_cases [OF assms]) (auto simp: lock_unblock_inv split: option.split)

lemma lock_step_inv:
  assumes "lock_step t s r" "lock_inv s"
  shows "\<exists>s'. r = Some s' \<and> lock_inv s'"
  using assms
proof cases
  case acquire
  then show ?thesis using acquire_enter_inv assms(2) by blast
next
  case down
  then show ?thesis using acquire_down_inv assms(2) by blast
next
  case got
  then show ?thesis
    using crit_move_inv [OF assms(2) got(2), of Got2 "(ls_lock s)\<lparr>lk_holder := Some t\<rparr>"] by simp
next
  case got2
  then have "lk_holder (ls_lock s) = Some t" using holder_iff [OF assms(2)] by simp
  then show ?thesis
    using crit_move_inv [OF assms(2) got2(2), of Held "(ls_lock s)\<lparr>lk_hrepeat := 1\<rparr>"] got2 by simp
next
  case release
  then have h: "lk_holder (ls_lock s) = Some t" using holder_iff [OF assms(2)] by simp
  then have "lock_inv (goto t Rel1 (s\<lparr>ls_lock := (ls_lock s)\<lparr>lk_holder := None\<rparr>\<rparr>))"
    using crit_move_inv [OF assms(2) release(2), of Rel1 "(ls_lock s)\<lparr>lk_holder := None\<rparr>"] by simp
  moreover have "lock_inv (s\<lparr>ls_lock := (ls_lock s)\<lparr>lk_hrepeat := k\<rparr>\<rparr>)" for k
    using assms(2) by (simp add: lock_inv_def)
  ultimately show ?thesis using release h by (simp add: release_enter_def Let_def)
next
  case rel1
  then show ?thesis
    using crit_move_inv [OF assms(2) rel1(2), of Rel2 "(ls_lock s)\<lparr>lk_hrepeat := 0\<rparr>"] holder_none [OF assms(2)] by simp
next
  case rel2
  then show ?thesis using release_up_inv assms(2) by blast
qed

lemma lock_run_inv: "lock_run b s s' \<Longrightarrow> lock_inv s \<Longrightarrow> lock_inv s'"
proof (induction rule: lock_run.induct)
  case (step b s s' t s'')
  then show ?case using lock_step_inv by blast
qed (use lock_unblock_inv in auto)

text \<open>
  C5: in every interleaving of tasks that use the lock, also when signals wake tasks that wait for it, at most one task is between the end of \<open>sema_down\<close>
  and the end of \<open>sema_up\<close>, the lock names it as its holder while it holds the lock, and no
  assertion of the semaphore or of the lock fails.
\<close>

theorem lock_mutual_exclusion:
  assumes "lock_run b (lock_start m) s"
  shows "(in_crit (ls_pc s t) \<longrightarrow> in_crit (ls_pc s u) \<longrightarrow> t = u)
    \<and> (ls_pc s t = Held \<longrightarrow> lk_holder (ls_lock s) = Some t)
    \<and> \<not> lock_step t s None"
proof (intro conjI impI)
  have inv: "lock_inv s" using lock_run_inv [OF assms lock_inv_start] .
  show "t = u" if "in_crit (ls_pc s t)" "in_crit (ls_pc s u)"
    using inv that tasks_at_iff [of t in_crit "ls_pc s"] tasks_at_iff [of u in_crit "ls_pc s"]
    by (auto simp: lock_inv_def Let_def)
  show "lk_holder (ls_lock s) = Some t" if "ls_pc s t = Held"
    using holder_iff [OF inv, of t] that by simp
  show "\<not> lock_step t s None" using lock_step_inv [OF _ inv] by blast
qed


section \<open>The waiters, without signals\<close>

lemma waiters_inv_start: "waiters_inv (lock_start m) []"
  by (simp add: waiters_inv_def Let_def tasks_at_def lock_start_def lock_init_def sema_init_def list_init_rep)

lemma blist_mem [simp]: "blist t \<in> set (map blist ws) \<longleftrightarrow> t \<in> set ws" "WAITER \<notin> set (map blist ws)"
  by (auto simp: blist_def WAITER_def)

text \<open>A step that leaves the semaphore alone and neither wakes a task nor puts it to sleep.\<close>

lemma waiters_keep:
  assumes "waiters_inv s ws" "ls_pc s t = p" "p \<notin> {Asleep, Down}" "q \<noteq> Asleep" "lk_sema l = lk_sema (ls_lock s)"
  shows "waiters_inv (goto t q (s\<lparr>ls_lock := l\<rparr>)) ws"
  using assms pc_cases(3,4) [OF assms(2)] by (auto simp: waiters_inv_def Let_def tasks_at_upd)

lemma waiters_same:
  "waiters_inv s ws \<Longrightarrow> lk_sema l = lk_sema (ls_lock s) \<Longrightarrow> waiters_inv (s\<lparr>ls_lock := l\<rparr>) ws"
  by (simp add: waiters_inv_def)

lemma waiters_down:
  assumes "lock_inv s" "waiters_inv s ws" "ls_pc s t = Down" "acquire_down t s = Some s'"
  shows "\<exists>ws'. waiters_inv s' ws'"
proof (cases "sm_val (lk_sema (ls_lock s)) = 0")
  case True
  have rep: "list_rep (sm_waiter (lk_sema (ls_lock s))) WAITER (map blist ws)" and ws: "set ws = tasks_at ((=) Asleep) (ls_pc s)"
    using assms(2) by (auto simp: waiters_inv_def Let_def)
  moreover have "t \<notin> set ws" using ws assms(3) by (simp add: tasks_at_iff)
  ultimately have "list_rep (list_insert WAITER (blist t) (sm_waiter (lk_sema (ls_lock s)))) WAITER (map blist (t # ws))"
    using insert_after_rep [of "sm_waiter (lk_sema (ls_lock s))" WAITER "[]" "map blist ws" "blist t"]
    by (simp add: list_insert_def del: set_map)
  then have "waiters_inv s' (t # ws)" using True assms(4) ws
    by (auto simp: acquire_down_def sema_down_def waiters_inv_def Let_def tasks_at_upd)
  then show ?thesis ..
next
  case False
  then have v: "sm_val (lk_sema (ls_lock s)) = 1" using assms(1) by (auto simp: lock_inv_def Let_def)
  then have "s' = goto t Got (set_sema ((lk_sema (ls_lock s))\<lparr>sm_val := 0\<rparr>) s)"
    using assms(4) by (simp add: acquire_down_def sema_down_def)
  then have "waiters_inv s' ws" using assms(2) pc_cases(3) [OF assms(3)]
    by (simp add: waiters_inv_def Let_def tasks_at_upd)
  then show ?thesis ..
qed

lemma waiters_up:
  assumes "lock_inv s" "waiters_inv s ws" "ls_pc s t = Rel2" "release_up t s = Some s'"
  shows "\<exists>ws'. waiters_inv s' ws'"
proof -
  let ?l = "lk_sema (ls_lock s)"
  have rep: "list_rep (sm_waiter ?l) WAITER (map blist ws)" and ws: "set ws = tasks_at ((=) Asleep) (ls_pc s)"
    using assms(2) by (auto simp: waiters_inv_def Let_def)
  have v: "sm_val ?l = 0" using assms(1) pc_cases(1) [OF assms(3)] by (auto simp: lock_inv_def Let_def)
  show ?thesis
  proof (cases ws)
    case Nil
    then have "waiters_inv s' []" using v rep assms(4) list_empty_rep [OF rep] ws pc_cases(3) [OF assms(3)]
      by (auto simp: release_up_def sema_up_def waiters_inv_def Let_def tasks_at_upd)
    then show ?thesis ..
  next
    case (Cons u us)
    then have first: "l_next (sm_waiter ?l) WAITER = blist u" using rep by (simp add: list_rep_def)
    have "u \<in> tasks_at ((=) Asleep) (ls_pc s)" using ws Cons by auto
    then have u: "ls_pc s u = Asleep" "u \<noteq> t" using assms(3) by (auto simp: tasks_at_iff)
    have d: "u \<notin> set us" using rep Cons by (auto simp: list_rep_def)
    have rep': "list_rep (list_remove (blist u) (sm_waiter ?l)) WAITER (map blist us)"
      using list_remove_rep [of _ _ "[]"] rep Cons by simp
    let ?s = "goto u Down (goto t Idle (set_sema (?l\<lparr>sm_val := 1, sm_waiter := list_remove (blist u) (sm_waiter ?l)\<rparr>) s))"
    have "s' = ?s"
      using v first Cons assms(4) list_empty_rep [OF rep] u
      by (simp add: release_up_def sema_up_def lock_unblock_def Let_def)
    moreover have "waiters_inv ?s us"
      using rep' ws Cons u d pc_cases(3) [OF assms(3)] by (auto simp: waiters_inv_def Let_def tasks_at_upd)
    ultimately show ?thesis by blast
  qed
qed

lemma waiters_step:
  assumes "lock_step t s (Some s')" "lock_inv s" "waiters_inv s ws"
  shows "\<exists>ws'. waiters_inv s' ws'"
proof -
  have same: "waiters_inv (s\<lparr>ls_lock := (ls_lock s)\<lparr>lk_hrepeat := k\<rparr>\<rparr>) ws" for k
    using waiters_same [OF assms(3)] by simp
  have keep: "s' = goto t q (s\<lparr>ls_lock := l\<rparr>) \<Longrightarrow> ls_pc s t \<notin> {Asleep, Down} \<Longrightarrow> q \<noteq> Asleep \<Longrightarrow> lk_sema l = lk_sema (ls_lock s)
      \<Longrightarrow> ?thesis" for q l
    using waiters_keep [OF assms(3) refl] by blast
  from assms(1) show ?thesis
  proof cases
    case acquire
    show ?thesis
    proof (cases "lk_holder (ls_lock s) = Some t")
      case True
      then show ?thesis using acquire(1) same by (auto simp: acquire_enter_def)
    next
      case False
      then show ?thesis using acquire keep [of "ls_lock s" Down] by (auto simp: acquire_enter_def)
    qed
  next
    case down
    then show ?thesis using waiters_down [OF assms(2,3)] by metis
  next
    case got
    then show ?thesis using keep [of "(ls_lock s)\<lparr>lk_holder := Some t\<rparr>" Got2] by simp
  next
    case got2
    then show ?thesis using keep [of "(ls_lock s)\<lparr>lk_hrepeat := 1\<rparr>" Held] by simp
  next
    case release
    show ?thesis
    proof (cases "lk_hrepeat (ls_lock s) > 1")
      case True
      then show ?thesis using release(1) same by (auto simp: release_enter_def Let_def assertk_def split: if_splits)
    next
      case False
      then show ?thesis using release keep [of "(ls_lock s)\<lparr>lk_holder := None\<rparr>" Rel1]
        by (auto simp: release_enter_def Let_def assertk_def split: if_splits)
    qed
  next
    case rel1
    then show ?thesis using keep [of "(ls_lock s)\<lparr>lk_hrepeat := 0\<rparr>" Rel2] by simp
  next
    case rel2
    then show ?thesis using waiters_up [OF assms(2,3)] by metis
  qed
qed

lemma waiters_run: "lock_run b s s' \<Longrightarrow> \<not> b \<Longrightarrow> lock_inv s \<Longrightarrow> waiters_inv s ws \<Longrightarrow> \<exists>ws'. waiters_inv s' ws'"
proof (induction rule: lock_run.induct)
  case (step b s s' t s'')
  then show ?case using lock_run_inv waiters_step by blast
qed auto


section \<open>A run with a signal\<close>

text \<open>The next step of a task that acquires the lock when it does not have it and releases it when it has it.\<close>

definition lock_next :: "task_ref \<Rightarrow> lock_sys \<Rightarrow> lock_sys option" where
  "lock_next t s = (case ls_pc s t of
      Idle \<Rightarrow> Some (acquire_enter t s)
    | Down \<Rightarrow> acquire_down t s
    | Asleep \<Rightarrow> None
    | Got \<Rightarrow> Some (goto t Got2 (s\<lparr>ls_lock := (ls_lock s)\<lparr>lk_holder := Some t\<rparr>\<rparr>))
    | Got2 \<Rightarrow> Some (goto t Held (s\<lparr>ls_lock := (ls_lock s)\<lparr>lk_hrepeat := 1\<rparr>\<rparr>))
    | Held \<Rightarrow> release_enter t s
    | Rel1 \<Rightarrow> Some (goto t Rel2 (s\<lparr>ls_lock := (ls_lock s)\<lparr>lk_hrepeat := 0\<rparr>\<rparr>))
    | Rel2 \<Rightarrow> release_up t s)"

lemma lock_next_step: "lock_next t s = Some s' \<Longrightarrow> lock_step t s (Some s')"
  by (cases "ls_pc s t") (auto simp: lock_next_def lock_step.simps)

text \<open>A schedule names the tasks in the order of their steps; \<open>True\<close> marks a signal that is sent to the task.\<close>

fun lock_sched :: "(bool \<times> task_ref) list \<Rightarrow> lock_sys \<Rightarrow> lock_sys option" where
  "lock_sched [] s = Some s"
| "lock_sched ((sig, t) # ts) s = (if sig then lock_sched ts (lock_unblock t s) else Option.bind (lock_next t s) (lock_sched ts))"

lemma lock_sched_run:
  "lock_sched ts s' = Some s'' \<Longrightarrow> lock_run True s s' \<Longrightarrow> lock_run True s s''"
proof (induction ts s' rule: lock_sched.induct)
  case (2 sig t ts s')
  then show ?case
    by (auto split: if_splits bind_splits intro: lock_run.signal lock_run.step lock_next_step)
qed simp

definition zero_mem :: list_mem where "zero_mem = \<lparr>l_prev = (\<lambda>_. 0), l_next = (\<lambda>_. 0)\<rparr>"

definition lost_sched :: "(bool \<times> task_ref) list" where
  "lost_sched = map (Pair False) [2, 1, 2, 3, 3, 1] @ [(True, 1)]
     @ map (Pair False) [1, 2, 2, 2, 2, 2, 1, 1, 1, 1, 1, 1]"

lemmas lost_eval = lost_sched_def zero_mem_def lock_next_def acquire_enter_def acquire_down_def release_enter_def
  release_up_def sema_up_def sema_down_def lock_unblock_def lock_start_def lock_init_def sema_init_def
  list_init_def list_insert_def list_insert_after_def list_remove_def list_empty_def WAITER_def blist_def CR_blist_def
  Let_def assertk_def

text \<open>No other node leads to the node of task \<open>t\<close>, which sleeps.\<close>

definition forgotten :: "task_ref \<Rightarrow> lock_sys \<Rightarrow> bool" where
  "forgotten t s \<longleftrightarrow> ls_pc s t = Asleep
     \<and> (\<forall>n. n \<noteq> blist t \<longrightarrow> l_next (sm_waiter (lk_sema (ls_lock s))) n \<noteq> blist t)"

lemma lost_run:
  "\<exists>s. lock_sched lost_sched (lock_start zero_mem) = Some s \<and> sm_val (lk_sema (ls_lock s)) = 1
     \<and> lk_holder (ls_lock s) = None \<and> ls_pc s = (\<lambda>_. Idle)(3 := Asleep) \<and> forgotten 3 s"
  by (simp add: lost_eval forgotten_def) (simp add: fun_eq_iff)

lemma next_insert:
  "n \<noteq> b \<Longrightarrow> l_next m l \<noteq> b \<Longrightarrow> l \<noteq> b \<Longrightarrow> \<forall>k. k \<noteq> b \<longrightarrow> l_next m k \<noteq> b \<Longrightarrow> k \<noteq> b \<Longrightarrow> l_next (list_insert l n m) k \<noteq> b"
  by (simp add: list_insert_def list_insert_after_def Let_def)

lemma next_remove:
  "n \<noteq> b \<Longrightarrow> b \<noteq> 0 \<Longrightarrow> \<forall>k. k \<noteq> b \<longrightarrow> l_next m k \<noteq> b \<Longrightarrow> k \<noteq> b \<Longrightarrow> l_next (list_remove n m) k \<noteq> b"
  by (simp add: list_remove_def Let_def)

lemma forgotten_down:
  assumes "acquire_down u s = Some s'" "ls_pc s u = Down" "forgotten t s"
  shows "forgotten t s'"
proof -
  let ?l = "lk_sema (ls_lock s)"
  have ut: "u \<noteq> t" and n: "\<forall>n. n \<noteq> blist t \<longrightarrow> l_next (sm_waiter ?l) n \<noteq> blist t"
    using assms(2,3) by (auto simp: forgotten_def)
  from assms(1) consider "s' = goto u Asleep (set_sema (?l\<lparr>sm_waiter := list_insert WAITER (blist u) (sm_waiter ?l)\<rparr>) s)"
    | "s' = goto u Got (set_sema (?l\<lparr>sm_val := sm_val ?l - 1\<rparr>) s)"
    by (auto simp: acquire_down_def sema_down_def assertk_def Let_def split: if_splits)
  then show ?thesis
  proof cases
    case 1
    have "\<forall>k. k \<noteq> blist t \<longrightarrow> l_next (list_insert WAITER (blist u) (sm_waiter ?l)) k \<noteq> blist t"
      using next_insert [OF _ _ _ n] n ut by (simp add: blist_def WAITER_def)
    then show ?thesis using 1 ut assms(3) by (simp add: forgotten_def)
  next
    case 2
    then show ?thesis using ut assms(3) by (simp add: forgotten_def)
  qed
qed

lemma forgotten_up:
  assumes "release_up u s = Some s'" "ls_pc s u = Rel2" "forgotten t s"
  shows "forgotten t s'"
proof -
  let ?l = "lk_sema (ls_lock s)" and ?f = "l_next (sm_waiter (lk_sema (ls_lock s))) WAITER"
  have ut: "u \<noteq> t" and n: "\<forall>n. n \<noteq> blist t \<longrightarrow> l_next (sm_waiter ?l) n \<noteq> blist t"
    using assms(2,3) by (auto simp: forgotten_def)
  from assms(1) consider "s' = goto u Idle (set_sema (?l\<lparr>sm_val := sm_val ?l + 1\<rparr>) s)"
    | "?f \<noteq> WAITER" "s' = lock_unblock (CR_blist ?f) (goto u Idle (set_sema (?l\<lparr>sm_val := sm_val ?l + 1,
        sm_waiter := list_remove ?f (sm_waiter ?l)\<rparr>) s))"
    by (auto simp: release_up_def sema_up_def assertk_def Let_def split: if_splits)
  then show ?thesis
  proof cases
    case 1
    then show ?thesis using ut assms(3) by (simp add: forgotten_def)
  next
    case 2
    have f: "?f \<noteq> blist t" using n by (simp add: blist_def WAITER_def)
    then have "CR_blist ?f \<noteq> t" using 2(1) by (auto simp: blist_def CR_blist_def WAITER_def)
    moreover have "\<forall>k. k \<noteq> blist t \<longrightarrow> l_next (list_remove ?f (sm_waiter ?l)) k \<noteq> blist t"
      using next_remove [OF f _ n] by (simp add: blist_def)
    ultimately show ?thesis using 2 ut assms(3) by (simp add: forgotten_def lock_unblock_def)
  qed
qed

lemma forgotten_step:
  assumes "lock_step u s (Some s')" "forgotten t s"
  shows "forgotten t s'"
  using assms(1)
proof cases
  case down
  then show ?thesis using forgotten_down assms(2) by simp
next
  case rel2
  then show ?thesis using forgotten_up assms(2) by simp
next
  case release
  then show ?thesis using assms(2)
    by (auto simp: forgotten_def release_enter_def assertk_def Let_def split: if_splits)
qed (use assms(2) in \<open>auto simp: forgotten_def acquire_enter_def\<close>)

lemma forgotten_run: "lock_run b s s' \<Longrightarrow> \<not> b \<Longrightarrow> forgotten t s \<Longrightarrow> forgotten t s'"
proof (induction rule: lock_run.induct)
  case (step b s s' u s'')
  then show ?case using forgotten_step by blast
qed auto

text \<open>
  C0: a signal that wakes a waiter can make the lock forget another one. The woken task finds the lock taken and
  puts its node, which is still linked, at the front again, and the nodes after it are lost. There is a run of three tasks
  in which the lock is free at the end, two of them are outside, and the third sleeps and no step of any task wakes
  it again, however the run goes on without another signal.
\<close>

theorem lock_signal_lost:
  "\<exists>s. lock_run True (lock_start zero_mem) s \<and> sm_val (lk_sema (ls_lock s)) = 1 \<and> lk_holder (ls_lock s) = None
     \<and> ls_pc s = (\<lambda>_. Idle)(3 := Asleep) \<and> (\<forall>s'. lock_run False s s' \<longrightarrow> ls_pc s' 3 = Asleep)"
proof -
  obtain s where s: "lock_sched lost_sched (lock_start zero_mem) = Some s" "sm_val (lk_sema (ls_lock s)) = 1"
    "lk_holder (ls_lock s) = None" "ls_pc s = (\<lambda>_. Idle)(3 := Asleep)" "forgotten 3 s"
    using lost_run by blast
  have "lock_run True (lock_start zero_mem) s" using lock_sched_run [OF s(1) lock_run.start] .
  moreover have "\<forall>s'. lock_run False s s' \<longrightarrow> ls_pc s' 3 = Asleep"
    using forgotten_run [OF _ _ s(5)] by (auto simp: forgotten_def)
  ultimately show ?thesis using s by blast
qed

theorem lock_signal_lost_witness:
  "\<exists>s. lock_run True (lock_start zero_mem) s \<and> ls_pc s 3 = Asleep \<and> lock_run False s s"
  using lock_signal_lost lock_run.start by (metis fun_upd_same)

section \<open>Witnesses\<close>

lemma lock_run_one: "lock_run b (lock_start m) (acquire_enter 1 (lock_start m))"
proof (rule lock_run.step [OF lock_run.start])
  show "lock_step 1 (lock_start m) (Some (acquire_enter 1 (lock_start m)))"
    by (rule lock_step.acquire) (simp add: lock_start_def)
qed

theorem lock_mutual_exclusion_witness: "\<not> lock_step 1 (acquire_enter 1 (lock_start zero_mem)) None"
  using lock_mutual_exclusion [OF lock_run_one, where t = 1 and u = 1] by blast


end
