(* ===== verification/Klib_Time.thy ===== *)
theory Klib_Time
  imports Textos_Prelude
begin

text \<open>
  Calendar time, \<open>src/kernel/klib/time.c\<close>: the conversion of a broken-down time into seconds since
  1970 and back. The fields have the widths of \<open>rtc_tm_t\<close> (\<open>src/include/textos/time.h\<close>), the
  arithmetic of \<open>time_stamp\<close> is done at the width C gives it. An access outside of the month
  table is \<open>None\<close>. The year counter of \<open>time_rtctm\<close> is a C \<open>int\<close> that only grows from 1970 on; it is a
  natural number here.
\<close>

record rtc_tm_t =
  tm_second :: u8
  tm_minute :: u8
  tm_hour :: u8
  tm_day :: u8
  tm_month :: u8
  tm_year :: u32

definition month_days :: "u32 list" where
  "month_days =
     [0,
      31,
      31 + 28,
      31 + 28 + 31,
      31 + 28 + 31 + 30,
      31 + 28 + 31 + 30 + 31,
      31 + 28 + 31 + 30 + 31 + 30,
      31 + 28 + 31 + 30 + 31 + 30 + 31,
      31 + 28 + 31 + 30 + 31 + 30 + 31 + 31,
      31 + 28 + 31 + 30 + 31 + 30 + 31 + 31 + 30,
      31 + 28 + 31 + 30 + 31 + 30 + 31 + 31 + 30 + 31,
      31 + 28 + 31 + 30 + 31 + 30 + 31 + 31 + 30 + 31 + 30,
      31 + 28 + 31 + 30 + 31 + 30 + 31 + 31 + 30 + 31 + 30 + 31]"

definition LEAP_CKR :: "nat \<Rightarrow> bool" where
  "LEAP_CKR year \<longleftrightarrow> (if year mod 100 = 0 then year mod 400 = 0 else year mod 4 = 0)"

definition TS_MINUTE :: nat where "TS_MINUTE = 60"
definition TS_HOUR :: nat where "TS_HOUR = 60 * 60"
definition TS_DAY :: nat where "TS_DAY = 60 * 60 * 24"

definition DIV_ROUND_UP :: "u64 \<Rightarrow> u64 \<Rightarrow> u64" where
  "DIV_ROUND_UP n d = (n + (d - 1)) div d"

text \<open>The days that the leap years before \<open>Y\<close> add.\<close>

definition leap_offset :: "u64 \<Rightarrow> u64" where
  "leap_offset Y = DIV_ROUND_UP (Y - 1972) 4 - DIV_ROUND_UP (Y - 2000) 100 + DIV_ROUND_UP (Y - 2000) 400"

definition time_stamp :: "rtc_tm_t \<Rightarrow> u64 option" where
  "time_stamp tm = do {
     let Y = (ucast (tm_year tm) :: u64);
     let offset = leap_offset Y;
     let common = (ucast ((tm_year tm - 1970) * 365) :: u64);
     assertk (1 \<le> tm_month tm \<and> unat (tm_month tm) \<le> length month_days);
     let days = month_days ! (unat (tm_month tm) - 1)
              + (if tm_month tm > 2 \<and> LEAP_CKR (unat (tm_year tm)) then 1 else 0)
              + (ucast (tm_day tm) - 1);
     Some ((common + offset + ucast days) * of_nat TS_DAY
           + of_nat (unat (tm_hour tm) * TS_HOUR)
           + of_nat (unat (tm_minute tm) * TS_MINUTE)
           + ucast (tm_second tm))
   }"

definition year_days :: "nat \<Rightarrow> u64" where
  "year_days year = (if LEAP_CKR year then 366 else 365)"

lemma year_days_pos: "0 < unat (year_days year)"
  by (simp add: year_days_def)

function rtc_year_loop :: "nat \<Rightarrow> u64 \<Rightarrow> nat \<times> u64" where
  "rtc_year_loop year days_left =
     (if days_left < year_days year then (year, days_left)
      else rtc_year_loop (year + 1) (days_left - year_days year))"
  by pat_completeness auto

termination
proof (relation "measure (\<lambda>(y, d). unat d)")
  fix year days_left
  assume "\<not> days_left < year_days year"
  then have "year_days year \<le> days_left" by simp
  then have "unat (days_left - year_days year) = unat days_left - unat (year_days year)"
    "unat (year_days year) \<le> unat days_left"
    by (simp_all add: unat_sub_le word_le_nat_alt)
  then show "((year + 1, days_left - year_days year), (year, days_left)) \<in> measure (\<lambda>(y, d). unat d)"
    using year_days_pos [of year] by simp
qed simp

declare rtc_year_loop.simps [simp del]

text \<open>The entry of the month table, with the leap day; \<open>i\<close> is the number of full months.\<close>

definition cum_days :: "bool \<Rightarrow> nat \<Rightarrow> u64" where
  "cum_days leap i = ucast (month_days ! i + (if leap \<and> i \<ge> 2 then 1 else 0))"

fun rtc_month_loop :: "bool \<Rightarrow> u64 \<Rightarrow> nat \<Rightarrow> nat \<Rightarrow> nat \<times> u64" where
  "rtc_month_loop leap days_left i 0 = (i, 0)"
| "rtc_month_loop leap days_left i (Suc n) =
     (if days_left < cum_days leap i then (i, cum_days leap (i - 1))
      else rtc_month_loop leap days_left (i + 1) n)"

definition time_rtctm :: "u64 \<Rightarrow> rtc_tm_t" where
  "time_rtctm ts =
     (let days_total = ts div of_nat TS_DAY;
          seconds_in_day = ts mod of_nat TS_DAY;
          (year, days_left) = rtc_year_loop 1970 days_total;
          is_leap = LEAP_CKR year;
          (i, prev_days) = rtc_month_loop is_leap days_left 1 12;
          hour = seconds_in_day div of_nat TS_HOUR;
          seconds_in_hour = seconds_in_day mod of_nat TS_HOUR
      in \<lparr>tm_second = ucast (seconds_in_hour mod of_nat TS_MINUTE),
          tm_minute = ucast (seconds_in_hour div of_nat TS_MINUTE),
          tm_hour = ucast hour,
          tm_day = ucast (days_left - prev_days + 1),
          tm_month = of_nat i,
          tm_year = of_nat year\<rparr>)"

section \<open>Counting days\<close>

definition ydays :: "nat \<Rightarrow> nat" where
  "ydays y = 365 + (if LEAP_CKR y then 1 else 0)"

definition days_before :: "nat \<Rightarrow> nat" where
  "days_before y = (\<Sum>k = 1970..<y. ydays k)"

lemma unat_year_days [simp]: "unat (year_days y) = ydays y"
  by (simp add: year_days_def ydays_def)

lemma days_before_Suc: "1970 \<le> y \<Longrightarrow> days_before (Suc y) = days_before y + ydays y"
  by (simp add: days_before_def)

lemma year_loop_spec:
  assumes "1970 \<le> y" "rtc_year_loop y d = (y', r)"
  shows "1970 \<le> y' \<and> days_before y + unat d = days_before y' + unat r \<and> unat r < ydays y'"
  using assms
proof (induction y d rule: rtc_year_loop.induct)
  case (1 y d)
  show ?case
  proof (cases "d < year_days y")
    case True
    then show ?thesis
      using 1 by (simp add: rtc_year_loop.simps [of y d] word_less_nat_alt)
  next
    case False
    then have "year_days y \<le> d" by simp
    then have "unat (d - year_days y) + ydays y = unat d"
      by (simp add: unat_sub_le word_le_nat_alt)
    then show ?thesis
      using 1 False days_before_Suc [of y] by (auto simp: rtc_year_loop.simps [of y d])
  qed
qed

definition leaps :: "nat \<Rightarrow> nat" where
  "leaps y = (\<Sum>k = 1970..<y. if LEAP_CKR k then 1 else 0)"

lemma days_before_leaps: "days_before y = (y - 1970) * 365 + leaps y"
  by (simp only: days_before_def leaps_def ydays_def sum.distrib sum_constant card_atLeastLessThan of_nat_id)

lemma leaps_Suc: "1970 \<le> y \<Longrightarrow> leaps (Suc y) = leaps y + (if LEAP_CKR y then 1 else 0)"
  by (simp add: leaps_def)

text \<open>The formula of the code for the number of leap years, by induction from 1970 on.\<close>

lemma leaps_formula: "leaps (1970 + k) + (k + 69) div 100 = (k + 1) div 4 + (k + 369) div 400"
proof (induction k)
  case 0
  show ?case by (simp add: leaps_def)
next
  case (Suc k)
  have l: "leaps (1970 + Suc k) = leaps (1970 + k) + (if LEAP_CKR (1970 + k) then 1 else 0)"
    unfolding add_Suc_right by (rule leaps_Suc) simp
  have m: "(1970 + k) mod 100 = Suc (k + 69) mod 100" "(1970 + k) mod 400 = Suc (k + 369) mod 400"
    "(1970 + k) mod 4 = Suc (k + 1) mod 4"
    using mod_mult_self3 [of 19 100 "k + 70"] mod_mult_self3 [of 4 400 "k + 370"] mod_mult_self3 [of 492 4 "k + 2"]
    by (simp_all add: algebra_simps)
  have "(1970 + k) mod 400 = 0 \<Longrightarrow> (1970 + k) mod 100 = 0" "(1970 + k) mod 100 = 0 \<Longrightarrow> (1970 + k) mod 4 = 0"
    using mod_mod_cancel [of 100 400 "1970 + k"] mod_mod_cancel [of 4 100 "1970 + k"] by simp_all
  then show ?case
    using Suc div_Suc [of "k + 69" 100] div_Suc [of "k + 369" 400] div_Suc [of "k + 1" 4]
    unfolding l add_Suc LEAP_CKR_def m by (simp split: if_splits)
qed

lemma DIV_ROUND_UP_nat:
  assumes "n + (d - 1) = of_nat m" "unat d = e" "m < 2 ^ 64"
  shows "DIV_ROUND_UP n d = of_nat (m div e)"
proof -
  have "m div e = unat (DIV_ROUND_UP n d)"
    using assms by (simp add: DIV_ROUND_UP_def unat_div_distrib unat_of_nat_lt)
  then show ?thesis by simp
qed

lemma leap_offset_leaps:
  assumes "1970 \<le> y" "y < 2 ^ 32"
  shows "leap_offset (of_nat y) = of_nat (leaps y)"
proof -
  obtain k where y: "y = 1970 + k" using assms(1) le_Suc_ex by blast
  have k: "k < 2 ^ 32" using assms y by simp
  have d: "DIV_ROUND_UP (of_nat y - 1972) 4 = of_nat ((k + 1) div 4)"
    "DIV_ROUND_UP (of_nat y - 2000) 100 = of_nat ((k + 69) div 100)"
    "DIV_ROUND_UP (of_nat y - 2000) 400 = of_nat ((k + 369) div 400)"
    using k by (auto intro!: DIV_ROUND_UP_nat simp: y)
  have "(of_nat (leaps y) :: u64) + of_nat ((k + 69) div 100) = of_nat ((k + 1) div 4) + of_nat ((k + 369) div 400)"
    using leaps_formula [of k] unfolding y by (simp only: of_nat_add [symmetric])
  then show ?thesis unfolding leap_offset_def d by (simp add: algebra_simps)
qed

section \<open>Months\<close>

definition cumn :: "bool \<Rightarrow> nat \<Rightarrow> nat" where
  "cumn leap i = unat (cum_days leap i)"

lemma month_cases: "j \<le> 12 \<Longrightarrow> j \<in> {0, 1, 2, 3, 4, 5, 6, 7, 8, 9, 10, 11, 12 :: nat}"
  unfolding insert_iff empty_iff by presburger

lemma cumn_step: "1 \<le> j \<Longrightarrow> j \<le> 12 \<Longrightarrow> cumn leap (j - 1) < cumn leap j \<and> cumn leap j \<le> cumn leap (j - 1) + 31"
  using month_cases [of j] by (cases leap) (auto simp: cumn_def cum_days_def month_days_def)

lemma cumn_ends: "cumn leap 0 = 0" "cumn leap 12 = 365 + (if leap then 1 else 0)"
  by (simp_all add: cumn_def cum_days_def month_days_def)

lemma month_loop_spec:
  assumes "i + n = 13" "1 \<le> i" "cumn leap (i - 1) \<le> unat d" "unat d < cumn leap 12"
    and "rtc_month_loop leap d i n = (j, p)"
  shows "1 \<le> j \<and> j \<le> 12 \<and> p = cum_days leap (j - 1) \<and> cumn leap (j - 1) \<le> unat d \<and> unat d < cumn leap j"
  using assms
proof (induction n arbitrary: i)
  case (Suc n)
  show ?case
  proof (cases "d < cum_days leap i")
    case True
    then show ?thesis using Suc.prems by (auto simp: cumn_def word_less_nat_alt)
  next
    case False
    then have "cumn leap i \<le> unat d" by (simp add: cumn_def word_less_nat_alt)
    then show ?thesis using Suc.IH [of "i + 1"] Suc.prems False by simp
  qed
qed simp

section \<open>Seconds\<close>

text \<open>The time stamp of valid fields, in natural numbers.\<close>

definition stamp :: "nat \<Rightarrow> nat \<Rightarrow> nat \<Rightarrow> nat \<Rightarrow> nat \<Rightarrow> nat" where
  "stamp y r h m s = (days_before y + r) * 86400 + h * 3600 + m * 60 + s"

lemma u32_365:
  assumes "1970 \<le> y" "(y - 1970) * 365 < 2 ^ 32"
  shows "(ucast ((of_nat y - 1970 :: u32) * 365) :: u64) = of_nat ((y - 1970) * 365)"
proof -
  obtain k where y: "y = 1970 + k" using assms(1) le_Suc_ex by blast
  have "(of_nat y - 1970 :: u32) * 365 = of_nat (k * 365)" by (simp add: y)
  then show ?thesis using assms(2) y by (simp only: ucast_of_nat_lt) (simp add: ucast_of_nat_lt del: of_nat_mult)
qed

lemma cumn_le: "j \<le> 12 \<Longrightarrow> cumn leap j \<le> 366"
  using month_cases [of j] by (cases leap) (auto simp: cumn_def cum_days_def month_days_def)

lemma time_stamp_nat:
  assumes "unat (tm_year tm) = y" "1970 \<le> y" "(y - 1970) * 365 < 2 ^ 32"
    and "unat (tm_month tm) = i" "1 \<le> i" "i \<le> 12" "1 \<le> unat (tm_day tm)"
  shows "time_stamp tm = Some (of_nat (stamp y (cumn (LEAP_CKR y) (i - 1) + (unat (tm_day tm) - 1))
    (unat (tm_hour tm)) (unat (tm_minute tm)) (unat (tm_second tm))))"
proof -
  let ?A = "month_days ! (i - 1) + (if tm_month tm > 2 \<and> LEAP_CKR y then 1 else 0)"
  let ?B = "ucast (tm_day tm) - 1 :: u32"
  have "tm_month tm > 2 \<longleftrightarrow> 2 \<le> i - 1" using assms(4) by (auto simp: word_less_nat_alt)
  then have A: "unat ?A = cumn (LEAP_CKR y) (i - 1)"
    by (simp add: cumn_def cum_days_def unat_ucast_up conj_commute)
  have d: "unat (ucast (tm_day tm) :: u32) = unat (tm_day tm)" by (simp add: unat_ucast_up)
  then have B: "unat ?B = unat (tm_day tm) - 1"
    using assms(7) by (subst unat_sub_le) (simp_all add: word_le_nat_alt)
  have "cumn (LEAP_CKR y) (i - 1) \<le> 366" by (rule cumn_le) (use assms(6) in simp)
  moreover have "unat (tm_day tm) < 256" using unat_lt2p [of "tm_day tm"] by simp
  ultimately have "unat ?A + unat ?B < 2 ^ 32" unfolding A B by simp
  then have "unat (?A + ?B) = cumn (LEAP_CKR y) (i - 1) + (unat (tm_day tm) - 1)"
    using unat_add_lt [of ?A ?B] A B by simp
  then have days: "(ucast (?A + ?B) :: u64) = of_nat (cumn (LEAP_CKR y) (i - 1) + (unat (tm_day tm) - 1))"
    by (metis of_nat_unat)
  have year: "tm_year tm = of_nat y" using assms(1) by auto
  have "1 \<le> tm_month tm" "i \<le> length month_days"
    using assms(4-6) by (simp_all add: word_le_nat_alt month_days_def)
  moreover have "y < 2 ^ 32" using unat_lt2p [of "tm_year tm"] assms(1) by simp
  moreover have "(ucast (tm_year tm) :: u64) = of_nat y" using assms(1) by auto
  ultimately have "time_stamp tm = Some ((of_nat ((y - 1970) * 365) + of_nat (leaps y) +
      of_nat (cumn (LEAP_CKR y) (i - 1) + (unat (tm_day tm) - 1))) * of_nat TS_DAY
      + of_nat (unat (tm_hour tm) * TS_HOUR) + of_nat (unat (tm_minute tm) * TS_MINUTE) + of_nat (unat (tm_second tm)))"
    using days assms(4) u32_365 [OF assms(2,3)] leap_offset_leaps [OF assms(2)]
    unfolding time_stamp_def Let_def assms(1,4) year [symmetric] by simp
  then show ?thesis
    by (simp add: stamp_def days_before_leaps TS_DAY_def TS_HOUR_def TS_MINUTE_def)
qed

lemma time_rtctm_nat:
  defines "D \<equiv> \<lambda>ts. unat ts mod 86400"
  shows "\<exists>y r i. 1970 \<le> y \<and> r < ydays y \<and> days_before y + r = unat ts div 86400
    \<and> 1 \<le> i \<and> i \<le> 12 \<and> cumn (LEAP_CKR y) (i - 1) \<le> r \<and> r < cumn (LEAP_CKR y) i
    \<and> time_rtctm ts = \<lparr>tm_second = of_nat (D ts mod 3600 mod 60), tm_minute = of_nat (D ts mod 3600 div 60),
         tm_hour = of_nat (D ts div 3600), tm_day = of_nat (r - cumn (LEAP_CKR y) (i - 1) + 1),
         tm_month = of_nat i, tm_year = of_nat y\<rparr>"
proof -
  have c: "unat (of_nat TS_DAY :: u64) = 86400" "unat (of_nat TS_HOUR :: u64) = 3600" "unat (of_nat TS_MINUTE :: u64) = 60"
    by (simp_all add: TS_DAY_def TS_HOUR_def TS_MINUTE_def)
  have cast: "(ucast w :: u8) = of_nat (unat w)" for w :: u64 by simp
  obtain y d where yd: "rtc_year_loop 1970 (ts div of_nat TS_DAY) = (y, d)" by (cases "rtc_year_loop 1970 (ts div of_nat TS_DAY)")
  then have y: "1970 \<le> y" "days_before y + unat d = unat ts div 86400" "unat d < ydays y"
    using year_loop_spec [OF _ yd] by (simp_all add: days_before_def unat_div_distrib c)
  obtain i p where ip: "rtc_month_loop (LEAP_CKR y) d 1 12 = (i, p)" by (cases "rtc_month_loop (LEAP_CKR y) d 1 12")
  have "unat d < cumn (LEAP_CKR y) 12" using y(3) by (simp add: cumn_ends ydays_def)
  then have i: "1 \<le> i" "i \<le> 12" "p = cum_days (LEAP_CKR y) (i - 1)" "cumn (LEAP_CKR y) (i - 1) \<le> unat d"
      "unat d < cumn (LEAP_CKR y) i"
    using month_loop_spec [of 1 12 "LEAP_CKR y" d i p] ip by (simp_all add: cumn_ends)
  have p: "p \<le> d" "unat p = cumn (LEAP_CKR y) (i - 1)" using i(3,4) by (simp_all add: word_le_nat_alt cumn_def)
  have "unat (d - p) = unat d - cumn (LEAP_CKR y) (i - 1)" using p by (simp add: unat_sub_le)
  moreover have "unat d < 366" using y(3) by (simp add: ydays_def split: if_splits)
  ultimately have "unat (d - p + 1) = unat d - cumn (LEAP_CKR y) (i - 1) + 1"
    by (subst unat_Suc_lt) simp_all
  then have "time_rtctm ts = \<lparr>tm_second = of_nat (D ts mod 3600 mod 60), tm_minute = of_nat (D ts mod 3600 div 60),
         tm_hour = of_nat (D ts div 3600), tm_day = of_nat (unat d - cumn (LEAP_CKR y) (i - 1) + 1),
         tm_month = of_nat i, tm_year = of_nat y\<rparr>"
    unfolding time_rtctm_def Let_def yd ip prod.case cast D_def
    by (simp only: unat_div_distrib unat_mod_distrib c)
  then show ?thesis using y i by blast
qed

lemma split_seconds:
  "T div 86400 * 86400 + T mod 86400 div 3600 * 3600 + T mod 86400 mod 3600 div 60 * 60 + T mod 86400 mod 3600 mod 60 = (T :: nat)"
  using div_mult_mod_eq [of T 86400] div_mult_mod_eq [of "T mod 86400" 3600]
    div_mult_mod_eq [of "T mod 86400 mod 3600" 60] by linarith

text \<open>
  C24: converting a time stamp below \<open>2^48\<close> (about the year 8.9 million) into a calendar date and time and back
  gives the same time stamp; the date conversion ends and never leaves the month table.
\<close>

theorem time_rtctm_roundtrip:
  assumes "ts < 2 ^ 48"
  shows "time_stamp (time_rtctm ts) = Some ts"
proof -
  obtain y r i where y: "1970 \<le> y" "r < ydays y" "days_before y + r = unat ts div 86400"
    and i: "1 \<le> i" "i \<le> 12" "cumn (LEAP_CKR y) (i - 1) \<le> r" "r < cumn (LEAP_CKR y) i"
    and tm: "time_rtctm ts = \<lparr>tm_second = of_nat (unat ts mod 86400 mod 3600 mod 60),
         tm_minute = of_nat (unat ts mod 86400 mod 3600 div 60),
         tm_hour = of_nat (unat ts mod 86400 div 3600), tm_day = of_nat (r - cumn (LEAP_CKR y) (i - 1) + 1),
         tm_month = of_nat i, tm_year = of_nat y\<rparr>"
    using time_rtctm_nat [of ts] by blast
  have T: "unat ts < 2 ^ 48" using assms by (simp add: word_less_nat_alt)
  then have "unat ts div 86400 < 2 ^ 32" by (simp add: div_less_iff_less_mult)
  then have y365: "(y - 1970) * 365 < 2 ^ 32" using y(3) days_before_leaps [of y] by linarith
  then have "y < 2 ^ 32" by simp
  have "r - cumn (LEAP_CKR y) (i - 1) < 31" using cumn_step [OF i(1,2), of "LEAP_CKR y"] i by linarith
  then have day: "unat (tm_day (time_rtctm ts)) = r - cumn (LEAP_CKR y) (i - 1) + 1"
    unfolding tm rtc_tm_t.select_convs by (intro unat_of_nat_lt) simp
  have my: "unat (tm_month (time_rtctm ts)) = i" "unat (tm_year (time_rtctm ts)) = y"
    using i(2) \<open>y < 2 ^ 32\<close> unfolding tm rtc_tm_t.select_convs by (simp_all add: unat_of_nat_lt)
  have hms: "unat (tm_hour (time_rtctm ts)) = unat ts mod 86400 div 3600"
    "unat (tm_minute (time_rtctm ts)) = unat ts mod 86400 mod 3600 div 60"
    "unat (tm_second (time_rtctm ts)) = unat ts mod 86400 mod 3600 mod 60"
    unfolding tm rtc_tm_t.select_convs
    by (auto intro!: unat_of_nat_lt simp: div_less_iff_less_mult intro: less_trans)
  have "time_stamp (time_rtctm ts) = Some (of_nat (stamp y (cumn (LEAP_CKR y) (i - 1) + (unat (tm_day (time_rtctm ts)) - 1))
      (unat (tm_hour (time_rtctm ts))) (unat (tm_minute (time_rtctm ts))) (unat (tm_second (time_rtctm ts)))))"
    by (rule time_stamp_nat) (use my y(1) y365 i(1,2) day in simp_all)
  moreover have "cumn (LEAP_CKR y) (i - 1) + (unat (tm_day (time_rtctm ts)) - 1) = r" using i(3) day by simp
  ultimately show ?thesis
    by (simp only: hms stamp_def y(3) split_seconds of_nat_unat ucast_id)
qed

theorem time_rtctm_roundtrip_witness: "time_stamp (time_rtctm 1700000000) = Some 1700000000"
  using time_rtctm_roundtrip [of 1700000000] by simp

section \<open>Uniqueness of the date\<close>

lemma days_before_mono: "1970 \<le> y \<Longrightarrow> y < y' \<Longrightarrow> days_before y + ydays y \<le> days_before y'"
proof (induction y')
  case (Suc y')
  then show ?case using days_before_Suc [of y'] by (cases "y = y'") auto
qed simp

lemma date_unique:
  assumes "1970 \<le> y" "1970 \<le> y'" "r < ydays y" "r' < ydays y'" "days_before y + r = days_before y' + r'"
  shows "y = y' \<and> r = r'"
  using days_before_mono [of y y'] days_before_mono [of y' y] assms by (cases y y' rule: linorder_cases) auto

lemma cumn_mono: "a \<le> b \<Longrightarrow> b \<le> 12 \<Longrightarrow> cumn leap a \<le> cumn leap b"
proof (induction b)
  case (Suc b)
  then show ?case using cumn_step [of "Suc b" leap] by (cases "a = Suc b") auto
qed simp

lemma month_unique:
  assumes "1 \<le> i" "i \<le> 12" "cumn l (i - 1) \<le> r" "r < cumn l i"
    and "1 \<le> j" "j \<le> 12" "cumn l (j - 1) \<le> r" "r < cumn l j"
  shows "i = j"
proof (rule ccontr)
  assume "i \<noteq> j"
  then have "i \<le> j - 1 \<and> j - 1 \<le> 12 \<or> j \<le> i - 1 \<and> i - 1 \<le> 12" using assms(1,2,5,6) by linarith
  then show False using cumn_mono [of i "j - 1" l] cumn_mono [of j "i - 1" l] assms by linarith
qed

definition tm_valid :: "rtc_tm_t \<Rightarrow> bool" where
  "tm_valid tm \<longleftrightarrow>
     (let leap = LEAP_CKR (unat (tm_year tm)); i = unat (tm_month tm) in
      1970 \<le> unat (tm_year tm) \<and> unat (tm_year tm) \<le> 11000000 \<and> 1 \<le> i \<and> i \<le> 12
      \<and> 1 \<le> unat (tm_day tm) \<and> cumn leap (i - 1) + unat (tm_day tm) \<le> cumn leap i
      \<and> unat (tm_hour tm) < 24 \<and> unat (tm_minute tm) < 60 \<and> unat (tm_second tm) < 60)"

lemma stamp_parts:
  assumes "h < 24" "m < 60" "s < 60"
  shows "stamp y r h m s div 86400 = days_before y + r"
    "stamp y r h m s mod 86400 = h * 3600 + m * 60 + s"
    "(h * 3600 + m * 60 + s) div 3600 = h"
    "(h * 3600 + m * 60 + s) mod 3600 = m * 60 + s"
proof -
  have lt: "h * 3600 + (m * 60 + s) < 86400" "m * 60 + s < 3600" using assms by linarith+
  have e: "stamp y r h m s = (h * 3600 + (m * 60 + s)) + (days_before y + r) * 86400"
    by (simp add: stamp_def)
  show "stamp y r h m s div 86400 = days_before y + r"
    unfolding e using lt by simp
  show "stamp y r h m s mod 86400 = h * 3600 + m * 60 + s"
    unfolding e mod_mult_self1 using lt by simp
  have e': "h * 3600 + m * 60 + s = (m * 60 + s) + h * 3600" by simp
  show "(h * 3600 + m * 60 + s) div 3600 = h" unfolding e' using lt(2) by simp
  show "(h * 3600 + m * 60 + s) mod 3600 = m * 60 + s" unfolding e' mod_mult_self1 using lt(2) by simp
qed

lemma leaps_le: "leaps y \<le> y"
proof -
  have "leaps y \<le> (\<Sum>k = 1970..<y. 1)" unfolding leaps_def by (rule sum_mono) simp
  then show ?thesis by simp
qed

text \<open>
  C25: every valid date and time, up to the year 11 million, has a time stamp, and converting this time stamp
  back gives the same date and time.
\<close>

theorem time_stamp_roundtrip:
  assumes "tm_valid tm"
  shows "\<exists>ts. time_stamp tm = Some ts \<and> time_rtctm ts = tm"
proof -
  define y i d h m s where vars: "y = unat (tm_year tm)" "i = unat (tm_month tm)" "d = unat (tm_day tm)"
    "h = unat (tm_hour tm)" "m = unat (tm_minute tm)" "s = unat (tm_second tm)"
  define r where "r = cumn (LEAP_CKR y) (i - 1) + (d - 1)"
  have v: "1970 \<le> y" "y \<le> 11000000" "1 \<le> i" "i \<le> 12" "1 \<le> d" "h < 24" "m < 60" "s < 60"
    "cumn (LEAP_CKR y) (i - 1) + d \<le> cumn (LEAP_CKR y) i"
    using assms by (simp_all add: tm_valid_def Let_def vars)
  have r: "cumn (LEAP_CKR y) (i - 1) \<le> r" "r < cumn (LEAP_CKR y) i" "r < ydays y" "r \<le> 366"
    using v cumn_mono [of i 12 "LEAP_CKR y"] by (auto simp: r_def cumn_ends ydays_def split: if_splits)
  define T where "T = stamp y r h m s"
  have "days_before y \<le> 11000000 * 365 + 11000000"
    using days_before_leaps [of y] leaps_le [of y] v(2) by linarith
  then have "T < 2 ^ 64" using v r(4) by (simp add: T_def stamp_def)
  then have uT: "unat (of_nat T :: u64) = T" by (intro unat_of_nat_lt) simp
  have stamp: "time_stamp tm = Some (of_nat T)"
    using time_stamp_nat [of tm y i] v by (simp add: vars [symmetric] T_def r_def)
  obtain y' r' i' where y': "1970 \<le> y'" "r' < ydays y'" "days_before y' + r' = T div 86400"
    and i': "1 \<le> i'" "i' \<le> 12" "cumn (LEAP_CKR y') (i' - 1) \<le> r'" "r' < cumn (LEAP_CKR y') i'"
    and tm: "time_rtctm (of_nat T) = \<lparr>tm_second = of_nat (T mod 86400 mod 3600 mod 60),
         tm_minute = of_nat (T mod 86400 mod 3600 div 60),
         tm_hour = of_nat (T mod 86400 div 3600), tm_day = of_nat (r' - cumn (LEAP_CKR y') (i' - 1) + 1),
         tm_month = of_nat i', tm_year = of_nat y'\<rparr>"
    using time_rtctm_nat [of "of_nat T"] unfolding uT by blast
  note parts = stamp_parts(1,2) [OF v(6-8), of y r, folded T_def] stamp_parts(3,4) [OF v(6-8)]
  have eq: "y' = y \<and> r' = r" using date_unique [of y' y r' r] y' v(1) r(3) parts(1) by simp
  then have "i' = i" using month_unique [of i' "LEAP_CKR y" r i] i' v r by simp
  then have "time_rtctm (of_nat T) = \<lparr>tm_second = of_nat s, tm_minute = of_nat m, tm_hour = of_nat h,
      tm_day = of_nat d, tm_month = of_nat i, tm_year = of_nat y\<rparr>"
    unfolding tm parts using eq v by (simp add: r_def)
  then have "time_rtctm (of_nat T) = tm" by (simp add: vars)
  with stamp show ?thesis by blast
qed

theorem time_stamp_roundtrip_witness:
  "\<exists>ts. time_stamp \<lparr>tm_second = 59, tm_minute = 30, tm_hour = 23, tm_day = 29, tm_month = 2, tm_year = 2024\<rparr> = Some ts
    \<and> time_rtctm ts = \<lparr>tm_second = 59, tm_minute = 30, tm_hour = 23, tm_day = 29, tm_month = 2, tm_year = 2024\<rparr>"
  by (rule time_stamp_roundtrip)
    (simp add: tm_valid_def LEAP_CKR_def cumn_def cum_days_def month_days_def Let_def)

end
