(* ===== verification/Mm_Heap.thy ===== *)
theory Mm_Heap
  imports Textos_Prelude
begin

text \<open>
  The kernel heap \<open>src/kernel/mm/heap.c\<close>: blocks with a header and a footer word that hold the size
  of the block, header and footer included, and the allocation bit. The memory is a function
  from addresses to bytes; addresses are natural numbers, so the heap is assumed not to
  reach the end of the address space. A word access outside of the mapped heap
  (\<open>hp_base\<close> up to \<open>hp_max\<close>) stops the kernel. The contents of new pages are whatever the memory
  function says.

  Mapping more pages for a growing heap (\<open>vmm_phyauto\<close>) has an effect on the heap itself. It stops the
  kernel when there are not enough pages, and the allocation of pages, of the heap or of page tables, releases the
  node of each region that is used up: \<open>pmm_allocpages\<close> calls \<open>delete0_post\<close>, which is \<open>free\<close>, in the
  middle of \<open>malloc\<close>. The operations have this as a parameter \<open>phy\<close>: for a call that maps \<open>n\<close> pages at the
  address \<open>vrt\<close>, \<open>phy vrt n\<close> is \<open>None\<close> if the kernel stops and otherwise has the nodes that are released. As the
  end of the heap grows with each call, \<open>phy\<close> can answer each call of a run differently.
\<close>

type_synonym mem = "nat \<Rightarrow> u8"
type_synonym phyauto = "nat \<Rightarrow> nat \<Rightarrow> nat list option"

record heap_t =
  hp_mem :: mem
  hp_base :: nat
  hp_root :: nat
  hp_brk :: nat
  hp_max :: nat

section \<open>Words in memory\<close>

definition get32 :: "mem \<Rightarrow> nat \<Rightarrow> u32" where
  "get32 m a = ucast (m a) OR push_bit 8 (ucast (m (a + 1))) OR push_bit 16 (ucast (m (a + 2)))
     OR push_bit 24 (ucast (m (a + 3)))"

definition put32 :: "nat \<Rightarrow> u32 \<Rightarrow> mem \<Rightarrow> mem" where
  "put32 a w m = m(a := ucast w, a + 1 := ucast (drop_bit 8 w), a + 2 := ucast (drop_bit 16 w),
     a + 3 := ucast (drop_bit 24 w))"

definition heap_mapped :: "heap_t \<Rightarrow> nat \<Rightarrow> bool" where
  "heap_mapped h a \<longleftrightarrow> hp_base h \<le> a \<and> a + 4 \<le> hp_max h"

definition GET :: "heap_t \<Rightarrow> nat \<Rightarrow> u32 option" where
  "GET h a = (if heap_mapped h a then Some (get32 (hp_mem h) a) else None)"

definition PUT :: "nat \<Rightarrow> u32 \<Rightarrow> heap_t \<Rightarrow> heap_t option" where
  "PUT a w h = (if heap_mapped h a then Some (h\<lparr>hp_mem := put32 a w (hp_mem h)\<rparr>) else None)"

definition SIZ :: "u32 \<Rightarrow> nat" where
  "SIZ blk = unat (drop_bit 3 blk)"

definition ALOC :: "u32 \<Rightarrow> bool" where
  "ALOC blk \<longleftrightarrow> blk AND 1 \<noteq> 0"

definition SETB :: "nat \<Rightarrow> bool \<Rightarrow> u32" where
  "SETB siz aloc = push_bit 3 (of_nat siz) OR (if aloc then 1 else 0)"

definition HALIGN :: "u64 \<Rightarrow> u64 \<Rightarrow> u64" where
  "HALIGN num alignment = (num + alignment - 1) AND NOT (alignment - 1)"

definition HEAP_ORIG :: nat where "HEAP_ORIG = 1"
definition PAGE_BYTES :: nat where "PAGE_BYTES = 4096"

section \<open>Operations\<close>

text \<open>\<open>heap_init\<close> writes the first page before it maps it at the base of the kernel heap.\<close>

definition heap_init :: "nat \<Rightarrow> mem \<Rightarrow> heap_t" where
  "heap_init base m =
     (let m = put32 base (SETB 0 False) m;
          m = put32 (base + 4) (SETB 8 True) m;
          m = put32 (base + 8) (SETB 8 True) m;
          m = put32 (base + 12) (SETB 0 True) m
      in \<lparr>hp_mem = m, hp_base = base, hp_root = base + 12, hp_brk = base + 12,
          hp_max = base + HEAP_ORIG * PAGE_BYTES\<rparr>)"

definition hp_sbrk :: "nat \<Rightarrow> heap_t \<Rightarrow> nat \<times> heap_t" where
  "hp_sbrk siz h =
     (let h = h\<lparr>hp_brk := hp_brk h + unat (HALIGN (of_nat siz) 8)\<rparr> in (hp_brk h - siz, h))"

definition hp_merge_next :: "nat \<Rightarrow> nat \<Rightarrow> heap_t \<Rightarrow> heap_t option" where
  "hp_merge_next hdr next_hdr h = do {
     nb \<leftarrow> GET h next_hdr;
     if \<not> ALOC nb \<and> SIZ nb \<noteq> 0 then do {
       let next_ftr = next_hdr + SIZ nb - 4;
       nf \<leftarrow> GET h next_ftr;
       assertk (nb = nf);
       b \<leftarrow> GET h hdr;
       h \<leftarrow> PUT hdr (SETB (SIZ b + SIZ nb) False) h;
       b \<leftarrow> GET h hdr;
       PUT next_ftr b h
     }
     else Some h
   }"

definition hp_merge_prev :: "nat \<Rightarrow> nat \<Rightarrow> heap_t \<Rightarrow> heap_t option" where
  "hp_merge_prev hdr prev_ftr h = do {
     pf \<leftarrow> GET h prev_ftr;
     if \<not> ALOC pf \<and> SIZ pf \<noteq> 0 then do {
       let prev_hdr = hdr - SIZ pf;
       pb \<leftarrow> GET h prev_hdr;
       assertk (pb = pf);
       b \<leftarrow> GET h hdr;
       h \<leftarrow> PUT prev_hdr (SETB (SIZ pb + SIZ b) False) h;
       pb \<leftarrow> GET h prev_hdr;
       PUT (prev_hdr + SIZ pb - 4) pb h
     }
     else Some h
   }"

definition hp_merge :: "nat \<Rightarrow> heap_t \<Rightarrow> heap_t option" where
  "hp_merge hdr h = do {
     b \<leftarrow> GET h hdr;
     let ftr = hdr + SIZ b - 4;
     h \<leftarrow> hp_merge_next hdr (ftr + 4) h;
     hp_merge_prev hdr (hdr - 4) h
   }"

definition hp_free :: "nat \<Rightarrow> heap_t \<Rightarrow> heap_t option" where
  "hp_free addr h =
     (if addr = 0 \<or> addr > hp_max h then Some h
      else do {
        let hdr = addr - 4;
        b \<leftarrow> GET h hdr;
        let ftr = hdr + SIZ b - 4;
        f \<leftarrow> GET h ftr;
        if b \<noteq> f then Some h
        else do {
          assertk (ALOC b);
          h \<leftarrow> PUT hdr (SETB (SIZ b) False) h;
          f \<leftarrow> GET h ftr;
          h \<leftarrow> PUT ftr (SETB (SIZ f) False) h;
          hp_merge hdr h
        }
      })"

text \<open>\<open>_extend_heap\<close>: the pages that it maps, and the new free block.\<close>

definition hp_grow :: "phyauto \<Rightarrow> nat \<Rightarrow> heap_t \<Rightarrow> heap_t option" where
  "hp_grow phy siz h =
     (let diff = int (hp_brk h) + int siz - int (hp_max h) in
      if diff > 0 then do {
        let pages = (nat diff + PAGE_BYTES - 1) div PAGE_BYTES;
        ns \<leftarrow> phy (hp_max h) pages;
        h \<leftarrow> foldM hp_free ns h;
        Some (h\<lparr>hp_max := hp_max h + pages * PAGE_BYTES\<rparr>)
      } else Some h)"

definition hp_append :: "nat \<Rightarrow> heap_t \<Rightarrow> heap_t option" where
  "hp_append siz h = do {
     let (hdr, h) = hp_sbrk siz h;
     h \<leftarrow> PUT hdr (SETB siz False) h;
     h \<leftarrow> PUT (hdr + siz - 4) (SETB siz False) h;
     h \<leftarrow> PUT (hdr + siz) (SETB 0 True) h;
     hp_merge hdr h
   }"

definition hp_extend_heap :: "phyauto \<Rightarrow> nat \<Rightarrow> heap_t \<Rightarrow> heap_t option" where
  "hp_extend_heap phy siz h = do {
     let siz = unat (HALIGN (of_nat siz) 8);
     h \<leftarrow> hp_grow phy siz h;
     hp_append siz h
   }"

text \<open>
  The two ways in which \<open>malloc\<close> takes the free block at \<open>cur\<close> of size \<open>bsiz\<close>: it splits a larger
  block and takes a block of the right size as it is.
\<close>

definition hp_split :: "nat \<Rightarrow> nat \<Rightarrow> nat \<Rightarrow> heap_t \<Rightarrow> heap_t option" where
  "hp_split cur bsiz siz h = do {
     h \<leftarrow> PUT (cur + bsiz - 4) (SETB (bsiz - siz) False) h;
     h \<leftarrow> PUT (cur + siz) (SETB (bsiz - siz) False) h;
     h \<leftarrow> PUT cur (SETB siz True) h;
     PUT (cur + siz - 4) (SETB siz True) h
   }"

definition hp_take :: "nat \<Rightarrow> nat \<Rightarrow> heap_t \<Rightarrow> heap_t option" where
  "hp_take cur siz h = do {
     h \<leftarrow> PUT cur (SETB siz True) h;
     b \<leftarrow> GET h cur;
     PUT (cur + SIZ b - 4) b h
   }"

text \<open>The loop of \<open>malloc\<close>; \<open>fuel\<close> bounds the number of rounds.\<close>

fun malloc_loop :: "phyauto \<Rightarrow> nat \<Rightarrow> nat \<Rightarrow> nat \<Rightarrow> heap_t \<Rightarrow> (nat \<times> heap_t) option" where
  "malloc_loop phy 0 siz cur h = None"
| "malloc_loop phy (Suc fuel) siz cur h = do {
     b \<leftarrow> GET h cur;
     if \<not> ALOC b \<and> SIZ b > siz then do { h \<leftarrow> hp_split cur (SIZ b) siz h; Some (cur + 4, h) }
     else if \<not> ALOC b \<and> SIZ b = siz then do { h \<leftarrow> hp_take cur siz h; Some (cur + 4, h) }
     else do {
       let nxt = cur + SIZ b;
       if \<not> nxt < hp_brk h then do { h \<leftarrow> hp_extend_heap phy siz h; malloc_loop phy fuel siz cur h }
       else malloc_loop phy fuel siz nxt h
     }
   }"

declare malloc_loop.simps [simp del]

text \<open>The null pointer is address 0.\<close>

definition malloc :: "phyauto \<Rightarrow> nat \<Rightarrow> u64 \<Rightarrow> heap_t \<Rightarrow> (nat \<times> heap_t) option" where
  "malloc phy fuel siz h =
     (if siz = 0 then Some (0, h)
      else malloc_loop phy fuel (unat (HALIGN (siz + 8) 8)) (hp_root h) h)"

definition mem_copy :: "nat \<Rightarrow> nat \<Rightarrow> nat \<Rightarrow> mem \<Rightarrow> mem" where
  "mem_copy dst src n m = fold (\<lambda>i m. m(dst + i := m (src + i))) [0..<n] m"

definition mem_set :: "nat \<Rightarrow> u8 \<Rightarrow> nat \<Rightarrow> mem \<Rightarrow> mem" where
  "mem_set dst v n m = fold (\<lambda>i m. m(dst + i := v)) [0..<n] m"

definition realloc :: "phyauto \<Rightarrow> nat \<Rightarrow> nat \<Rightarrow> u64 \<Rightarrow> heap_t \<Rightarrow> (nat \<times> heap_t) option" where
  "realloc phy fuel addr newsiz h =
     (if addr = 0 then malloc phy fuel newsiz h
      else if newsiz = 0 then do { h \<leftarrow> hp_free addr h; Some (0, h) }
      else do {
        b \<leftarrow> GET h (addr - 4);
        let siz = SIZ b;
        if siz \<ge> unat newsiz then Some (addr, h)
        else do {
          (newmem, h) \<leftarrow> malloc phy fuel newsiz h;
          let h = h\<lparr>hp_mem := mem_copy newmem addr siz (hp_mem h)\<rparr>;
          h \<leftarrow> hp_free addr h;
          Some (newmem, h)
        }
      })"

definition calloc :: "phyauto \<Rightarrow> nat \<Rightarrow> u64 \<Rightarrow> heap_t \<Rightarrow> (nat \<times> heap_t) option" where
  "calloc phy fuel siz h = do {
     (ptr, h) \<leftarrow> malloc phy fuel siz h;
     if ptr = 0 then Some (ptr, h)
     else Some (ptr, h\<lparr>hp_mem := mem_set ptr 0 (unat siz) (hp_mem h)\<rparr>)
   }"

section \<open>Laws of the words\<close>

lemma get32_put32 [simp]: "get32 (put32 a w m) a = w"
proof (rule bit_word_eqI)
  fix n
  assume n: "n < LENGTH(32)"
  consider "n < 8" | "8 \<le> n" "n < 16" | "16 \<le> n" "n < 24" | "24 \<le> n" by linarith
  then show "bit (get32 (put32 a w m) a) n = bit w n"
    by cases (use n in \<open>simp_all add: get32_def put32_def bit_simps less_diff_conv2\<close>)
qed

lemma get32_put32_other [simp]: "b + 4 \<le> a \<or> a + 4 \<le> b \<Longrightarrow> get32 (put32 a w m) b = get32 m b"
  by (auto simp: get32_def put32_def)

lemma put32_byte: "b < a \<or> a + 4 \<le> b \<Longrightarrow> put32 a w m b = m b"
  by (auto simp: put32_def)

lemma SETB_nat: "SETB n a = of_nat (8 * n + (if a then 1 else 0))"
proof -
  have "push_bit 3 (of_nat n :: u32) = of_nat n * 8" by (simp add: push_bit_eq_mult)
  moreover have "even (of_nat n * 8 :: u32)" by simp
  ultimately show ?thesis by (simp add: SETB_def or_one_eq mult.commute)
qed

lemma SETB_unat: "n < 2 ^ 29 \<Longrightarrow> unat (SETB n a) = 8 * n + (if a then 1 else 0)"
  unfolding SETB_nat by (intro unat_of_nat_lt) simp

lemma SIZ_SETB [simp]: "n < 2 ^ 29 \<Longrightarrow> SIZ (SETB n a) = n"
  by (simp add: SIZ_def drop_bit_eq_div unat_div_distrib SETB_unat)

lemma ALOC_SETB [simp]: "ALOC (SETB n a) = a"
  by (simp add: ALOC_def SETB_nat and_one_eq mod2_eq_if)

lemma and_not_7: "w AND NOT 7 = push_bit 3 (drop_bit 3 (w :: u64))"
proof (rule bit_word_eqI)
  fix n
  assume n: "n < LENGTH(64)"
  have m: "(7 :: u64) = mask 3" by (simp add: mask_eq_exp_minus_1)
  have "bit (w AND NOT 7) n = (bit w n \<and> 3 \<le> n)" unfolding m using n by (auto simp: bit_simps)
  then show "bit (w AND NOT 7) n = bit (push_bit 3 (drop_bit 3 w)) n" using n by (auto simp: bit_simps)
qed

lemma HALIGN_8:
  assumes "unat n + 7 < 2 ^ 64"
  shows "unat (HALIGN n 8) = (unat n + 7) div 8 * 8"
proof -
  have e: "n + 8 - 1 = n + 7" "8 - 1 = (7 :: u64)" by simp_all
  have "HALIGN n 8 = push_bit 3 (drop_bit 3 (n + 7))" by (simp only: HALIGN_def e and_not_7)
  also have "\<dots> = of_nat (unat (n + 7) div 8 * 8)"
  proof -
    have "drop_bit 3 (n + 7) = of_nat (unat (drop_bit 3 (n + 7)))" by simp
    also have "\<dots> = of_nat (unat (n + 7) div 8)" by (simp add: drop_bit_eq_div unat_div_distrib del: of_nat_unat)
    finally show ?thesis by (simp only: push_bit_eq_mult of_nat_mult) simp
  qed
  finally have "HALIGN n 8 = of_nat (unat (n + 7) div 8 * 8)" .
  moreover have "unat (n + 7) = unat n + 7" using assms by (subst unat_add_lt) simp_all
  moreover
  have "(unat n + 7) div 8 * 8 < 2 ^ 64"
    using assms div_times_less_eq_dividend [of "unat n + 7" 8] by linarith
  then have "unat (of_nat ((unat n + 7) div 8 * 8) :: u64) = (unat n + 7) div 8 * 8" by (intro unat_of_nat_lt) simp
  ultimately show ?thesis by (simp only:)
qed

lemma HALIGN_same:
  assumes "8 dvd n" "n < 2 ^ 29"
  shows "unat (HALIGN (of_nat n) 8) = n"
proof -
  have u: "unat (of_nat n :: u64) = n" using assms(2) by (intro unat_of_nat_lt) simp
  have "(n + 7) div 8 * 8 = n" using assms(1) by presburger
  then show ?thesis using HALIGN_8 [of "of_nat n"] u assms(2) by simp
qed

section \<open>The heap as a list of blocks\<close>

type_synonym block = "nat \<times> bool"

abbreviation tot :: "block list \<Rightarrow> nat" where
  "tot bs \<equiv> sum_list (map fst bs)"

fun segs :: "mem \<Rightarrow> nat \<Rightarrow> block list \<Rightarrow> bool" where
  "segs m a [] \<longleftrightarrow> True"
| "segs m a ((n, al) # bs) \<longleftrightarrow>
     8 \<le> n \<and> 8 dvd n \<and> get32 m a = SETB n al \<and> get32 m (a + n - 4) = SETB n al \<and> segs m (a + n) bs"

text \<open>No two free blocks are neighbours.\<close>

abbreviation coalesced :: "block list \<Rightarrow> bool" where
  "coalesced bs \<equiv> successively (\<lambda>b c. snd b \<or> snd c) bs"

text \<open>The allocated blocks, as pairs of payload address and payload size.\<close>

fun live :: "nat \<Rightarrow> block list \<Rightarrow> (nat \<times> nat) set" where
  "live a [] = {}"
| "live a ((n, al) # bs) = (if al then {(a + 4, n - 8)} else {}) \<union> live (a + n) bs"

definition heap_ok :: "heap_t \<Rightarrow> block list \<Rightarrow> bool" where
  "heap_ok h bs \<longleftrightarrow>
     0 < hp_base h \<and> 4096 dvd hp_base h \<and> 4096 dvd hp_max h \<and> hp_root h = hp_base h + 12
     \<and> get32 (hp_mem h) (hp_root h - 4) = SETB 8 True
     \<and> segs (hp_mem h) (hp_root h) bs
     \<and> hp_brk h = hp_root h + tot bs \<and> get32 (hp_mem h) (hp_brk h) = SETB 0 True
     \<and> hp_brk h + 4 \<le> hp_max h \<and> tot bs < 2 ^ 29"

lemma segs_append: "segs m a (xs @ ys) \<longleftrightarrow> segs m a xs \<and> segs m (a + tot xs) ys"
  by (induction xs arbitrary: a) (auto simp: add.assoc)

lemma heap_ok_parts:
  assumes "heap_ok h bs"
  shows "segs (hp_mem h) (hp_root h) bs" "hp_brk h = hp_root h + tot bs"
  using assms unfolding heap_ok_def by blast+

definition same_outside :: "nat \<Rightarrow> nat \<Rightarrow> mem \<Rightarrow> mem \<Rightarrow> bool" where
  "same_outside p q m m' \<longleftrightarrow> (\<forall>x. x < p \<or> q \<le> x \<longrightarrow> m' x = m x)"

lemma same_outside_get32: "same_outside p q m m' \<Longrightarrow> x + 4 \<le> p \<or> q \<le> x \<Longrightarrow> get32 m' x = get32 m x"
  by (auto simp: same_outside_def get32_def)

lemma same_outside_segs:
  "same_outside p q m m' \<Longrightarrow> a + tot bs \<le> p \<or> q \<le> a \<Longrightarrow> segs m' a bs = segs m a bs"
proof (induction bs arbitrary: a)
  case (Cons b bs)
  obtain n al where b: "b = (n, al)" by (cases b)
  show ?case
  proof (cases "8 \<le> n")
    case True
    then have "get32 m' a = get32 m a" "get32 m' (a + n - 4) = get32 m (a + n - 4)" "segs m' (a + n) bs = segs m (a + n) bs"
      using Cons b by (auto intro!: same_outside_get32 Cons.IH)
    then show ?thesis by (simp add: b)
  qed (simp add: b)
qed simp

lemma same_outside_refl [simp]: "same_outside p q m m"
  by (simp add: same_outside_def)

lemma same_outside_put32 [intro]:
  "same_outside p q m m' \<Longrightarrow> p \<le> a \<Longrightarrow> a + 4 \<le> q \<Longrightarrow> same_outside p q m (put32 a w m')"
  by (auto simp: same_outside_def put32_byte)

lemma same_outside_trans: "same_outside p q m m1 \<Longrightarrow> same_outside p q m1 m2 \<Longrightarrow> same_outside p q m m2"
  by (simp add: same_outside_def)

lemma same_outside_mono: "same_outside p q m m' \<Longrightarrow> p' \<le> p \<Longrightarrow> q \<le> q' \<Longrightarrow> same_outside p' q' m m'"
  by (auto simp: same_outside_def)

text \<open>Replacing some blocks by others that fill the same space keeps the heap well-formed.\<close>

lemma heap_ok_replace:
  assumes "heap_ok h (xs @ zs @ ys)" "p = hp_root h + tot xs" "q = p + tot zs"
    and "same_outside p q (hp_mem h) m'" "segs m' p zs'" "tot zs' = tot zs"
  shows "heap_ok (h\<lparr>hp_mem := m'\<rparr>) (xs @ zs' @ ys)"
proof -
  have brk: "hp_brk h = q + tot ys" using assms(1-3) by (simp add: heap_ok_def)
  have "get32 m' (hp_root h - 4) = get32 (hp_mem h) (hp_root h - 4)" "get32 m' (hp_brk h) = get32 (hp_mem h) (hp_brk h)"
    "segs m' (hp_root h) xs = segs (hp_mem h) (hp_root h) xs" "segs m' q ys = segs (hp_mem h) q ys"
    using assms(1-3) brk
    by (auto intro!: same_outside_get32 [OF assms(4)] same_outside_segs [OF assms(4)] simp: heap_ok_def)
  then show ?thesis
    using assms by (auto simp: heap_ok_def segs_append add.assoc)
qed

lemma mapped_mem [simp]: "heap_mapped (h\<lparr>hp_mem := m\<rparr>) = heap_mapped h"
  by (rule ext) (simp add: heap_mapped_def)

lemma mapped_in: "heap_ok h bs \<Longrightarrow> hp_root h - 4 \<le> a \<Longrightarrow> a \<le> hp_brk h \<Longrightarrow> heap_mapped h a"
  by (simp add: heap_mapped_def heap_ok_def)

section \<open>Taking and splitting a block\<close>

lemma heap_ok_block:
  assumes "heap_ok h (xs @ (n, al) # ys)" "p = hp_root h + tot xs"
  shows "8 \<le> n" "8 dvd n" "n < 2 ^ 29" "get32 (hp_mem h) p = SETB n al" "get32 (hp_mem h) (p + n - 4) = SETB n al"
    "p + n \<le> hp_brk h" "hp_root h \<le> p" "p < hp_brk h"
  using assms by (auto simp: heap_ok_def segs_append)

lemma hp_split_ok:
  assumes ok: "heap_ok h (xs @ (n, False) # ys)" and p: "p = hp_root h + tot xs"
    and siz: "8 \<le> siz" "8 dvd siz" "siz < n"
  shows "\<exists>m'. hp_split p n siz h = Some (h\<lparr>hp_mem := m'\<rparr>) \<and> same_outside p (p + n) (hp_mem h) m'
    \<and> heap_ok (h\<lparr>hp_mem := m'\<rparr>) (xs @ (siz, True) # (n - siz, False) # ys)"
proof -
  note b = heap_ok_block [OF ok p]
  have "8 dvd n - siz" using b(2) siz(2) by (rule dvd_diff_nat)
  then have k: "8 dvd n - siz" "8 \<le> n - siz" using siz(3) by (auto intro: dvd_imp_le)
  then have n: "siz + 8 \<le> n" by linarith
  let ?m = "put32 (p + siz - 4) (SETB siz True) (put32 p (SETB siz True)
      (put32 (p + siz) (SETB (n - siz) False) (put32 (p + n - 4) (SETB (n - siz) False) (hp_mem h))))"
  have "heap_mapped h a" if "p \<le> a" "a + 4 \<le> p + n" for a
    using mapped_in [OF ok, of a] that b by simp
  then have "hp_split p n siz h = Some (h\<lparr>hp_mem := ?m\<rparr>)"
    using siz k by (simp add: hp_split_def PUT_def)
  moreover have out: "same_outside p (p + n) (hp_mem h) ?m"
    using siz k by (intro same_outside_put32) simp_all
  moreover have "segs ?m p [(siz, True), (n - siz, False)]"
  proof -
    have "p + siz - 4 + 4 \<le> p + n - 4" "p + 4 \<le> p + n - 4" "p + siz + 4 \<le> p + n - 4"
      "p + 4 \<le> p + siz - 4" "p + siz - 4 + 4 \<le> p + siz"
      using siz n by linarith+
    moreover have "p + siz + (n - siz) = p + n" using n by simp
    ultimately show ?thesis using siz k by simp
  qed
  ultimately show ?thesis
    using heap_ok_replace [of h xs "[(n, False)]" ys p "p + n" ?m "[(siz, True), (n - siz, False)]"] ok p siz by auto
qed

lemma hp_take_ok:
  assumes ok: "heap_ok h (xs @ (n, al) # ys)" and p: "p = hp_root h + tot xs"
  shows "\<exists>m'. hp_take p n h = Some (h\<lparr>hp_mem := m'\<rparr>) \<and> same_outside p (p + n) (hp_mem h) m'
    \<and> heap_ok (h\<lparr>hp_mem := m'\<rparr>) (xs @ (n, True) # ys)"
proof -
  note b = heap_ok_block [OF ok p]
  let ?m = "put32 (p + n - 4) (SETB n True) (put32 p (SETB n True) (hp_mem h))"
  have "heap_mapped h a" if "p \<le> a" "a + 4 \<le> p + n" for a
    using mapped_in [OF ok, of a] that b by simp
  then have "hp_take p n h = Some (h\<lparr>hp_mem := ?m\<rparr>)"
    using b by (simp add: hp_take_def PUT_def GET_def)
  moreover have out: "same_outside p (p + n) (hp_mem h) ?m"
    using b by (intro same_outside_put32) simp_all
  moreover have "segs ?m p [(n, True)]" using b by simp
  ultimately show ?thesis
    using heap_ok_replace [of h xs "[(n, al)]" ys p "p + n" ?m "[(n, True)]"] ok p by auto
qed

section \<open>Merging\<close>

lemma hp_merge_next_free:
  assumes ok: "heap_ok h (xs @ (n, False) # (k, False) # ys)" and p: "p = hp_root h + tot xs"
  shows "\<exists>m'. hp_merge_next p (p + n) h = Some (h\<lparr>hp_mem := m'\<rparr>) \<and> same_outside p (p + n + k) (hp_mem h) m'
    \<and> (\<forall>x. p + 4 \<le> x \<longrightarrow> x + 8 \<le> p + n + k \<longrightarrow> get32 m' x = get32 (hp_mem h) x)
    \<and> heap_ok (h\<lparr>hp_mem := m'\<rparr>) (xs @ (n + k, False) # ys)"
proof -
  note b = heap_ok_block [OF ok p]
  have q: "p + n = hp_root h + tot (xs @ [(n, False)])" using p by simp
  have ok': "heap_ok h ((xs @ [(n, False)]) @ (k, False) # ys)" using ok by simp
  note c = heap_ok_block [OF ok' q]
  let ?m = "put32 (p + n + k - 4) (SETB (n + k) False) (put32 p (SETB (n + k) False) (hp_mem h))"
  have mp: "heap_mapped h a" if "p \<le> a" "a + 4 \<le> p + n + k" for a
    using mapped_in [OF ok, of a] that b c by simp
  have "hp_merge_next p (p + n) h = Some (h\<lparr>hp_mem := ?m\<rparr>)"
    using b c mp by (simp add: hp_merge_next_def PUT_def GET_def Let_def)
  moreover have "same_outside p (p + n + k) (hp_mem h) ?m"
    using b c by (intro same_outside_put32) simp_all
  moreover have "segs ?m p [(n + k, False)]"
    using b c by (simp add: add.assoc)
  moreover have "\<forall>x. p + 4 \<le> x \<longrightarrow> x + 8 \<le> p + n + k \<longrightarrow> get32 ?m x = get32 (hp_mem h) x" by simp
  ultimately show ?thesis
    using heap_ok_replace [of h xs "[(n, False), (k, False)]" ys p "p + n + k" ?m "[(n + k, False)]"] ok p by auto
qed

lemma hp_merge_next_none:
  assumes ok: "heap_ok h (xs @ (n, al) # ys)" and p: "p = hp_root h + tot xs" and ys: "ys = [] \<or> snd (hd ys)"
  shows "hp_merge_next p (p + n) h = Some h"
proof -
  have "\<exists>w. get32 (hp_mem h) (p + n) = w \<and> ALOC w"
    using ok p ys by (cases ys) (auto simp: heap_ok_def segs_append add.assoc)
  moreover have "heap_mapped h (p + n)" using mapped_in [OF ok, of "p + n"] heap_ok_block [OF ok p] by simp
  ultimately show ?thesis by (auto simp: hp_merge_next_def GET_def)
qed

lemma hp_merge_prev_free:
  assumes ok: "heap_ok h (xs @ (k, False) # (n, False) # ys)" and p: "p = hp_root h + tot xs"
  shows "\<exists>m'. hp_merge_prev (p + k) (p + k - 4) h = Some (h\<lparr>hp_mem := m'\<rparr>) \<and> same_outside p (p + k + n) (hp_mem h) m'
    \<and> (\<forall>x. p + 4 \<le> x \<longrightarrow> x + 8 \<le> p + k + n \<longrightarrow> get32 m' x = get32 (hp_mem h) x)
    \<and> heap_ok (h\<lparr>hp_mem := m'\<rparr>) (xs @ (k + n, False) # ys)"
proof -
  note b = heap_ok_block [OF ok p]
  have q: "p + k = hp_root h + tot (xs @ [(k, False)])" using p by simp
  have ok': "heap_ok h ((xs @ [(k, False)]) @ (n, False) # ys)" using ok by simp
  note c = heap_ok_block [OF ok' q]
  have "k + n < 2 ^ 29" using ok by (simp add: heap_ok_def)
  let ?m = "put32 (p + k + n - 4) (SETB (k + n) False) (put32 p (SETB (k + n) False) (hp_mem h))"
  have mp: "heap_mapped h a" if "p \<le> a" "a + 4 \<le> p + k + n" for a
    using mapped_in [OF ok, of a] that b c by simp
  have "hp_merge_prev (p + k) (p + k - 4) h = Some (h\<lparr>hp_mem := ?m\<rparr>)"
    using b c mp \<open>k + n < 2 ^ 29\<close> by (simp add: hp_merge_prev_def PUT_def GET_def Let_def add.assoc)
  moreover have "same_outside p (p + k + n) (hp_mem h) ?m"
    using b c by (intro same_outside_put32) simp_all
  moreover have "segs ?m p [(k + n, False)]"
    using b c by (simp add: add.assoc)
  moreover have "\<forall>x. p + 4 \<le> x \<longrightarrow> x + 8 \<le> p + k + n \<longrightarrow> get32 ?m x = get32 (hp_mem h) x" by simp
  ultimately show ?thesis
    using heap_ok_replace [of h xs "[(k, False), (n, False)]" ys p "p + k + n" ?m "[(k + n, False)]"] ok p by auto
qed

lemma hp_merge_prev_none:
  assumes ok: "heap_ok h (xs @ ys)" and p: "p = hp_root h + tot xs" and xs: "xs = [] \<or> snd (last xs)"
  shows "hp_merge_prev p (p - 4) h = Some h"
proof -
  have "ALOC (get32 (hp_mem h) (p - 4)) \<and> heap_mapped h (p - 4)"
  proof (cases xs rule: rev_cases)
    case Nil
    then show ?thesis using ok p mapped_in [OF ok, of "p - 4"] by (auto simp: heap_ok_def)
  next
    case (snoc zs b)
    then obtain n where b: "xs = zs @ [(n, True)]" using xs by (cases b) auto
    have ok': "heap_ok h (zs @ (n, True) # ys)" using ok b by simp
    have p': "p - 4 = hp_root h + tot zs + n - 4" using p b by simp
    show ?thesis using heap_ok_block [OF ok' refl] mapped_in [OF ok, of "p - 4"] p' by simp
  qed
  then show ?thesis by (simp add: hp_merge_prev_def GET_def)
qed

text \<open>The list of blocks after merging the free block of size \<open>n\<close> between \<open>xs\<close> and \<open>ys\<close>.\<close>

fun trim_r :: "block list \<Rightarrow> nat \<times> block list" where
  "trim_r ((k, False) # ys) = (k, ys)"
| "trim_r ys = (0, ys)"

definition trim_l :: "block list \<Rightarrow> nat \<times> block list" where
  "trim_l xs = (if xs \<noteq> [] \<and> \<not> snd (last xs) then (fst (last xs), butlast xs) else (0, xs))"

definition merged :: "block list \<Rightarrow> nat \<Rightarrow> block list \<Rightarrow> block list" where
  "merged xs n ys = snd (trim_l xs) @ (fst (trim_l xs) + n + fst (trim_r ys), False) # snd (trim_r ys)"

lemma trim_r_cases: "(\<exists>k zs. ys = (k, False) # zs \<and> trim_r ys = (k, zs)) \<or> ((ys = [] \<or> snd (hd ys)) \<and> trim_r ys = (0, ys))"
  by (cases ys rule: trim_r.cases) auto

lemma trim_l_cases: "(\<exists>k zs. xs = zs @ [(k, False)] \<and> trim_l xs = (k, zs)) \<or> ((xs = [] \<or> snd (last xs)) \<and> trim_l xs = (0, xs))"
  by (cases xs rule: rev_cases) (auto simp: trim_l_def)

lemma hp_merge_ok:
  assumes ok: "heap_ok h (xs @ (n, False) # ys)" and p: "p = hp_root h + tot xs"
  shows "\<exists>m'. hp_merge p h = Some (h\<lparr>hp_mem := m'\<rparr>)
    \<and> same_outside (p - fst (trim_l xs)) (p + n + fst (trim_r ys)) (hp_mem h) m'
    \<and> heap_ok (h\<lparr>hp_mem := m'\<rparr>) (merged xs n ys)"
proof -
  note b = heap_ok_block [OF ok p]
  have "GET h p = Some (SETB n False)" using b mapped_in [OF ok, of p] by (simp add: GET_def)
  then have m: "hp_merge p h = Option.bind (hp_merge_next p (p + n) h) (hp_merge_prev p (p - 4))"
    using b by (simp add: hp_merge_def Let_def)
  have "\<exists>m1. hp_merge_next p (p + n) h = Some (h\<lparr>hp_mem := m1\<rparr>)
      \<and> same_outside p (p + n + fst (trim_r ys)) (hp_mem h) m1
      \<and> heap_ok (h\<lparr>hp_mem := m1\<rparr>) (xs @ (n + fst (trim_r ys), False) # snd (trim_r ys))"
    using trim_r_cases [of ys]
  proof
    assume "\<exists>k zs. ys = (k, False) # zs \<and> trim_r ys = (k, zs)"
    then obtain k zs where "ys = (k, False) # zs" "trim_r ys = (k, zs)" by blast
    then show ?thesis using hp_merge_next_free [of h xs n k zs p] ok p by auto
  next
    assume "(ys = [] \<or> snd (hd ys)) \<and> trim_r ys = (0, ys)"
    then show ?thesis using hp_merge_next_none [OF ok p] ok by (auto intro!: exI [of _ "hp_mem h"])
  qed
  then obtain m1 where m1: "hp_merge_next p (p + n) h = Some (h\<lparr>hp_mem := m1\<rparr>)"
    and out1: "same_outside p (p + n + fst (trim_r ys)) (hp_mem h) m1"
    and ok1: "heap_ok (h\<lparr>hp_mem := m1\<rparr>) (xs @ (n + fst (trim_r ys), False) # snd (trim_r ys))" by blast
  show ?thesis
    using trim_l_cases [of xs]
  proof
    assume "\<exists>k zs. xs = zs @ [(k, False)] \<and> trim_l xs = (k, zs)"
    then obtain k zs where xs: "xs = zs @ [(k, False)]" "trim_l xs = (k, zs)" by blast
    let ?q = "hp_root h + tot zs"
    have p': "p = ?q + k" using p xs by simp
    have "heap_ok (h\<lparr>hp_mem := m1\<rparr>) (zs @ (k, False) # (n + fst (trim_r ys), False) # snd (trim_r ys))"
      using ok1 xs(1) by simp
    from hp_merge_prev_free [OF this, of ?q] obtain m2 where
      "hp_merge_prev p (p - 4) (h\<lparr>hp_mem := m1\<rparr>) = Some (h\<lparr>hp_mem := m2\<rparr>)"
      and out2: "same_outside ?q (p + (n + fst (trim_r ys))) m1 m2"
      and "heap_ok (h\<lparr>hp_mem := m2\<rparr>) (zs @ (k + (n + fst (trim_r ys)), False) # snd (trim_r ys))"
      using p' by auto
    moreover have "same_outside ?q (p + n + fst (trim_r ys)) (hp_mem h) m2"
      using same_outside_trans [of ?q "p + n + fst (trim_r ys)" "hp_mem h" m1 m2]
        same_outside_mono [OF out1, of ?q] out2 p' by (simp add: add.assoc)
    ultimately show ?thesis using m m1 xs p' by (auto simp: merged_def add.assoc)
  next
    assume xs: "(xs = [] \<or> snd (last xs)) \<and> trim_l xs = (0, xs)"
    then have "hp_merge_prev p (p - 4) (h\<lparr>hp_mem := m1\<rparr>) = Some (h\<lparr>hp_mem := m1\<rparr>)"
      using hp_merge_prev_none [OF ok1] p by simp
    then show ?thesis using m m1 out1 ok1 xs by (auto simp: merged_def)
  qed
qed

section \<open>Allocated blocks\<close>

definition keeps :: "(nat \<times> nat) set \<Rightarrow> mem \<Rightarrow> mem \<Rightarrow> bool" where
  "keeps L m m' \<longleftrightarrow> (\<forall>q k x. (q, k) \<in> L \<longrightarrow> q \<le> x \<longrightarrow> x < q + k \<longrightarrow> m' x = m x)"

lemma keepsD: "keeps L m m' \<Longrightarrow> (q, k) \<in> L \<Longrightarrow> i < k \<Longrightarrow> m' (q + i) = m (q + i)"
  by (auto simp: keeps_def)

lemma keeps_trans: "keeps L m m1 \<Longrightarrow> keeps L m1 m2 \<Longrightarrow> keeps L m m2"
  by (auto simp: keeps_def)

lemma keeps_mono: "keeps L m m' \<Longrightarrow> L' \<subseteq> L \<Longrightarrow> keeps L' m m'"
  by (auto simp: keeps_def)

lemma keeps_refl [simp]: "keeps L m m"
  by (simp add: keeps_def)

lemma live_append: "live a (xs @ ys) = live a xs \<union> live (a + tot xs) ys"
  by (induction xs arbitrary: a) (auto simp: add.assoc)

lemma live_range: "segs m a bs \<Longrightarrow> (q, k) \<in> live a bs \<Longrightarrow> a + 4 \<le> q \<and> q + k + 4 \<le> a + tot bs"
  by (induction m a bs rule: segs.induct) (fastforce split: if_splits)+

lemma keeps_outside:
  assumes "same_outside p q m m'" "segs m a xs" "segs m b ys" "a + tot xs \<le> p" "q \<le> b"
  shows "keeps (live a xs \<union> live b ys) m m'"
  unfolding keeps_def
proof (intro allI impI)
  fix r k x
  assume "(r, k) \<in> live a xs \<union> live b ys" and x: "r \<le> x" "x < r + k"
  then have "x < p \<or> q \<le> x" using live_range [OF assms(2)] live_range [OF assms(3)] assms(4,5) by fastforce
  then show "m' x = m x" using assms(1) by (auto simp: same_outside_def)
qed

lemma live_trim: "live a (snd (trim_l xs)) = live a xs"
  "live (a + fst (trim_r ys)) (snd (trim_r ys)) = live a ys"
  using trim_l_cases [of xs] trim_r_cases [of ys] by (auto simp: live_append)

lemma tot_trim: "tot (snd (trim_l xs)) + fst (trim_l xs) = tot xs" "fst (trim_r ys) + tot (snd (trim_r ys)) = tot ys"
  using trim_l_cases [of xs] trim_r_cases [of ys] by auto

lemma live_merged: "live a (merged xs n ys) = live a xs \<union> live (a + tot xs + n) ys"
proof -
  have e: "a + tot (snd (trim_l xs)) + (fst (trim_l xs) + n + fst (trim_r ys)) = (a + tot xs + n) + fst (trim_r ys)"
    using tot_trim(1) [of xs] by linarith
  have "live (a + tot (snd (trim_l xs)) + (fst (trim_l xs) + n + fst (trim_r ys))) (snd (trim_r ys)) = live (a + tot xs + n) ys"
    unfolding e by (rule live_trim(2))
  then show ?thesis by (simp add: merged_def live_append live_trim(1))
qed

lemma coalesced_merged: "coalesced xs \<Longrightarrow> coalesced ys \<Longrightarrow> coalesced (merged xs n ys)"
proof -
  assume x: "coalesced xs" and y: "coalesced ys"
  have l: "coalesced (snd (trim_l xs)) \<and> (snd (trim_l xs) = [] \<or> snd (last (snd (trim_l xs))))"
    using trim_l_cases [of xs] x by (auto simp: successively_append_iff)
  have r: "coalesced (snd (trim_r ys)) \<and> (snd (trim_r ys) = [] \<or> snd (hd (snd (trim_r ys))))"
    using trim_r_cases [of ys] y by (auto simp: successively_Cons)
  show ?thesis unfolding merged_def using l r
    by (auto simp: successively_append_iff successively_Cons)
qed

lemma hp_merge_spec:
  assumes ok: "heap_ok h (xs @ (n, False) # ys)" and p: "p = hp_root h + tot xs"
  shows "\<exists>m'. hp_merge p h = Some (h\<lparr>hp_mem := m'\<rparr>) \<and> heap_ok (h\<lparr>hp_mem := m'\<rparr>) (merged xs n ys)
    \<and> keeps (live (hp_root h) xs \<union> live (p + n) ys) (hp_mem h) m'"
proof -
  obtain m' where m': "hp_merge p h = Some (h\<lparr>hp_mem := m'\<rparr>)"
      "same_outside (p - fst (trim_l xs)) (p + n + fst (trim_r ys)) (hp_mem h) m'"
      "heap_ok (h\<lparr>hp_mem := m'\<rparr>) (merged xs n ys)"
    using hp_merge_ok [OF ok p] by blast
  have s: "segs (hp_mem h) (hp_root h) xs" "segs (hp_mem h) (p + n) ys"
    using heap_ok_parts [OF ok] p by (simp_all add: segs_append)
  then have "segs (hp_mem h) (hp_root h) (snd (trim_l xs))" "segs (hp_mem h) (p + n + fst (trim_r ys)) (snd (trim_r ys))"
    using trim_l_cases [of xs] trim_r_cases [of ys] by (auto simp: segs_append)
  moreover have "hp_root h + tot (snd (trim_l xs)) \<le> p - fst (trim_l xs)"
    using tot_trim(1) [of xs] p by linarith
  ultimately have "keeps (live (hp_root h) (snd (trim_l xs)) \<union> live (p + n + fst (trim_r ys)) (snd (trim_r ys))) (hp_mem h) m'"
    by (intro keeps_outside [OF m'(2)]) simp_all
  then show ?thesis using m'(1,3) by (simp only: live_trim) blast
qed

section \<open>Release\<close>

lemma live_split:
  assumes "segs m a bs" "(q, k) \<in> live a bs"
  obtains xs ys where "bs = xs @ (k + 8, True) # ys" "q = a + tot xs + 4"
  using assms
proof (induction m a bs arbitrary: thesis rule: segs.induct)
  case (2 m a n al bs)
  show thesis
  proof (cases "(q, k) \<in> live (a + n) bs")
    case True
    then obtain xs ys where xs: "bs = xs @ (k + 8, True) # ys" "q = a + n + tot xs + 4" using 2 by auto
    show thesis by (rule 2(2) [of "(n, al) # xs" ys]) (use xs in simp_all)
  next
    case False
    then have "al" "q = a + 4" "k = n - 8" using 2(4) by (auto split: if_splits)
    then show thesis using 2(2) [of "[]" bs] 2(3) by simp
  qed
qed simp

lemma hp_free_spec:
  assumes ok: "heap_ok h (xs @ (n, True) # ys)" and p: "p = hp_root h + tot xs"
  shows "\<exists>m'. hp_free (p + 4) h = Some (h\<lparr>hp_mem := m'\<rparr>) \<and> heap_ok (h\<lparr>hp_mem := m'\<rparr>) (merged xs n ys)
    \<and> keeps (live (hp_root h) xs \<union> live (p + n) ys) (hp_mem h) m'"
proof -
  note b = heap_ok_block [OF ok p]
  let ?m = "put32 (p + n - 4) (SETB n False) (put32 p (SETB n False) (hp_mem h))"
  let ?h = "h\<lparr>hp_mem := ?m\<rparr>"
  have mp: "heap_mapped h a" if "p \<le> a" "a + 4 \<le> p + n" for a
    using mapped_in [OF ok, of a] that b by simp
  have "p + 4 \<le> hp_max h" using mp [of p] b by (simp add: heap_mapped_def)
  then have free: "hp_free (p + 4) h = hp_merge p ?h"
    using b mp by (simp add: hp_free_def GET_def PUT_def Let_def)
  have out: "same_outside p (p + n) (hp_mem h) ?m" using b by (intro same_outside_put32) simp_all
  have "segs ?m p [(n, False)]" using b by simp
  then have ok': "heap_ok ?h (xs @ (n, False) # ys)"
    using heap_ok_replace [of h xs "[(n, True)]" ys p "p + n" ?m "[(n, False)]"] ok p out by simp
  have s: "segs (hp_mem h) (hp_root h) xs" "segs (hp_mem h) (p + n) ys"
    using heap_ok_parts [OF ok] p by (simp_all add: segs_append)
  have k: "keeps (live (hp_root h) xs \<union> live (p + n) ys) (hp_mem h) ?m"
    by (rule keeps_outside [OF out s]) (use p in simp_all)
  have "p = hp_root ?h + tot xs" using p by simp
  from hp_merge_spec [OF ok' this] free k keeps_trans show ?thesis by fastforce
qed

lemma live_remove:
  assumes s: "segs m a (xs @ (k + 8, True) # ys)"
  shows "live a (xs @ (k + 8, True) # ys) - {(a + tot xs + 4, k)} = live a xs \<union> live (a + tot xs + (k + 8)) ys"
proof -
  have "segs m a xs" "segs m (a + tot xs + (k + 8)) ys" using s by (simp_all add: segs_append)
  from live_range [OF this(1)] live_range [OF this(2)] show ?thesis by (fastforce simp: live_append)
qed

lemma free_live:
  assumes "heap_ok h bs" "coalesced bs" "(q, k) \<in> live (hp_root h) bs"
  shows "\<exists>h' bs'. hp_free q h = Some h' \<and> heap_ok h' bs' \<and> coalesced bs' \<and> hp_root h' = hp_root h
    \<and> live (hp_root h) bs' = live (hp_root h) bs - {(q, k)}
    \<and> keeps (live (hp_root h) bs - {(q, k)}) (hp_mem h) (hp_mem h')"
proof -
  obtain xs ys where bs: "bs = xs @ (k + 8, True) # ys" "q = hp_root h + tot xs + 4"
    using live_split [OF heap_ok_parts(1) [OF assms(1)] assms(3)] .
  let ?p = "hp_root h + tot xs"
  have ok: "heap_ok h (xs @ (k + 8, True) # ys)" using assms(1) bs by simp
  note live = live_remove [OF heap_ok_parts(1) [OF ok], folded bs]
  have "coalesced xs" "coalesced ys" using assms(2) bs by (auto simp: successively_append_iff successively_Cons)
  then have co: "coalesced (merged xs (k + 8) ys)" by (rule coalesced_merged)
  obtain m' where m': "hp_free q h = Some (h\<lparr>hp_mem := m'\<rparr>)" "heap_ok (h\<lparr>hp_mem := m'\<rparr>) (merged xs (k + 8) ys)"
    "keeps (live (hp_root h) xs \<union> live (?p + (k + 8)) ys) (hp_mem h) m'"
    using hp_free_spec [OF ok refl] bs(2) by auto
  have "live (hp_root h) (merged xs (k + 8) ys) = live (hp_root h) bs - {(q, k)}"
    unfolding live by (rule live_merged)
  then show ?thesis using m' co unfolding live by (intro exI [of _ "h\<lparr>hp_mem := m'\<rparr>"] exI conjI) simp_all
qed

section \<open>Growing the heap\<close>

lemma segs_dvd: "segs m a bs \<Longrightarrow> 8 dvd tot bs"
  by (induction m a bs rule: segs.induct) auto

lemma align_gap: "8 dvd (x + 4 :: nat) \<Longrightarrow> 8 dvd y \<Longrightarrow> x \<le> y \<Longrightarrow> x + 4 \<le> y"
  by presburger

lemma ceil_mult_le: "0 < n \<Longrightarrow> x \<le> (x + n - 1) div n * (n :: nat)"
  using div_mult_mod_eq [of "x + n - 1" n] mod_less_divisor [of n "x + n - 1"] by linarith

lemma hp_append_block:
  assumes ok: "heap_ok h bs" and siz: "8 \<le> siz" "8 dvd siz" "tot bs + siz < 2 ^ 29" and max: "hp_brk h + siz \<le> hp_max h"
  defines "m \<equiv> put32 (hp_brk h + siz) (SETB 0 True) (put32 (hp_brk h + siz - 4) (SETB siz False) (put32 (hp_brk h) (SETB siz False) (hp_mem h)))"
  defines "h1 \<equiv> h\<lparr>hp_brk := hp_brk h + siz, hp_mem := m\<rparr>"
  shows "hp_append siz h = hp_merge (hp_brk h) h1" "heap_ok h1 (bs @ [(siz, False)])" "same_outside (hp_brk h) (hp_brk h + siz + 4) (hp_mem h) m"
proof -
  have al: "unat (HALIGN (of_nat siz) 8) = siz" using siz by (intro HALIGN_same) simp_all
  have dvd: "4096 dvd hp_max h" "4096 dvd hp_base h" using ok by (simp_all add: heap_ok_def)
  have "8 dvd hp_max h" using dvd(1) by (rule dvd_trans [rotated]) simp
  moreover have "8 dvd hp_base h" using dvd(2) by (rule dvd_trans [rotated]) simp
  moreover have "8 dvd tot bs" using ok segs_dvd by (auto simp: heap_ok_def)
  moreover have "hp_brk h = hp_base h + 12 + tot bs" using ok by (simp add: heap_ok_def)
  ultimately have fits: "hp_brk h + siz + 4 \<le> hp_max h" using align_gap [of "hp_brk h + siz" "hp_max h"] max siz(2) by (simp add: add.assoc)
  let ?b = "hp_brk h"
  have "heap_mapped (h\<lparr>hp_brk := ?b + siz\<rparr>) a" if "?b \<le> a" "a \<le> ?b + siz" for a
    using that fits ok by (simp add: heap_mapped_def heap_ok_def)
  then show "hp_append siz h = hp_merge (hp_brk h) h1"
    using siz(1) unfolding hp_append_def Let_def h1_def m_def by (simp add: hp_sbrk_def Let_def PUT_def al)
  show out: "same_outside ?b (?b + siz + 4) (hp_mem h) m"
    unfolding m_def using siz by (intro same_outside_put32) simp_all
  note s = heap_ok_parts [OF ok]
  then have "segs m (hp_root h) bs" using same_outside_segs [OF out] by simp
  moreover have "segs m ?b [(siz, False)]" unfolding m_def using siz by simp
  moreover have "get32 m (hp_root h - 4) = get32 (hp_mem h) (hp_root h - 4)"
    using ok s by (intro same_outside_get32 [OF out]) (auto simp: heap_ok_def)
  moreover have "get32 m (?b + siz) = SETB 0 True" by (simp add: m_def)
  ultimately show "heap_ok h1 (bs @ [(siz, False)])"
    using ok siz fits unfolding h1_def by (auto simp: heap_ok_def segs_append add.assoc)
qed

lemma hp_append_spec:
  assumes ok: "heap_ok h bs" and siz: "8 \<le> siz" "8 dvd siz" "tot bs + siz < 2 ^ 29" and max: "hp_brk h + siz \<le> hp_max h"
  shows "\<exists>h'. hp_append siz h = Some h' \<and> heap_ok h' (merged bs siz []) \<and> hp_root h' = hp_root h
    \<and> keeps (live (hp_root h) bs) (hp_mem h) (hp_mem h')"
proof -
  let ?b = "hp_brk h"
  let ?m = "put32 (?b + siz) (SETB 0 True) (put32 (?b + siz - 4) (SETB siz False) (put32 ?b (SETB siz False) (hp_mem h)))"
  let ?h = "h\<lparr>hp_brk := ?b + siz, hp_mem := ?m\<rparr>"
  note h1 = hp_append_block [OF assms]
  note s = heap_ok_parts [OF ok]
  have "keeps (live (hp_root h) bs \<union> live (?b + siz + 4) []) (hp_mem h) ?m"
    by (rule keeps_outside [OF h1(3) s(1)]) (use s in simp_all)
  moreover have "?b = hp_root ?h + tot bs" using s by simp
  ultimately obtain m' where "hp_merge ?b ?h = Some (?h\<lparr>hp_mem := m'\<rparr>)" "heap_ok (?h\<lparr>hp_mem := m'\<rparr>) (merged bs siz [])"
    "keeps (live (hp_root h) bs) ?m m'" "keeps (live (hp_root h) bs) (hp_mem h) ?m"
    using hp_merge_spec [of ?h bs siz "[]" ?b] h1(2) by auto
  then show ?thesis using h1(1) keeps_trans by (auto intro!: exI [of _ "?h\<lparr>hp_mem := m'\<rparr>"])
qed

text \<open>The allocated blocks that are left when some are released.\<close>

definition rest :: "(nat \<times> nat) set \<Rightarrow> nat list \<Rightarrow> (nat \<times> nat) set" where
  "rest L ns = {b \<in> L. fst b \<notin> set ns}"

lemma rest_Nil [simp]: "rest L [] = L"
  by (simp add: rest_def)

lemma merged_snoc: "ys \<noteq> [] \<Longrightarrow> merged xs n (ys @ [b]) = merged xs n ys @ [b]"
  by (cases ys rule: trim_r.cases) (simp_all add: merged_def)

lemma tot_merged: "tot (merged xs n ys) = tot xs + n + tot ys"
  using tot_trim(1) [of xs] tot_trim(2) [of ys] by (simp add: merged_def)

lemma hp_free_inner:
  assumes ok: "heap_ok h (xs @ [b])" "coalesced (xs @ [b])" and q: "(q, k) \<in> live (hp_root h) xs" "q + k + 4 < hp_root h + tot xs"
  shows "\<exists>m' xs'. hp_free q h = Some (h\<lparr>hp_mem := m'\<rparr>) \<and> heap_ok (h\<lparr>hp_mem := m'\<rparr>) (xs' @ [b]) \<and> coalesced (xs' @ [b])
    \<and> tot xs' = tot xs \<and> live (hp_root h) xs' = rest (live (hp_root h) xs) [q]
    \<and> keeps (rest (live (hp_root h) (xs @ [b])) [q]) (hp_mem h) m'"
proof -
  have segs: "segs (hp_mem h) (hp_root h) (xs @ [b])" using heap_ok_parts [OF ok(1)] by simp
  then obtain us vs where xs: "xs = us @ (k + 8, True) # vs" "q = hp_root h + tot us + 4"
    using live_split q(1) by (metis segs_append)
  then have vs: "vs \<noteq> []" using q(2) by auto
  let ?p = "hp_root h + tot us"
  have ok': "heap_ok h (us @ (k + 8, True) # (vs @ [b]))" using ok(1) xs by simp
  obtain m' where m': "hp_free q h = Some (h\<lparr>hp_mem := m'\<rparr>)" "heap_ok (h\<lparr>hp_mem := m'\<rparr>) (merged us (k + 8) vs @ [b])"
    "keeps (live (hp_root h) us \<union> live (?p + (k + 8)) (vs @ [b])) (hp_mem h) m'"
    using hp_free_spec [OF ok' refl] xs(2) by (auto simp: merged_snoc [OF vs])
  have "coalesced us" "coalesced (vs @ [b])" using ok(2) xs by (auto simp: successively_append_iff successively_Cons)
  then have "coalesced (merged us (k + 8) vs @ [b])" using coalesced_merged [of us "vs @ [b]"] by (simp add: merged_snoc [OF vs])
  moreover have "tot (merged us (k + 8) vs) = tot xs" using xs by (simp add: tot_merged)
  moreover have r: "rest (live (hp_root h) (us @ (k + 8, True) # zs)) [q] = live (hp_root h) us \<union> live (?p + (k + 8)) zs"
    if "segs (hp_mem h) (hp_root h) (us @ (k + 8, True) # zs)" for zs
  proof -
    have "segs (hp_mem h) (hp_root h) us" "segs (hp_mem h) (?p + (k + 8)) zs" using that by (simp_all add: segs_append)
    from live_range [OF this(1)] live_range [OF this(2)] show ?thesis using xs(2) by (fastforce simp: rest_def live_append)
  qed
  have "live (hp_root h) (merged us (k + 8) vs) = rest (live (hp_root h) xs) [q]"
    using r [of vs] segs xs(1) by (simp add: live_merged segs_append)
  moreover have "rest (live (hp_root h) (xs @ [b])) [q] = live (hp_root h) us \<union> live (?p + (k + 8)) (vs @ [b])"
    using r [of "vs @ [b]"] segs xs(1) by simp
  ultimately show ?thesis using m' by (intro exI [of _ m'] exI [of _ "merged us (k + 8) vs"]) simp
qed

section \<open>Allocation\<close>

text \<open>
  What an allocation of a block of size \<open>siz\<close>, header and footer included, leaves behind, where \<open>L\<close> are the blocks that stay allocated.
\<close>

definition malloc_post :: "nat \<Rightarrow> heap_t \<Rightarrow> (nat \<times> nat) set \<Rightarrow> nat \<Rightarrow> heap_t \<Rightarrow> block list \<Rightarrow> bool" where
  "malloc_post siz h L p h' bs' \<longleftrightarrow>
     heap_ok h' bs' \<and> coalesced bs' \<and> hp_root h' = hp_root h
     \<and> live (hp_root h) bs' = insert (p, siz - 8) L \<and> p \<notin> fst ` L \<and> keeps L (hp_mem h) (hp_mem h')"

lemma malloc_post_block:
  assumes ok: "heap_ok h (xs @ (n, False) # ys)" and p: "p = hp_root h + tot xs"
    and out: "same_outside p (p + n) (hp_mem h) m'"
    and ok': "heap_ok (h\<lparr>hp_mem := m'\<rparr>) (xs @ (siz, True) # zs @ ys)"
    and zs: "coalesced (xs @ (siz, True) # zs @ ys)" "live (p + siz) zs = {}" "siz + tot zs = n"
  shows "malloc_post siz h (live (hp_root h) (xs @ (n, False) # ys)) (p + 4) (h\<lparr>hp_mem := m'\<rparr>) (xs @ (siz, True) # zs @ ys)"
proof -
  have s: "segs (hp_mem h) (hp_root h) xs" "segs (hp_mem h) (p + n) ys"
    using heap_ok_parts [OF ok] p by (simp_all add: segs_append)
  have n: "8 \<le> n" using heap_ok_block [OF ok p] by simp
  have live: "live (hp_root h) (xs @ (n, False) # ys) = live (hp_root h) xs \<union> live (p + n) ys"
    using p by (simp add: live_append)
  have "keeps (live (hp_root h) xs \<union> live (p + n) ys) (hp_mem h) m'"
    by (rule keeps_outside [OF out s]) (use p in simp_all)
  moreover have "p + 4 \<notin> fst ` (live (hp_root h) xs \<union> live (p + n) ys)"
    using live_range [OF s(1)] live_range [OF s(2)] p n by fastforce
  moreover have "live (hp_root h) (xs @ (siz, True) # zs @ ys) = insert (p + 4, siz - 8) (live (hp_root h) xs \<union> live (p + n) ys)"
  proof -
    have "p + siz + tot zs = p + n" using zs(3) by simp
    then show ?thesis using p zs(2) by (simp only: live_append live.simps if_True) auto
  qed
  ultimately show ?thesis using ok' zs(1) by (simp add: malloc_post_def live)
qed

lemma malloc_fit:
  assumes ok: "heap_ok h (xs @ (n, False) # ys)" and co: "coalesced (xs @ (n, False) # ys)"
    and p: "p = hp_root h + tot xs" and siz: "8 \<le> siz" "8 dvd siz" "siz \<le> n" and "0 < fuel"
  shows "\<exists>h' bs'. malloc_loop phy fuel siz p h = Some (p + 4, h') \<and> malloc_post siz h (live (hp_root h) (xs @ (n, False) # ys)) (p + 4) h' bs'"
proof -
  obtain f where f: "fuel = Suc f" using \<open>0 < fuel\<close> by (cases fuel) auto
  note b = heap_ok_block [OF ok p]
  have get: "GET h p = Some (SETB n False)" using b mapped_in [OF ok, of p] by (simp add: GET_def)
  have co': "coalesced xs" "coalesced ys" "ys = [] \<or> snd (hd ys)"
    using co by (auto simp: successively_append_iff successively_Cons)
  show ?thesis
  proof (cases "siz < n")
    case True
    then obtain m' where m': "hp_split p n siz h = Some (h\<lparr>hp_mem := m'\<rparr>)" "same_outside p (p + n) (hp_mem h) m'"
      "heap_ok (h\<lparr>hp_mem := m'\<rparr>) (xs @ (siz, True) # [(n - siz, False)] @ ys)"
      using hp_split_ok [OF ok p siz(1,2)] by auto
    have "malloc_post siz h (live (hp_root h) (xs @ (n, False) # ys)) (p + 4) (h\<lparr>hp_mem := m'\<rparr>) (xs @ (siz, True) # [(n - siz, False)] @ ys)"
      by (rule malloc_post_block [OF ok p m'(2,3)])
        (use co' True in \<open>auto simp: successively_append_iff successively_Cons\<close>)
    moreover have "malloc_loop phy fuel siz p h = Some (p + 4, h\<lparr>hp_mem := m'\<rparr>)"
      using f get True b(3) m'(1) by (simp add: malloc_loop.simps)
    ultimately show ?thesis by blast
  next
    case False
    then have n: "n = siz" using siz(3) by simp
    obtain m' where m': "hp_take p n h = Some (h\<lparr>hp_mem := m'\<rparr>)" "same_outside p (p + n) (hp_mem h) m'"
      "heap_ok (h\<lparr>hp_mem := m'\<rparr>) (xs @ (siz, True) # [] @ ys)"
      using hp_take_ok [OF ok p] n by auto
    have "malloc_post siz h (live (hp_root h) (xs @ (n, False) # ys)) (p + 4) (h\<lparr>hp_mem := m'\<rparr>) (xs @ (siz, True) # [] @ ys)"
      by (rule malloc_post_block [OF ok p m'(2,3)])
        (use co' n in \<open>auto simp: successively_append_iff successively_Cons\<close>)
    moreover have "malloc_loop phy fuel siz p h = Some (p + 4, h\<lparr>hp_mem := m'\<rparr>)"
      using f get n b(3) m'(1) by (simp add: malloc_loop.simps)
    ultimately show ?thesis by blast
  qed
qed

text \<open>
  The condition on the nodes that are released while the heap grows: they are allocated blocks, and none of them touches the last block
  of the heap.
\<close>

definition apart :: "phyauto \<Rightarrow> heap_t \<Rightarrow> block list \<Rightarrow> bool" where
  "apart phy h bs \<longleftrightarrow> (\<forall>n ns. phy (hp_max h) n = Some ns \<longrightarrow> distinct ns \<and>
     (\<forall>q \<in> set ns. \<exists>k. (q, k) \<in> live (hp_root h) bs \<and> q + k + 4 < hp_root h + tot (butlast bs)))"

lemma hp_free_inners:
  assumes "heap_ok h (xs @ [b])" "coalesced (xs @ [b])" "distinct ns"
    "\<forall>q \<in> set ns. \<exists>k. (q, k) \<in> live (hp_root h) xs \<and> q + k + 4 < hp_root h + tot xs"
  shows "\<exists>m' xs'. foldM hp_free ns h = Some (h\<lparr>hp_mem := m'\<rparr>) \<and> heap_ok (h\<lparr>hp_mem := m'\<rparr>) (xs' @ [b]) \<and> coalesced (xs' @ [b])
    \<and> tot xs' = tot xs \<and> live (hp_root h) xs' = rest (live (hp_root h) xs) ns
    \<and> keeps (rest (live (hp_root h) (xs @ [b])) ns) (hp_mem h) m'"
  using assms
proof (induction ns arbitrary: h xs)
  case Nil
  then show ?case by (auto intro!: exI [of _ "hp_mem h"] exI [of _ xs])
next
  case (Cons q ns)
  then obtain k where k: "(q, k) \<in> live (hp_root h) xs" "q + k + 4 < hp_root h + tot xs" by auto
  obtain m1 xs1 where 1: "hp_free q h = Some (h\<lparr>hp_mem := m1\<rparr>)" "heap_ok (h\<lparr>hp_mem := m1\<rparr>) (xs1 @ [b])" "coalesced (xs1 @ [b])"
    "tot xs1 = tot xs" "live (hp_root h) xs1 = rest (live (hp_root h) xs) [q]"
    "keeps (rest (live (hp_root h) (xs @ [b])) [q]) (hp_mem h) m1"
    using hp_free_inner [OF Cons.prems(1,2) k] by blast
  let ?h = "h\<lparr>hp_mem := m1\<rparr>"
  have "\<forall>r \<in> set ns. \<exists>k. (r, k) \<in> live (hp_root ?h) xs1 \<and> r + k + 4 < hp_root ?h + tot xs1"
    using Cons.prems(3,4) 1(4,5) by (fastforce simp: rest_def)
  from Cons.IH [OF 1(2,3) _ this] obtain m' xs' where 2: "foldM hp_free ns ?h = Some (?h\<lparr>hp_mem := m'\<rparr>)"
    "heap_ok (?h\<lparr>hp_mem := m'\<rparr>) (xs' @ [b])" "coalesced (xs' @ [b])" "tot xs' = tot xs1" "live (hp_root ?h) xs' = rest (live (hp_root ?h) xs1) ns"
    "keeps (rest (live (hp_root ?h) (xs1 @ [b])) ns) (hp_mem ?h) m'"
    using Cons.prems(3) by auto
  have L: "rest (rest L [q]) ns = rest L (q # ns)" for L by (auto simp: rest_def)
  have sub: "rest (live (hp_root h) (xs @ [b])) (q # ns) \<subseteq> rest (live (hp_root h) (xs @ [b])) [q]"
    "rest (live (hp_root h) (xs @ [b])) (q # ns) \<subseteq> rest (live (hp_root h) (xs1 @ [b])) ns"
    using 1(4,5) by (auto simp: rest_def live_append)
  have "keeps (rest (live (hp_root h) (xs @ [b])) (q # ns)) m1 m'" using keeps_mono [OF 2(6), simplified, OF sub(2)] .
  then have "keeps (rest (live (hp_root h) (xs @ [b])) (q # ns)) (hp_mem h) m'" by (rule keeps_trans [OF keeps_mono [OF 1(6) sub(1)]])
  then show ?case using 1 2 L by (intro exI [of _ m'] exI [of _ xs']) simp
qed

lemma hp_grow_cases:
  "hp_grow phy siz h = Some h \<and> hp_brk h + siz \<le> hp_max h
   \<or> (\<exists>n. phy (hp_max h) n = None \<and> hp_grow phy siz h = None)
   \<or> (\<exists>n ns. phy (hp_max h) n = Some ns
       \<and> hp_grow phy siz h = do { h \<leftarrow> foldM hp_free ns h; Some (h\<lparr>hp_max := hp_max h + n * PAGE_BYTES\<rparr>) }
       \<and> hp_brk h + siz \<le> hp_max h + n * PAGE_BYTES)"
proof -
  define diff where "diff = int (hp_brk h) + int siz - int (hp_max h)"
  define n where "n = (nat diff + PAGE_BYTES - 1) div PAGE_BYTES"
  have grow: "hp_grow phy siz h = (if diff > 0 then do {
      ns \<leftarrow> phy (hp_max h) n; h \<leftarrow> foldM hp_free ns h; Some (h\<lparr>hp_max := hp_max h + n * PAGE_BYTES\<rparr>) } else Some h)"
    by (simp only: hp_grow_def Let_def diff_def n_def)
  show ?thesis
  proof (cases "diff > 0")
    case True
    have "nat diff \<le> n * PAGE_BYTES" unfolding n_def by (rule ceil_mult_le) (simp add: PAGE_BYTES_def)
    then have "hp_brk h + siz \<le> hp_max h + n * PAGE_BYTES" using True by (simp add: diff_def)
    then show ?thesis using True grow by (cases "phy (hp_max h) n") auto
  qed (auto simp: grow diff_def)
qed

lemma hp_grow_spec:
  assumes ok: "heap_ok h (xs @ [b])" "coalesced (xs @ [b])" and ap: "apart phy h (xs @ [b])"
  shows "hp_grow phy siz h = None \<and> (\<exists>n. phy (hp_max h) n = None) \<or>
    (\<exists>h1 xs1 ns. hp_grow phy siz h = Some h1 \<and> (ns = [] \<or> (\<exists>n. phy (hp_max h) n = Some ns)) \<and> heap_ok h1 (xs1 @ [b])
      \<and> coalesced (xs1 @ [b]) \<and> tot xs1 = tot xs \<and> hp_root h1 = hp_root h \<and> hp_brk h1 = hp_brk h \<and> hp_brk h + siz \<le> hp_max h1
      \<and> live (hp_root h) (xs1 @ [b]) = rest (live (hp_root h) (xs @ [b])) ns
      \<and> keeps (rest (live (hp_root h) (xs @ [b])) ns) (hp_mem h) (hp_mem h1))"
proof -
  from hp_grow_cases [of phy siz h] show ?thesis
  proof (elim disjE conjE exE)
    assume "hp_grow phy siz h = Some h" "hp_brk h + siz \<le> hp_max h"
    then show ?thesis using ok by (intro disjI2 exI [of _ h] exI [of _ xs] exI [of _ "[]"]) simp
  next
    fix pages assume "phy (hp_max h) pages = None" "hp_grow phy siz h = None"
    then show ?thesis by blast
  next
    fix pages ns
    assume 3: "phy (hp_max h) pages = Some ns" and grow: "hp_grow phy siz h = do {
        h \<leftarrow> foldM hp_free ns h; Some (h\<lparr>hp_max := hp_max h + pages * PAGE_BYTES\<rparr>) }"
      and fit: "hp_brk h + siz \<le> hp_max h + pages * PAGE_BYTES"
    obtain n al where b: "b = (n, al)" by (cases b)
    have q: "(q, k) \<in> live (hp_root h) xs" if "(q, k) \<in> live (hp_root h) (xs @ [b])" "q + k + 4 < hp_root h + tot xs" for q k
      using that b by (auto simp: live_append split: if_splits)
    have ns: "distinct ns" "\<forall>q \<in> set ns. \<exists>k. (q, k) \<in> live (hp_root h) xs \<and> q + k + 4 < hp_root h + tot xs"
      using ap 3 q by (simp_all add: apart_def) blast
    from hp_free_inners [OF ok this] obtain m' xs' where f: "foldM hp_free ns h = Some (h\<lparr>hp_mem := m'\<rparr>)"
      "heap_ok (h\<lparr>hp_mem := m'\<rparr>) (xs' @ [b])" "coalesced (xs' @ [b])" "tot xs' = tot xs"
      "live (hp_root h) xs' = rest (live (hp_root h) xs) ns" "keeps (rest (live (hp_root h) (xs @ [b])) ns) (hp_mem h) m'" by blast
    let ?h = "h\<lparr>hp_mem := m', hp_max := hp_max h + pages * PAGE_BYTES\<rparr>"
    have g: "hp_grow phy siz h = Some ?h"
      using f(1) by (simp add: grow)
    have "hp_brk h + siz \<le> hp_max ?h" using fit by simp
    moreover have "heap_ok ?h (xs' @ [b])" using f(2) unfolding heap_ok_def by (auto simp: PAGE_BYTES_def)
    moreover have "live (hp_root h) (xs' @ [b]) = rest (live (hp_root h) (xs @ [b])) ns"
      using f(4,5) ns(2) b by (auto simp: live_append rest_def)
    ultimately show ?thesis using g f(3,4,6) 3 by (intro disjI2 exI [of _ ?h] exI [of _ xs'] exI [of _ ns]) auto
  qed
qed

text \<open>
  The outcome of the search from some place on: it stops only if the pages for a larger heap cannot be mapped, and otherwise returns a new
  block next to the blocks that are left.
\<close>

definition malloc_result :: "phyauto \<Rightarrow> nat \<Rightarrow> heap_t \<Rightarrow> block list \<Rightarrow> (nat \<times> heap_t) option \<Rightarrow> bool" where
  "malloc_result phy siz h bs r \<longleftrightarrow> (case r of
     None \<Rightarrow> \<exists>n. phy (hp_max h) n = None
   | Some (p, h') \<Rightarrow> \<exists>bs' ns. (ns = [] \<or> (\<exists>n. phy (hp_max h) n = Some ns)) \<and> malloc_post siz h (rest (live (hp_root h) bs) ns) p h' bs')"

lemma malloc_resultI: "malloc_post siz h (live (hp_root h) bs) p h' bs' \<Longrightarrow> malloc_result phy siz h bs (Some (p, h'))"
  by (simp add: malloc_result_def) (metis rest_Nil)

lemma malloc_post_extend:
  assumes "malloc_post siz h1 L p h' bs'" "hp_root h1 = hp_root h" "keeps L (hp_mem h) (hp_mem h1)"
  shows "malloc_post siz h L p h' bs'"
  using assms keeps_trans by (auto simp: malloc_post_def)

lemma malloc_fit_end:
  assumes "heap_ok h (xs @ [(n, al)])" "coalesced (xs @ [(n, al)])" "hp_append siz h = Some h1"
    "heap_ok h1 (merged (xs @ [(n, al)]) siz [])" "hp_root h1 = hp_root h" "p = hp_root h + tot xs"
    and siz: "8 \<le> siz" "8 dvd siz" and fuel: "2 \<le> fuel"
  shows "\<exists>q h' bs'. malloc_loop phy fuel siz p h1 = Some (q, h') \<and> malloc_post siz h1 (live (hp_root h) (xs @ [(n, al)])) q h' bs'"
proof -
  let ?bs = "merged (xs @ [(n, al)]) siz []"
  have co: "coalesced ?bs" using coalesced_merged [OF assms(2)] by simp
  have live: "live (hp_root h1) ?bs = live (hp_root h) (xs @ [(n, al)])" using live_merged assms(5) by auto
  obtain f where f: "fuel = Suc (Suc f)" using fuel by (metis Suc_le_D Suc_le_mono numeral_2_eq_2)
  have p1: "p = hp_root h1 + tot xs" using assms(5,6) by simp
  show ?thesis
  proof (cases al)
    case True
    then have m: "?bs = (xs @ [(n, True)]) @ (siz, False) # []" by (simp add: merged_def trim_l_def)
    have ok1: "heap_ok h1 (xs @ (n, True) # [(siz, False)])" using assms(4) m by simp
    note c = heap_ok_block [OF ok1 p1]
    have "hp_brk h1 = p + n + siz" using heap_ok_parts [OF ok1] p1 by simp
    moreover have "GET h1 p = Some (SETB n True)" using c mapped_in [OF ok1, of p] by (simp add: GET_def)
    ultimately have "malloc_loop phy fuel siz p h1 = malloc_loop phy (Suc f) siz (p + n) h1"
      using c(3) siz(1) by (simp add: f malloc_loop.simps(2) [of phy "Suc f"] Let_def)
    moreover have q: "p + n = hp_root h1 + tot (xs @ [(n, True)])" using p1 by simp
    have "\<exists>h' bs'. malloc_loop phy (Suc f) siz (p + n) h1 = Some (p + n + 4, h')
        \<and> malloc_post siz h1 (live (hp_root h1) ((xs @ [(n, True)]) @ (siz, False) # [])) (p + n + 4) h' bs'"
      by (rule malloc_fit [OF assms(4) [unfolded m] co [unfolded m] q siz order_refl zero_less_Suc])
    ultimately show ?thesis using live unfolding m by metis
  next
    case False
    then have m: "?bs = xs @ (n + siz, False) # []" by (simp add: merged_def trim_l_def)
    have "\<exists>h' bs'. malloc_loop phy fuel siz p h1 = Some (p + 4, h')
        \<and> malloc_post siz h1 (live (hp_root h1) (xs @ (n + siz, False) # [])) (p + 4) h' bs'"
      using fuel by (intro malloc_fit [OF assms(4) [unfolded m] co [unfolded m] p1 siz]) simp_all
    then show ?thesis using live unfolding m by metis
  qed
qed

lemma malloc_last:
  assumes ok: "heap_ok h (xs @ [(n, al)])" and co: "coalesced (xs @ [(n, al)])" and ap: "apart phy h (xs @ [(n, al)])"
    and p: "p = hp_root h + tot xs" and siz: "8 \<le> siz" "8 dvd siz" "tot (xs @ [(n, al)]) + siz < 2 ^ 29"
    and no: "al \<or> n < siz" and fuel: "3 \<le> fuel"
  shows "malloc_result phy siz h (xs @ [(n, al)]) (malloc_loop phy fuel siz p h)"
proof -
  obtain f where f: "fuel = Suc f" "2 \<le> f" using fuel by (cases fuel) auto
  note b = heap_ok_block [OF ok p]
  have get: "GET h p = Some (SETB n al)" using b mapped_in [OF ok, of p] by (simp add: GET_def)
  have brk: "hp_brk h = p + n" using heap_ok_parts [OF ok] p by simp
  have al: "unat (HALIGN (of_nat siz) 8) = siz" using siz by (intro HALIGN_same) simp_all
  have step: "malloc_loop phy fuel siz p h = do { h \<leftarrow> hp_grow phy siz h; h \<leftarrow> hp_append siz h; malloc_loop phy f siz p h }"
    using f get b(3) brk no by (auto simp: malloc_loop.simps(2) [of phy f] Let_def hp_extend_heap_def al)
  consider n' where "hp_grow phy siz h = None" "phy (hp_max h) n' = None"
    | h1 xs1 ns where "hp_grow phy siz h = Some h1" "ns = [] \<or> (\<exists>n. phy (hp_max h) n = Some ns)" "heap_ok h1 (xs1 @ [(n, al)])"
      "coalesced (xs1 @ [(n, al)])" "tot xs1 = tot xs" "hp_root h1 = hp_root h" "hp_brk h1 = hp_brk h" "hp_brk h + siz \<le> hp_max h1"
      "live (hp_root h) (xs1 @ [(n, al)]) = rest (live (hp_root h) (xs @ [(n, al)])) ns"
      "keeps (rest (live (hp_root h) (xs @ [(n, al)])) ns) (hp_mem h) (hp_mem h1)"
    using hp_grow_spec [OF ok co ap, of siz] by blast
  then show ?thesis
  proof cases
    case 1
    then show ?thesis using step by (auto simp: malloc_result_def)
  next
    case 2
    note g = 2(1) and ns = 2(2) and ok1 = 2(3) and co1 = 2(4) and t = 2(5-8) and l = 2(9) and k = 2(10)
    obtain h2 where h2: "hp_append siz h1 = Some h2" "heap_ok h2 (merged (xs1 @ [(n, al)]) siz [])" "hp_root h2 = hp_root h1"
      "keeps (live (hp_root h1) (xs1 @ [(n, al)])) (hp_mem h1) (hp_mem h2)"
      using hp_append_spec [OF ok1 siz(1,2)] siz(3) t by auto
    have p1: "p = hp_root h1 + tot xs1" using p t by simp
    obtain q h' bs' where q: "malloc_loop phy f siz p h2 = Some (q, h')" "malloc_post siz h2 (live (hp_root h1) (xs1 @ [(n, al)])) q h' bs'"
      using malloc_fit_end [OF ok1 co1 h2(1-3) p1 siz(1,2) f(2)] by blast
    have "keeps (live (hp_root h1) (xs1 @ [(n, al)])) (hp_mem h) (hp_mem h2)" using k h2(4) l t(2) keeps_trans by metis
    then have "malloc_post siz h (rest (live (hp_root h) (xs @ [(n, al)])) ns) q h' bs'"
      using malloc_post_extend [OF q(2), of h] h2(3) t(2) l by simp
    moreover have "malloc_loop phy fuel siz p h = Some (q, h')" using step g h2(1) q(1) by simp
    ultimately show ?thesis using ns by (auto simp: malloc_result_def)
  qed
qed

lemma malloc_loop_spec:
  assumes "heap_ok h (xs @ ys)" "coalesced (xs @ ys)" "apart phy h (xs @ ys)" "p = hp_root h + tot xs" "ys \<noteq> []"
    and siz: "8 \<le> siz" "8 dvd siz" and "tot (xs @ ys) + siz < 2 ^ 29" "length ys + 2 \<le> fuel"
  shows "malloc_result phy siz h (xs @ ys) (malloc_loop phy fuel siz p h)"
  using assms(1-5,8-)
proof (induction ys arbitrary: xs p fuel)
  case (Cons b ys)
  obtain n al where b: "b = (n, al)" by (cases b)
  show ?case
  proof (cases "\<not> al \<and> siz \<le> n")
    case True
    have "heap_ok h (xs @ (n, False) # ys)" "coalesced (xs @ (n, False) # ys)" "0 < fuel"
      using Cons.prems b True by auto
    then have "\<exists>h' bs'. malloc_loop phy fuel siz p h = Some (p + 4, h') \<and> malloc_post siz h (live (hp_root h) (xs @ (n, False) # ys)) (p + 4) h' bs'"
      using malloc_fit Cons.prems(4) siz True by blast
    then show ?thesis using b True malloc_resultI by auto
  next
    case no: False
    show ?thesis
    proof (cases "ys = []")
      case True
      then show ?thesis using malloc_last [of h xs n al phy p siz fuel] Cons.prems b siz no by auto
    next
      case False
      obtain f where f: "fuel = Suc f" using Cons.prems(7) by (cases fuel) auto
      have ok: "heap_ok h (xs @ (n, al) # ys)" using Cons.prems(1) b by simp
      note blk = heap_ok_block [OF ok Cons.prems(4)]
      have get: "GET h p = Some (SETB n al)" using blk mapped_in [OF ok, of p] by (simp add: GET_def)
      have ok': "heap_ok h ((xs @ [(n, al)]) @ ys)" using ok by simp
      have p': "p + n = hp_root h + tot (xs @ [(n, al)])" using Cons.prems(4) by simp
      obtain c cs where "ys = c # cs" using False by (cases ys) auto
      then have "p + n < hp_brk h" using heap_ok_block(8) [of h "xs @ [(n, al)]" "fst c" "snd c" cs "p + n"] ok' p' by simp
      then have "malloc_loop phy fuel siz p h = malloc_loop phy f siz (p + n) h"
        using f get blk(3) no by (auto simp: malloc_loop.simps(2) [of phy f] Let_def)
      then show ?thesis
        using Cons.IH [of "xs @ [(n, al)]" "p + n" f] ok' p' Cons.prems False f b by auto
    qed
  qed
qed simp

text \<open>The size of the block for a request, header and footer included.\<close>

definition block_size :: "u64 \<Rightarrow> nat" where
  "block_size siz = (unat siz + 15) div 8 * 8"

lemma block_size_facts: "8 \<le> block_size siz" "8 dvd block_size siz" "unat siz + 8 \<le> block_size siz"
proof -
  have "unat siz + 8 \<le> (unat siz + 8 + 8 - 1) div 8 * 8" by (rule ceil_mult_le) simp
  then show "unat siz + 8 \<le> block_size siz" by (simp add: block_size_def)
  then show "8 \<le> block_size siz" by simp
  show "8 dvd block_size siz" by (simp add: block_size_def)
qed

lemma HALIGN_block_size:
  assumes "block_size siz < 2 ^ 29"
  shows "unat (HALIGN (siz + 8) 8) = block_size siz"
proof -
  have "unat siz < 2 ^ 29" using block_size_facts(3) [of siz] assms by linarith
  then have "unat (siz + 8) = unat siz + 8" by (subst unat_add_lt) simp_all
  then show ?thesis using HALIGN_8 [of "siz + 8"] \<open>unat siz < 2 ^ 29\<close> by (simp add: block_size_def)
qed

lemma malloc_spec:
  assumes ok: "heap_ok h bs" "coalesced bs" "apart phy h bs" and siz: "siz \<noteq> 0" "tot bs + block_size siz < 2 ^ 29"
    and fuel: "length bs + 3 \<le> fuel"
  shows "malloc_result phy (block_size siz) h bs (malloc phy fuel siz h)"
proof -
  have "block_size siz < 2 ^ 29" using siz(2) by simp
  then have m: "malloc phy fuel siz h = malloc_loop phy fuel (block_size siz) (hp_root h) h"
    using siz(1) HALIGN_block_size by (simp add: malloc_def)
  note b = block_size_facts [of siz]
  show ?thesis
  proof (cases "bs = []")
    case False
    have "malloc_result phy (block_size siz) h ([] @ bs) (malloc_loop phy fuel (block_size siz) (hp_root h) h)"
      by (rule malloc_loop_spec) (use ok b siz(2) fuel False in simp_all)
    then show ?thesis using m by simp
  next
    case True
    define f where "f = fuel - 2"
    then have f: "fuel = Suc (Suc f)" using fuel by simp
    let ?B = "block_size siz"
    have al: "unat (HALIGN (of_nat ?B) 8) = ?B" using b siz by (intro HALIGN_same) simp_all
    have brk: "hp_brk h = hp_root h" "get32 (hp_mem h) (hp_root h) = SETB 0 True"
      using ok(1) True by (auto simp: heap_ok_def)
    then have get: "GET h (hp_root h) = Some (SETB 0 True)" using mapped_in [OF ok(1), of "hp_root h"] by (simp add: GET_def)
    have step: "malloc phy fuel siz h = do { h1 \<leftarrow> hp_grow phy ?B h; h2 \<leftarrow> hp_append ?B h1; malloc_loop phy (Suc f) ?B (hp_root h) h2 }"
      using m f get brk by (auto simp: malloc_loop.simps(2) [of phy "Suc f"] Let_def hp_extend_heap_def al)
    have live: "live (hp_root h) bs = {}" using True by simp
    consider n where "hp_grow phy ?B h = None" "phy (hp_max h) n = None"
      | h1 where "hp_grow phy ?B h = Some h1" "heap_ok h1 bs" "hp_root h1 = hp_root h" "hp_brk h1 + ?B \<le> hp_max h1"
      using hp_grow_cases [of phy ?B h]
    proof (elim disjE conjE exE)
      fix n ns
      assume "phy (hp_max h) n = Some ns" and g: "hp_grow phy ?B h = do { h \<leftarrow> foldM hp_free ns h; Some (h\<lparr>hp_max := hp_max h + n * PAGE_BYTES\<rparr>) }"
        and fit: "hp_brk h + ?B \<le> hp_max h + n * PAGE_BYTES"
      then have "ns = []" using ok(3) live by (cases ns) (auto simp: apart_def)
      moreover have "heap_ok (h\<lparr>hp_max := hp_max h + n * PAGE_BYTES\<rparr>) bs" using ok(1) unfolding heap_ok_def by (auto simp: PAGE_BYTES_def)
      ultimately show thesis using g fit that(2) by simp
    qed (use ok(1) that in blast)+
    then show ?thesis
    proof cases
      case 1
      then show ?thesis using step by (auto simp: malloc_result_def)
    next
      case 2
      obtain h2 where h2: "hp_append ?B h1 = Some h2" "heap_ok h2 (merged bs ?B [])" "hp_root h2 = hp_root h1"
        using hp_append_spec [OF 2(2) b(1,2) siz(2) 2(4)] by blast
      have mg: "merged bs ?B [] = [] @ (?B, False) # []" using True by (simp add: merged_def trim_l_def)
      have "\<exists>h' bs'. malloc_loop phy (Suc f) ?B (hp_root h) h2 = Some (hp_root h + 4, h')
          \<and> malloc_post ?B h2 (live (hp_root h2) ([] @ (?B, False) # [])) (hp_root h + 4) h' bs'"
        by (rule malloc_fit) (use h2(2,3) 2(3) b in \<open>simp_all add: mg\<close>)
      then obtain h' bs' where r: "malloc_loop phy (Suc f) ?B (hp_root h) h2 = Some (hp_root h + 4, h')"
        "malloc_post ?B h2 {} (hp_root h + 4) h' bs'" by auto
      have "malloc_post ?B h (live (hp_root h) bs) (hp_root h + 4) h' bs'"
        unfolding live by (rule malloc_post_extend [OF r(2)]) (use h2(3) 2(3) in \<open>simp_all add: keeps_def\<close>)
      then show ?thesis using step 2(1) h2(1) r(1) malloc_resultI by simp
    qed
  qed
qed

section \<open>Writing into a block\<close>

lemma live_disjoint:
  "segs m a bs \<Longrightarrow> (p, k) \<in> live a bs \<Longrightarrow> (q, l) \<in> live a bs \<Longrightarrow> p \<noteq> q \<Longrightarrow> p + k + 8 \<le> q \<or> q + l + 8 \<le> p"
proof (induction m a bs rule: segs.induct)
  case (2 m a n al bs)
  have "a + n + 4 \<le> x" if "(x, y) \<in> live (a + n) bs" for x y
    using live_range [of m "a + n" bs x y] that 2(2) by simp
  then show ?case using 2 by (fastforce split: if_splits)
qed simp

lemma heap_ok_payload:
  assumes ok: "heap_ok h bs" and l: "(q, k) \<in> live (hp_root h) bs" and out: "same_outside q (q + k) (hp_mem h) m'"
  shows "heap_ok (h\<lparr>hp_mem := m'\<rparr>) bs" "keeps (live (hp_root h) bs - {(q, k)}) (hp_mem h) m'"
proof -
  obtain xs ys where bs: "bs = xs @ (k + 8, True) # ys" "q = hp_root h + tot xs + 4"
    using live_split [OF heap_ok_parts(1) [OF ok] l] .
  let ?p = "hp_root h + tot xs"
  have ok': "heap_ok h (xs @ (k + 8, True) # ys)" using ok bs by simp
  note b = heap_ok_block [OF ok' refl]
  have out': "same_outside ?p (?p + (k + 8)) (hp_mem h) m'"
    by (rule same_outside_mono [OF out]) (use bs in simp_all)
  have "segs m' ?p [(k + 8, True)]"
    using b bs same_outside_get32 [OF out, of ?p] same_outside_get32 [OF out, of "?p + (k + 8) - 4"] by simp
  then show "heap_ok (h\<lparr>hp_mem := m'\<rparr>) bs"
    using heap_ok_replace [of h xs "[(k + 8, True)]" ys ?p "?p + (k + 8)" m' "[(k + 8, True)]"] ok' out' bs by simp
  have "segs (hp_mem h) (hp_root h) xs" "segs (hp_mem h) (?p + (k + 8)) ys"
    using heap_ok_parts [OF ok'] by (simp_all add: segs_append)
  then have "keeps (live (hp_root h) xs \<union> live (?p + (k + 8)) ys) (hp_mem h) m'"
    by (rule keeps_outside [OF out']) simp_all
  then show "keeps (live (hp_root h) bs - {(q, k)}) (hp_mem h) m'"
    using live_remove [OF heap_ok_parts(1) [OF ok'], folded bs] by simp
qed

lemma mem_copy_other: "x < dst \<or> dst + n \<le> x \<Longrightarrow> mem_copy dst src n m x = m x"
  unfolding mem_copy_def by (induction n) auto

lemma mem_copy_byte:
  "i < n \<Longrightarrow> src + i < dst \<or> dst + n \<le> src + i \<Longrightarrow> mem_copy dst src n m (dst + i) = m (src + i)"
proof (induction n)
  case (Suc n)
  have s: "mem_copy dst src (Suc n) m = (mem_copy dst src n m)(dst + n := mem_copy dst src n m (src + n))"
    by (simp add: mem_copy_def)
  show ?case
  proof (cases "i = n")
    case True
    then show ?thesis using Suc.prems s mem_copy_other [of "src + n" dst n src m] by auto
  next
    case False
    then show ?thesis using Suc s by auto
  qed
qed simp

lemma mem_copy_outside: "n \<le> k \<Longrightarrow> same_outside dst (dst + k) m (mem_copy dst src n m)"
  unfolding same_outside_def using mem_copy_other by auto

lemma mem_set_byte: "mem_set dst v n m x = (if dst \<le> x \<and> x < dst + n then v else m x)"
  unfolding mem_set_def by (induction n) auto

lemma mem_set_outside: "n \<le> k \<Longrightarrow> same_outside dst (dst + k) m (mem_set dst v n m)"
  by (auto simp: same_outside_def mem_set_byte)

lemma live_header:
  assumes ok: "heap_ok h bs" and l: "(q, k) \<in> live (hp_root h) bs"
  shows "GET h (q - 4) = Some (SETB (k + 8) True)" "k + 8 < 2 ^ 29" "q \<noteq> 0"
proof -
  obtain xs ys where bs: "bs = xs @ (k + 8, True) # ys" "q = hp_root h + tot xs + 4"
    using live_split [OF heap_ok_parts(1) [OF ok] l] .
  then have ok': "heap_ok h (xs @ (k + 8, True) # ys)" and p: "q - 4 = hp_root h + tot xs" using ok by simp_all
  note b = heap_ok_block [OF ok' p]
  show "GET h (q - 4) = Some (SETB (k + 8) True)" "k + 8 < 2 ^ 29"
    using b mapped_in [OF ok', of "q - 4"] by (simp_all add: GET_def)
  show "q \<noteq> 0" using bs by simp
qed

lemma realloc_moves:
  assumes ok: "heap_ok h bs" and l0: "(q, k) \<in> live (hp_root h) bs" and l: "(q, k) \<in> L"
    and m: "malloc phy fuel newsiz h = Some (p, h1)" "malloc_post (block_size newsiz) h L p h1 bs1"
    and siz: "k + 8 < unat newsiz"
  shows "\<exists>h' bs'. realloc phy fuel q newsiz h = Some (p, h') \<and> heap_ok h' bs' \<and> coalesced bs'
    \<and> live (hp_root h) bs' = insert (p, block_size newsiz - 8) (L - {(q, k)})
    \<and> (\<forall>i<k. hp_mem h' (p + i) = hp_mem h (q + i))
    \<and> keeps (L - {(q, k)}) (hp_mem h) (hp_mem h')"
proof -
  note hd = live_header [OF ok l0]
  have p1: "heap_ok h1 bs1" "coalesced bs1" "hp_root h1 = hp_root h"
    "live (hp_root h1) bs1 = insert (p, block_size newsiz - 8) L"
    "p \<notin> fst ` L" "keeps L (hp_mem h) (hp_mem h1)"
    using m(2) by (simp_all add: malloc_post_def)
  let ?m = "mem_copy p q (k + 8) (hp_mem h1)"
  let ?h = "h1\<lparr>hp_mem := ?m\<rparr>"
  have in1: "(p, block_size newsiz - 8) \<in> live (hp_root h1) bs1" "(q, k) \<in> live (hp_root h1) bs1" "p \<noteq> q"
    using p1(4,5) l by force+
  have k: "k + 8 \<le> block_size newsiz - 8" using siz block_size_facts(3) [of newsiz] by simp
  note w = heap_ok_payload [OF p1(1) in1(1) mem_copy_outside [OF k]]
  have "(q, k) \<in> live (hp_root ?h) bs1" using in1 by simp
  from free_live [OF w(1) p1(2) this] obtain h' bs' where f: "hp_free q ?h = Some h'" "heap_ok h' bs'" "coalesced bs'"
    "live (hp_root h1) bs' = live (hp_root h1) bs1 - {(q, k)}" "keeps (live (hp_root h1) bs1 - {(q, k)}) ?m (hp_mem h')"
    by auto
  have r: "realloc phy fuel q newsiz h = Some (p, h')"
    using hd m(1) siz f(1) by (auto simp: realloc_def Let_def)
  have live: "live (hp_root h) bs' = insert (p, block_size newsiz - 8) (L - {(q, k)})"
    using f(4) p1(3,4) in1(3) by auto
  have byte: "hp_mem h' (p + i) = hp_mem h (q + i)" if i: "i < k" for i
  proof -
    have "hp_mem h' (p + i) = ?m (p + i)"
      by (rule keepsD [OF f(5), of _ "block_size newsiz - 8"]) (use in1 i k in simp_all)
    also have "\<dots> = hp_mem h1 (q + i)"
      using live_disjoint [OF heap_ok_parts(1) [OF p1(1)] in1] i k by (intro mem_copy_byte) linarith+
    also have "\<dots> = hp_mem h (q + i)" by (rule keepsD [OF p1(6) l i])
    finally show ?thesis .
  qed
  have sub: "L - {(q, k)} \<subseteq> L"
    "L - {(q, k)} \<subseteq> live (hp_root h1) bs1 - {(p, block_size newsiz - 8)}"
    "L - {(q, k)} \<subseteq> live (hp_root h1) bs1 - {(q, k)}"
    using p1(4,5) by force+
  have "keeps (L - {(q, k)}) (hp_mem h) (hp_mem h')"
    using keeps_mono [OF p1(6) sub(1)] keeps_mono [OF w(2) sub(2)] keeps_mono [OF f(5) sub(3)] keeps_trans by blast
  then show ?thesis using r f(2,3) live byte by blast
qed

section \<open>Properties\<close>

lemma heap_init_ok:
  assumes "0 < base" "4096 dvd base"
  shows "heap_ok (heap_init base m) []"
  using assms by (simp add: heap_ok_def heap_init_def Let_def HEAP_ORIG_def PAGE_BYTES_def add.commute)



text \<open>A heap of one allocated block with a payload of 8 bytes, between the first block and the end block.\<close>

definition heap_one :: heap_t where
  "heap_one = (heap_init 4096 (\<lambda>_. 0))
     \<lparr>hp_mem := put32 4124 (SETB 0 True) (put32 4120 (SETB 16 True) (put32 4108 (SETB 16 True)
        (hp_mem (heap_init 4096 (\<lambda>_. 0))))), hp_brk := 4124\<rparr>"

lemma heap_one_ok: "heap_ok heap_one [(16, True)]" "hp_root heap_one = 4108"
  by (simp_all add: heap_one_def heap_ok_def heap_init_def Let_def HEAP_ORIG_def PAGE_BYTES_def)

text \<open>
  C8: \<open>free\<close> of an allocated block takes exactly this block out of the allocated blocks, keeps the contents of
  all others and merges the block with free neighbours.
\<close>

theorem free_correct:
  assumes "heap_ok h bs" "coalesced bs" "(q, k) \<in> live (hp_root h) bs"
  shows "\<exists>h' bs'. hp_free q h = Some h' \<and> heap_ok h' bs' \<and> coalesced bs' \<and> hp_root h' = hp_root h
    \<and> live (hp_root h) bs' = live (hp_root h) bs - {(q, k)}
    \<and> keeps (live (hp_root h) bs - {(q, k)}) (hp_mem h) (hp_mem h')"
  using assms by (rule free_live)

theorem free_correct_witness:
  "\<exists>h' bs'. hp_free 4112 heap_one = Some h' \<and> heap_ok h' bs' \<and> live 4108 bs' = {}"
  using free_correct [OF heap_one_ok(1), of 4112 8] by (simp add: heap_one_ok(2)) blast



section \<open>A node released in the middle of an allocation\<close>

lemma malloc_walk:
  assumes "heap_ok h (us @ vs @ ws)" "ws \<noteq> []" "\<forall>(n, al) \<in> set vs. al \<or> n < siz"
  shows "malloc_loop phy (length vs + fuel) siz (hp_root h + tot us) h = malloc_loop phy fuel siz (hp_root h + tot (us @ vs)) h"
  using assms
proof (induction vs arbitrary: us)
  case (Cons b vs)
  obtain n al where b: "b = (n, al)" by (cases b)
  let ?p = "hp_root h + tot us"
  have ok: "heap_ok h (us @ (n, al) # (vs @ ws))" using Cons.prems(1) b by simp
  note blk = heap_ok_block [OF ok refl]
  have get: "GET h ?p = Some (SETB n al)" using blk mapped_in [OF ok, of ?p] by (simp add: GET_def)
  obtain m al' cs where "vs @ ws = (m, al') # cs" using Cons.prems(2) by (cases "vs @ ws") auto
  then have "?p + n < hp_brk h" using heap_ok_block(8) [of h "us @ [(n, al)]" m al' cs "?p + n"] ok by simp
  then have "malloc_loop phy (length (b # vs) + fuel) siz ?p h = malloc_loop phy (length vs + fuel) siz (?p + n) h"
    using get blk(3) Cons.prems(3) b by (auto simp: malloc_loop.simps(2) [of phy "length vs + fuel"] Let_def)
  then show ?case using Cons.IH [of "us @ [b]"] Cons.prems b by (simp add: add.assoc)
qed simp

lemma hp_append_words:
  assumes ok: "heap_ok h (xs @ [(k, False)])" and siz: "8 \<le> siz" "8 dvd siz" "tot (xs @ [(k, False)]) + siz < 2 ^ 29"
    and max: "hp_brk h + siz \<le> hp_max h"
  obtains h' where "hp_append siz h = Some h'" "heap_ok h' (xs @ [(k + siz, False)])" "hp_root h' = hp_root h"
    "hp_brk h' = hp_brk h + siz" "get32 (hp_mem h') (hp_brk h) = SETB siz False"
    "\<forall>x. hp_root h + tot xs + 4 \<le> x \<longrightarrow> x + 4 \<le> hp_brk h \<longrightarrow> get32 (hp_mem h') x = get32 (hp_mem h) x"
proof -
  let ?b = "hp_brk h" and ?p = "hp_root h + tot xs"
  let ?m = "put32 (?b + siz) (SETB 0 True) (put32 (?b + siz - 4) (SETB siz False) (put32 ?b (SETB siz False) (hp_mem h)))"
  let ?h = "h\<lparr>hp_brk := ?b + siz, hp_mem := ?m\<rparr>"
  note h1 = hp_append_block [OF ok siz max]
  have b: "?b = ?p + k" using heap_ok_parts [OF ok] by simp
  have k: "8 \<le> k" using heap_ok_block [OF ok refl] by simp
  have ok1: "heap_ok ?h (xs @ (k, False) # (siz, False) # [])" using h1(2) by simp
  have p: "?p = hp_root ?h + tot xs" by simp
  from hp_merge_prev_free [OF ok1 p] obtain m' where m': "hp_merge_prev (?p + k) (?p + k - 4) ?h = Some (?h\<lparr>hp_mem := m'\<rparr>)"
    "\<forall>x. ?p + 4 \<le> x \<longrightarrow> x + 8 \<le> ?p + k + siz \<longrightarrow> get32 m' x = get32 ?m x"
    "heap_ok (?h\<lparr>hp_mem := m'\<rparr>) (xs @ (k + siz, False) # [])" by auto
  have ok2: "heap_ok ?h ((xs @ [(k, False)]) @ (siz, False) # [])" using ok1 by simp
  have b2: "?b = hp_root ?h + tot (xs @ [(k, False)])" using b by simp
  have n: "hp_merge_next ?b (?b + siz) ?h = Some ?h" by (rule hp_merge_next_none [OF ok2 b2]) simp
  have "GET ?h ?b = Some (SETB siz False)"
    using heap_ok_block [OF ok2 b2] mapped_in [OF ok2, of ?b] b by (simp add: GET_def)
  then have "hp_merge ?b ?h = hp_merge_prev ?b (?b - 4) ?h"
    using n siz heap_ok_block [OF ok2 b2] by (simp add: hp_merge_def Let_def)
  then have "hp_append siz h = Some (?h\<lparr>hp_mem := m'\<rparr>)" using h1(1) m'(1) b by simp
  moreover have "get32 m' ?b = SETB siz False" using m'(2) siz(1) k b by simp
  moreover have "get32 m' x = get32 (hp_mem h) x" if "?p + 4 \<le> x" "x + 4 \<le> ?b" for x
    using m'(2) that siz(1) b by simp
  ultimately show thesis using that [of "?h\<lparr>hp_mem := m'\<rparr>"] m'(3) by simp
qed

lemma hp_free_words:
  assumes ok: "heap_ok h (xs @ (n, True) # (s, False) # [])" and xs: "xs = [] \<or> snd (last xs)"
  obtains m' where "hp_free (hp_root h + tot xs + 4) h = Some (h\<lparr>hp_mem := m'\<rparr>)" "heap_ok (h\<lparr>hp_mem := m'\<rparr>) (xs @ [(n + s, False)])"
    "get32 m' (hp_root h + tot xs + n) = SETB s False"
proof -
  let ?p = "hp_root h + tot xs"
  note b = heap_ok_block [OF ok refl]
  have okc: "heap_ok h ((xs @ [(n, True)]) @ (s, False) # [])" using ok by simp
  note c = heap_ok_block [OF okc refl]
  let ?m = "put32 (?p + n - 4) (SETB n False) (put32 ?p (SETB n False) (hp_mem h))"
  let ?h = "h\<lparr>hp_mem := ?m\<rparr>"
  have mp: "heap_mapped h a" if "?p \<le> a" "a + 4 \<le> ?p + n" for a
    using mapped_in [OF ok, of a] that b by simp
  have "?p + 4 \<le> hp_max h" using mp [of ?p] b by (simp add: heap_mapped_def)
  then have free: "hp_free (?p + 4) h = hp_merge ?p ?h"
    using b mp by (simp add: hp_free_def GET_def PUT_def Let_def)
  have out: "same_outside ?p (?p + n) (hp_mem h) ?m" using b by (intro same_outside_put32) simp_all
  have "segs ?m ?p [(n, False)]" using b by simp
  then have ok': "heap_ok ?h (xs @ (n, False) # (s, False) # [])"
    using heap_ok_replace [of h xs "[(n, True)]" "[(s, False)]" ?p "?p + n" ?m "[(n, False)]"] ok out by simp
  have p: "?p = hp_root ?h + tot xs" by simp
  from hp_merge_next_free [OF ok' p] obtain m' where m': "hp_merge_next ?p (?p + n) ?h = Some (?h\<lparr>hp_mem := m'\<rparr>)"
    "\<forall>x. ?p + 4 \<le> x \<longrightarrow> x + 8 \<le> ?p + n + s \<longrightarrow> get32 m' x = get32 ?m x" "heap_ok (?h\<lparr>hp_mem := m'\<rparr>) (xs @ (n + s, False) # [])" by auto
  have "hp_merge_prev ?p (?p - 4) (?h\<lparr>hp_mem := m'\<rparr>) = Some (?h\<lparr>hp_mem := m'\<rparr>)"
    by (rule hp_merge_prev_none [OF m'(3)]) (use xs in simp_all)
  moreover have "GET ?h ?p = Some (SETB n False)" using heap_ok_block [OF ok' p] mapped_in [OF ok', of ?p] by (simp add: GET_def)
  ultimately have "hp_merge ?p ?h = Some (?h\<lparr>hp_mem := m'\<rparr>)" using m'(1) b by (simp add: hp_merge_def Let_def)
  moreover have "get32 m' (?p + n) = SETB s False" using m'(2) b c by (simp add: add.assoc)
  ultimately show thesis using that [of m'] m'(3) free by simp
qed

text \<open>
  C0: the condition of \<open>malloc\<close> on the released nodes is needed. The last block of the heap is free, but too small, and the heap grows. If the
  physical memory manager releases the node in the block before, this block and the last one are merged, and \<open>malloc\<close> goes
  on from the header inside of the merged block that was there before. It returns the end of a block that the heap takes for free as a whole:
  the header at \<open>a\<close> says that \<open>n + s + block_size siz\<close> bytes are free, and the returned block is the last part of them.
\<close>

theorem malloc_inside_free:
  assumes ok: "heap_ok h (xs @ [(n, True), (s, False)])" and xs: "xs = [] \<or> snd (last xs)" "\<forall>(m, al) \<in> set xs. al \<or> m < block_size siz"
    and siz: "siz \<noteq> 0" "s < block_size siz" "tot (xs @ [(n, True), (s, False)]) + block_size siz < 2 ^ 29"
    and grow: "hp_max h < hp_brk h + block_size siz" "\<forall>m. phy (hp_max h) m = Some [hp_root h + tot xs + 4]"
    and fuel: "length xs + 4 \<le> fuel"
  defines "a \<equiv> hp_root h + tot xs"
  shows "\<exists>h'. malloc phy fuel siz h = Some (a + n + s + 4, h') \<and> hp_root h' = hp_root h \<and> segs (hp_mem h') (hp_root h) xs
    \<and> GET h' a = Some (SETB (n + s + block_size siz) False)"
proof -
  let ?B = "block_size siz"
  note B = block_size_facts [of siz]
  have "?B < 2 ^ 29" using siz(3) by simp
  then have m: "malloc phy fuel siz h = malloc_loop phy fuel ?B (hp_root h) h"
    using siz(1) HALIGN_block_size by (simp add: malloc_def)
  have al: "unat (HALIGN (of_nat ?B) 8) = ?B" using B siz by (intro HALIGN_same) simp_all
  define f where "f = fuel - (length xs + 4)"
  then have f: "fuel = length (xs @ [(n, True)]) + Suc (Suc (Suc f))" using fuel by simp
  let ?c = "a + n"
  have "malloc_loop phy fuel ?B (hp_root h + tot []) h = malloc_loop phy (Suc (Suc (Suc f))) ?B (hp_root h + tot ([] @ xs @ [(n, True)])) h"
    unfolding f by (rule malloc_walk [of _ _ _ "[(s, False)]"]) (use ok xs(2) in auto)
  then have walk: "malloc phy fuel siz h = malloc_loop phy (Suc (Suc (Suc f))) ?B ?c h" using m by (simp add: a_def add.assoc)
  have okc: "heap_ok h ((xs @ [(n, True)]) @ (s, False) # [])" using ok by simp
  have c: "?c = hp_root h + tot (xs @ [(n, True)])" by (simp add: a_def)
  note cb = heap_ok_block [OF okc c]
  have get: "GET h ?c = Some (SETB s False)" using cb mapped_in [OF okc, of ?c] by (simp add: GET_def)
  have brk: "hp_brk h = ?c + s" using heap_ok_parts [OF okc] c by simp
  obtain m1 where m1: "hp_free (a + 4) h = Some (h\<lparr>hp_mem := m1\<rparr>)" "heap_ok (h\<lparr>hp_mem := m1\<rparr>) (xs @ [(n + s, False)])"
    "get32 m1 ?c = SETB s False"
    using hp_free_words [of h xs n s] ok xs(1) unfolding a_def by auto
  obtain h1 where h1: "hp_grow phy ?B h = Some h1" "heap_ok h1 (xs @ [(n + s, False)])" "hp_root h1 = hp_root h" "hp_brk h1 = hp_brk h"
    "hp_brk h1 + ?B \<le> hp_max h1" "hp_mem h1 = m1"
    using hp_grow_cases [of phy ?B h]
  proof (elim disjE conjE exE)
    fix k ns
    assume "phy (hp_max h) k = Some ns" and g: "hp_grow phy ?B h = do { h \<leftarrow> foldM hp_free ns h; Some (h\<lparr>hp_max := hp_max h + k * PAGE_BYTES\<rparr>) }"
      and fit: "hp_brk h + ?B \<le> hp_max h + k * PAGE_BYTES"
    then have "ns = [a + 4]" using grow(2) by (simp add: a_def)
    moreover have "heap_ok (h\<lparr>hp_mem := m1, hp_max := hp_max h + k * PAGE_BYTES\<rparr>) (xs @ [(n + s, False)])"
      using m1(2) unfolding heap_ok_def by (auto simp: PAGE_BYTES_def)
    ultimately show thesis using g fit that m1(1) by simp
  qed (use grow in auto)
  obtain h2 where h2: "hp_append ?B h1 = Some h2" "heap_ok h2 (xs @ [(n + s + ?B, False)])" "hp_root h2 = hp_root h"
    "hp_brk h2 = hp_brk h + ?B" "get32 (hp_mem h2) (hp_brk h) = SETB ?B False" "\<forall>x. a + 4 \<le> x \<longrightarrow> x + 4 \<le> hp_brk h \<longrightarrow> get32 (hp_mem h2) x = get32 (hp_mem h1) x"
    by (rule hp_append_words [OF h1(2) B(1,2) _ h1(5)]) (use siz(3) h1 in \<open>auto simp: a_def\<close>)
  have "8 \<le> n" using heap_ok_block [OF ok [unfolded append.assoc] refl] by simp
  then have c2: "get32 (hp_mem h2) ?c = SETB s False" using h2(6) h1(6) m1(3) cb brk by simp
  note e = heap_ok_block [OF h2(2) refl]
  let ?d = "hp_brk h"
  have mp: "heap_mapped h2 x" if "hp_root h \<le> x" "x \<le> ?d + ?B" for x
    using mapped_in [OF h2(2), of x] that h2(3,4) by simp
  have g2: "GET h2 ?c = Some (SETB s False)" "GET h2 ?d = Some (SETB ?B False)"
    using mp [of ?c] mp [of ?d] h2(5) c2 brk by (simp_all add: GET_def a_def)
  let ?m = "put32 (?d + ?B - 4) (SETB ?B True) (put32 ?d (SETB ?B True) (hp_mem h2))"
  have take: "hp_take ?d ?B h2 = Some (h2\<lparr>hp_mem := ?m\<rparr>)"
    using mp [of ?d] mp [of "?d + ?B - 4"] B(1) \<open>?B < 2 ^ 29\<close> brk by (simp add: hp_take_def PUT_def GET_def a_def)
  have "malloc_loop phy (Suc (Suc (Suc f))) ?B ?c h = malloc_loop phy (Suc (Suc f)) ?B ?c h2"
    using get siz(2) cb brk h1(1) h2(1) by (simp add: malloc_loop.simps(2) [of phy "Suc (Suc f)"] Let_def hp_extend_heap_def al)
  also have "\<dots> = malloc_loop phy (Suc f) ?B ?d h2"
    using g2(1) siz(2) cb brk h2(4) B(1) by (simp add: malloc_loop.simps(2) [of phy "Suc f"] Let_def)
  also have "\<dots> = Some (?d + 4, h2\<lparr>hp_mem := ?m\<rparr>)"
    using g2(2) take \<open>?B < 2 ^ 29\<close> by (simp add: malloc_loop.simps(2) [of phy f])
  finally have "malloc phy fuel siz h = Some (a + n + s + 4, h2\<lparr>hp_mem := ?m\<rparr>)" using walk brk by simp
  moreover have out: "same_outside ?d (?d + ?B) (hp_mem h2) ?m" using B by (intro same_outside_put32) simp_all
  have "segs (hp_mem h2) (hp_root h) xs" using heap_ok_parts(1) [OF h2(2)] h2(3) by (simp add: segs_append)
  then have "segs ?m (hp_root h) xs" using same_outside_segs [OF out] brk by (simp add: a_def)
  moreover have "get32 ?m a = SETB (n + s + ?B) False"
    using same_outside_get32 [OF out, of a] e brk cb h2(3) heap_ok_block [OF ok [simplified] refl] by (simp add: a_def)
  then have "GET (h2\<lparr>hp_mem := ?m\<rparr>) a = Some (SETB (n + s + ?B) False)" using mp [of a] brk by (simp add: GET_def a_def)
  ultimately show ?thesis using h2(3) by auto
qed

text \<open>A heap of an allocated block of 32 bytes, header and footer included, and a free block of 16 bytes.\<close>

definition heap_two :: heap_t where
  "heap_two = (heap_init 4096 (\<lambda>_. 0))
     \<lparr>hp_mem := put32 4156 (SETB 0 True) (put32 4152 (SETB 16 False) (put32 4140 (SETB 16 False) (put32 4136 (SETB 32 True) (put32 4108 (SETB 32 True)
        (hp_mem (heap_init 4096 (\<lambda>_. 0))))))), hp_brk := 4156\<rparr>"

lemma heap_two_ok: "heap_ok heap_two ([] @ [(32, True), (16, False)])" "hp_root heap_two = 4108" "hp_brk heap_two = 4156" "hp_max heap_two = 8192"
  by (simp_all add: heap_two_def heap_ok_def heap_init_def Let_def HEAP_ORIG_def PAGE_BYTES_def)

theorem malloc_inside_free_witness:
  "\<exists>h'. malloc (\<lambda>_ _. Some [4112]) 4 5000 heap_two = Some (4160, h') \<and> GET h' 4108 = Some (SETB 5056 False)"
  using malloc_inside_free [OF heap_two_ok(1), of 5000 "\<lambda>_ _. Some [4112]" 4] by (simp add: heap_two_ok block_size_def) blast

end
