(* ===== verification/Net_Mbuf.thy ===== *)
theory Net_Mbuf
  imports Textos_Prelude
begin

text \<open>
  Packet buffers, \<open>src/kernel/dev/nic/mbuf.c\<close>. A buffer has 2048 bytes; \<open>mb_head\<close> is the offset of the
  C pointer \<open>head\<close> into them. The physical address \<open>phy\<close> moves together with \<open>head\<close> and is
  left out, and so is the chain \<open>next\<close>, which is null in every buffer of the kernel. Moving \<open>head\<close> out of the buffer or
  an access outside of the buffer stops the kernel. Buffers of the free list \<open>l_free\<close> come
  before fresh pages; the contents of a fresh page are the argument \<open>page\<close>.
\<close>

definition MBUF_SIZE :: nat where "MBUF_SIZE = 2048"
definition MBUF_DEFROOM :: nat where "MBUF_DEFROOM = 128"

record mbuf_t =
  mb_buf :: "u8 list"
  mb_head :: nat
  mb_len :: size_t
  mb_dlen :: size_t
  mb_id :: size_t
  mb_flgs :: size_t

definition mbuf_alloc :: "u8 list \<Rightarrow> nat \<Rightarrow> mbuf_t list \<Rightarrow> mbuf_t \<times> mbuf_t list" where
  "mbuf_alloc page headroom l_free =
     (let (m, l_free) =
        (case l_free of
           [] \<Rightarrow> (\<lparr>mb_buf = page, mb_head = 0, mb_len = 0, mb_dlen = 0, mb_id = 0, mb_flgs = 0\<rparr>, [])
         | f # fs \<Rightarrow> (f, fs))
      in (m\<lparr>mb_head := mb_head m + headroom\<rparr>, l_free))"

definition mbuf_free :: "mbuf_t \<Rightarrow> mbuf_t list \<Rightarrow> mbuf_t list" where
  "mbuf_free m l_free = m\<lparr>mb_head := 0, mb_len := 0, mb_dlen := 0, mb_id := 0, mb_flgs := 0\<rparr> # l_free"

definition mbuf_push :: "nat \<Rightarrow> mbuf_t \<Rightarrow> mbuf_t option" where
  "mbuf_push len m = do {
     assertk (len \<le> mb_head m);
     Some (m\<lparr>mb_head := mb_head m - len, mb_len := mb_len m + of_nat len\<rparr>)
   }"

definition mbuf_pull :: "nat \<Rightarrow> mbuf_t \<Rightarrow> mbuf_t option" where
  "mbuf_pull len m = do {
     assertk (mb_head m + len \<le> MBUF_SIZE);
     Some (m\<lparr>mb_head := mb_head m + len, mb_len := mb_len m - of_nat len\<rparr>)
   }"

definition mbuf_put :: "nat \<Rightarrow> mbuf_t \<Rightarrow> nat \<times> mbuf_t" where
  "mbuf_put len m =
     (mb_head m + unat (mb_len m), m\<lparr>mb_len := mb_len m + of_nat len, mb_dlen := mb_dlen m + of_nat len\<rparr>)"

text \<open>Memory accesses through pointers into a buffer.\<close>

definition mb_read :: "nat \<Rightarrow> nat \<Rightarrow> mbuf_t \<Rightarrow> u8 list option" where
  "mb_read off n m = (if off + n \<le> MBUF_SIZE then Some (take n (drop off (mb_buf m))) else None)"

definition mb_write :: "nat \<Rightarrow> u8 list \<Rightarrow> mbuf_t \<Rightarrow> mbuf_t option" where
  "mb_write off bs m =
     (if off + length bs \<le> MBUF_SIZE
      then Some (m\<lparr>mb_buf := take off (mb_buf m) @ bs @ drop (off + length bs) (mb_buf m)\<rparr>) else None)"

section \<open>The packet in a buffer\<close>

definition mb_bytes :: "mbuf_t \<Rightarrow> u8 list" where
  "mb_bytes m = take (unat (mb_len m)) (drop (mb_head m) (mb_buf m))"

definition mb_ok :: "mbuf_t \<Rightarrow> bool" where
  "mb_ok m \<longleftrightarrow> length (mb_buf m) = MBUF_SIZE \<and> mb_head m + unat (mb_len m) \<le> MBUF_SIZE"

definition pool_ok :: "mbuf_t list \<Rightarrow> bool" where
  "pool_ok l \<longleftrightarrow> (\<forall>m\<in>set l. length (mb_buf m) = MBUF_SIZE \<and> mb_head m = 0 \<and> mb_len m = 0 \<and> mb_dlen m = 0)"

lemma mbuf_alloc_ok:
  assumes "pool_ok l" "length page = MBUF_SIZE" "room \<le> MBUF_SIZE" "mbuf_alloc page room l = (m, l')"
  shows "pool_ok l'" "mb_ok m" "mb_head m = room" "mb_len m = 0" "mb_dlen m = 0" "mb_bytes m = []"
  using assms by (cases l; auto simp: mbuf_alloc_def pool_ok_def mb_ok_def mb_bytes_def)+

lemma mbuf_free_ok: "pool_ok l \<Longrightarrow> length (mb_buf m) = MBUF_SIZE \<Longrightarrow> pool_ok (mbuf_free m l)"
  by (simp add: mbuf_free_def pool_ok_def)

lemma length_mb_bytes: "mb_ok m \<Longrightarrow> length (mb_bytes m) = unat (mb_len m)"
  by (auto simp: mb_ok_def mb_bytes_def min_def)

lemma unat_len_add:
  assumes "mb_ok m" "n \<le> MBUF_SIZE"
  shows "unat (mb_len m + of_nat n) = unat (mb_len m) + n"
proof -
  have "unat (of_nat n :: u64) = n" using assms(2) by (intro unat_of_nat_lt) (simp add: MBUF_SIZE_def)
  then show ?thesis using assms by (subst unat_add_lt) (simp_all add: mb_ok_def MBUF_SIZE_def)
qed

text \<open>Pushing a header of \<open>n\<close> bytes and writing it, as \<open>mbuf_pushhdr\<close> and the assignments after it do.\<close>

lemma mbuf_push_write:
  assumes m: "mb_ok m" and n: "length bs \<le> mb_head m"
  shows "\<exists>m1 m2. mbuf_push (length bs) m = Some m1 \<and> mb_write (mb_head m1) bs m1 = Some m2 \<and> mb_ok m1 \<and> mb_ok m2
    \<and> mb_head m1 = mb_head m - length bs \<and> mb_head m2 = mb_head m - length bs
    \<and> mb_bytes m2 = bs @ mb_bytes m \<and> mb_dlen m2 = mb_dlen m \<and> mb_id m2 = mb_id m"
proof -
  have l: "length bs \<le> MBUF_SIZE" "mb_head m \<le> MBUF_SIZE" using assms by (simp_all add: mb_ok_def)
  note u = unat_len_add [OF m l(1)]
  show ?thesis
    using assms l u by (auto simp: mbuf_push_def mb_write_def mb_ok_def mb_bytes_def)
qed

lemma mbuf_push_ok:
  assumes m: "mb_ok m" and n: "n \<le> mb_head m"
  shows "\<exists>m'. mbuf_push n m = Some m' \<and> mb_ok m' \<and> mb_head m' = mb_head m - n \<and> drop n (mb_bytes m') = mb_bytes m
    \<and> mb_buf m' = mb_buf m \<and> unat (mb_len m') = unat (mb_len m) + n"
proof -
  have l: "n \<le> MBUF_SIZE" using assms by (simp add: mb_ok_def)
  show ?thesis
    using assms unat_len_add [OF m l] by (auto simp: mbuf_push_def mb_ok_def mb_bytes_def drop_take add.commute)
qed

lemma mb_rewrite:
  assumes m: "mb_ok m" and b: "mb_bytes m = old @ d" "length bs = length old"
  shows "\<exists>m'. mb_write (mb_head m) bs m = Some m' \<and> mb_ok m' \<and> mb_head m' = mb_head m
    \<and> mb_bytes m' = bs @ d \<and> mb_dlen m' = mb_dlen m \<and> mb_id m' = mb_id m"
proof -
  have len: "unat (mb_len m) = length bs + length d" using length_mb_bytes [OF m] b by simp
  have d: "d = drop (length bs) (mb_bytes m)" using b by simp
  have "take (length d) (drop (mb_head m + length bs) (mb_buf m)) = d"
    by (subst (2) d) (simp add: mb_bytes_def len drop_take add.commute)
  then show ?thesis using m len by (auto simp: mb_write_def mb_ok_def mb_bytes_def add.commute)
qed

lemma mbuf_pull_ok:
  assumes m: "mb_ok m" and n: "n \<le> unat (mb_len m)"
  shows "\<exists>m'. mbuf_pull n m = Some m' \<and> mb_ok m' \<and> mb_bytes m' = drop n (mb_bytes m) \<and> mb_buf m' = mb_buf m
    \<and> mb_head m' = mb_head m + n \<and> unat (mb_len m') = unat (mb_len m) - n \<and> mb_id m' = mb_id m"
proof -
  have "unat (of_nat n :: u64) = n" using n m by (intro unat_of_nat_lt) (simp add: mb_ok_def MBUF_SIZE_def)
  then have "unat (mb_len m - of_nat n) = unat (mb_len m) - n" using n by (simp add: unat_sub_le word_le_nat_alt)
  then show ?thesis
    using assms by (auto simp: mbuf_pull_def mb_ok_def mb_bytes_def drop_take add.commute)
qed

text \<open>Appending data, as \<open>memcpy (mbuf_put (m, n), data, n)\<close> does.\<close>

lemma mbuf_put_write:
  assumes m: "mb_ok m" and n: "mb_head m + unat (mb_len m) + length d \<le> MBUF_SIZE"
  shows "\<exists>m'. mb_write (fst (mbuf_put (length d) m)) d (snd (mbuf_put (length d) m)) = Some m' \<and> mb_ok m'
    \<and> mb_head m' = mb_head m \<and> mb_bytes m' = mb_bytes m @ d \<and> mb_dlen m' = mb_dlen m + of_nat (length d)
    \<and> mb_len m' = mb_len m + of_nat (length d)"
proof -
  have l: "length d \<le> MBUF_SIZE" using n by simp
  show ?thesis
    using assms unat_len_add [OF m l] by (auto simp: mbuf_put_def mb_write_def mb_ok_def mb_bytes_def drop_take)
qed

section \<open>A buffer with given contents\<close>

definition filled_mbuf :: "nat \<Rightarrow> u8 list \<Rightarrow> mbuf_t" where
  "filled_mbuf room d =
     \<lparr>mb_buf = replicate room 0 @ d @ replicate (MBUF_SIZE - room - length d) 0, mb_head = room,
      mb_len = of_nat (length d), mb_dlen = of_nat (length d), mb_id = 0, mb_flgs = 0\<rparr>"

lemma filled_mbuf_ok:
  assumes "room + length d \<le> MBUF_SIZE"
  shows "mb_ok (filled_mbuf room d)" "mb_bytes (filled_mbuf room d) = d" "mb_head (filled_mbuf room d) = room"
    "mb_dlen (filled_mbuf room d) = of_nat (length d)"
proof -
  have "length d < 2 ^ 64" using assms by (simp add: MBUF_SIZE_def)
  then have "unat (mb_len (filled_mbuf room d)) = length d"
    by (simp add: filled_mbuf_def unat_of_nat take_bit_nat_eq_self_iff)
  then show "mb_ok (filled_mbuf room d)" "mb_bytes (filled_mbuf room d) = d"
    using assms by (simp_all add: filled_mbuf_def mb_ok_def mb_bytes_def)
qed (simp_all add: filled_mbuf_def)

end
