(* ===== verification/Net_Wire.thy ===== *)
theory Net_Wire
  imports Net_Mbuf
begin

text \<open>
  Byte order, addresses, checksums and headers: \<open>src/kernel/net/net.c\<close>, \<open>net/tcp.c\<close>, \<open>net/ip.c\<close>. An IPv4 address is the
  32-bit word that the code reads from its four bytes. A C structure laid over a buffer is a
  record with a function that loads it from its bytes and one that stores it, in the
  little-endian order of the processor. A packet that leaves through \<open>net_tx_ip\<close> is the buffer
  that is handed to \<open>net_tx_arpip\<close>.
\<close>

section \<open>Byte order\<close>

definition htons :: "u16 \<Rightarrow> u16" where
  "htons h = drop_bit 8 (h AND 0xFF00) OR push_bit 8 (h AND 0x00FF)"

definition ntohs :: "u16 \<Rightarrow> u16" where
  "ntohs h = drop_bit 8 (h AND 0xFF00) OR push_bit 8 (h AND 0x00FF)"

definition htonl :: "u32 \<Rightarrow> u32" where
  "htonl h = drop_bit 24 (h AND 0xFF000000) OR drop_bit 8 (h AND 0x00FF0000)
     OR push_bit 8 (h AND 0x0000FF00) OR push_bit 24 (h AND 0x000000FF)"

definition ntohl :: "u32 \<Rightarrow> u32" where
  "ntohl h = drop_bit 24 (h AND 0xFF000000) OR drop_bit 8 (h AND 0x00FF0000)
     OR push_bit 8 (h AND 0x0000FF00) OR push_bit 24 (h AND 0x000000FF)"

definition ld16 :: "u8 \<Rightarrow> u8 \<Rightarrow> u16" where
  "ld16 a b = ucast a OR push_bit 8 (ucast b)"

definition st16 :: "u16 \<Rightarrow> u8 list" where
  "st16 w = [ucast w, ucast (drop_bit 8 w)]"

definition ld32 :: "u8 \<Rightarrow> u8 \<Rightarrow> u8 \<Rightarrow> u8 \<Rightarrow> u32" where
  "ld32 a b c d = ucast a OR push_bit 8 (ucast b) OR push_bit 16 (ucast c) OR push_bit 24 (ucast d)"

definition st32 :: "u32 \<Rightarrow> u8 list" where
  "st32 w = [ucast w, ucast (drop_bit 8 w), ucast (drop_bit 16 w), ucast (drop_bit 24 w)]"

section \<open>Addresses\<close>

type_synonym ipv4_t = u32

definition ip_addr_cmp :: "ipv4_t \<Rightarrow> ipv4_t \<Rightarrow> bool" where
  "ip_addr_cmp a1 a2 \<longleftrightarrow> a1 = a2"

definition ip_addr_isany :: "ipv4_t \<Rightarrow> bool" where
  "ip_addr_isany a \<longleftrightarrow> a = 0"

definition ip_addr_maskcmp :: "ipv4_t \<Rightarrow> ipv4_t \<Rightarrow> ipv4_t \<Rightarrow> bool" where
  "ip_addr_maskcmp a1 a2 m \<longleftrightarrow> a1 AND m = a2 AND m"

definition ip_addr_isbroadcast :: "ipv4_t \<Rightarrow> ipv4_t \<Rightarrow> bool" where
  "ip_addr_isbroadcast a m \<longleftrightarrow> a AND NOT m = -1 AND NOT m \<or> a = -1 \<or> a = 0"

definition ip_addr_ismulticast :: "ipv4_t \<Rightarrow> bool" where
  "ip_addr_ismulticast a \<longleftrightarrow> a AND ntohl 0xF0000000 = ntohl 0xE0000000"

section \<open>Headers\<close>

definition TCP_F_FIN :: u8 where "TCP_F_FIN = 1"
definition TCP_F_SYN :: u8 where "TCP_F_SYN = 2"
definition TCP_F_RST :: u8 where "TCP_F_RST = 4"
definition TCP_F_PSH :: u8 where "TCP_F_PSH = 8"
definition TCP_F_ACK :: u8 where "TCP_F_ACK = 16"
definition TCP_F_URG :: u8 where "TCP_F_URG = 32"

definition IP_P_ICMP :: u8 where "IP_P_ICMP = 1"
definition IP_P_TCP :: u8 where "IP_P_TCP = 6"
definition IP_P_UDP :: u8 where "IP_P_UDP = 17"
definition IP_TTL :: u8 where "IP_TTL = 64"

record tcphdr_t =
  h_sport :: u16
  h_dport :: u16
  h_seqnr :: u32
  h_acknr :: u32
  h_rev0 :: u8
  h_offset :: u8
  h_flgs :: u8
  h_window :: u16
  h_cksum :: u16
  h_urgptr :: u16

definition TCPHDR_SIZ :: nat where "TCPHDR_SIZ = 20"

definition tcphdr_load :: "u8 list \<Rightarrow> tcphdr_t" where
  "tcphdr_load b =
     \<lparr>h_sport = ld16 (b ! 0) (b ! 1), h_dport = ld16 (b ! 2) (b ! 3),
      h_seqnr = ld32 (b ! 4) (b ! 5) (b ! 6) (b ! 7), h_acknr = ld32 (b ! 8) (b ! 9) (b ! 10) (b ! 11),
      h_rev0 = take_bit 4 (b ! 12), h_offset = drop_bit 4 (b ! 12), h_flgs = b ! 13,
      h_window = ld16 (b ! 14) (b ! 15), h_cksum = ld16 (b ! 16) (b ! 17), h_urgptr = ld16 (b ! 18) (b ! 19)\<rparr>"

definition tcphdr_store :: "tcphdr_t \<Rightarrow> u8 list" where
  "tcphdr_store h =
     st16 (h_sport h) @ st16 (h_dport h) @ st32 (h_seqnr h) @ st32 (h_acknr h)
     @ [take_bit 4 (h_rev0 h) OR push_bit 4 (h_offset h), h_flgs h]
     @ st16 (h_window h) @ st16 (h_cksum h) @ st16 (h_urgptr h)"

record iphdr_t =
  i_ihl :: u8
  i_ver :: u8
  i_tos :: u8
  i_len :: u16
  i_id :: u16
  i_off0 :: u8
  i_flgs :: u8
  i_off1 :: u8
  i_ttl :: u8
  i_ptype :: u8
  i_cksum :: u16
  i_sip :: ipv4_t
  i_dip :: ipv4_t

definition IPHDR_SIZ :: nat where "IPHDR_SIZ = 20"

definition iphdr_load :: "u8 list \<Rightarrow> iphdr_t" where
  "iphdr_load b =
     \<lparr>i_ihl = take_bit 4 (b ! 0), i_ver = drop_bit 4 (b ! 0), i_tos = b ! 1, i_len = ld16 (b ! 2) (b ! 3),
      i_id = ld16 (b ! 4) (b ! 5), i_off0 = take_bit 5 (b ! 6), i_flgs = drop_bit 5 (b ! 6), i_off1 = b ! 7,
      i_ttl = b ! 8, i_ptype = b ! 9, i_cksum = ld16 (b ! 10) (b ! 11),
      i_sip = ld32 (b ! 12) (b ! 13) (b ! 14) (b ! 15), i_dip = ld32 (b ! 16) (b ! 17) (b ! 18) (b ! 19)\<rparr>"

definition iphdr_store :: "iphdr_t \<Rightarrow> u8 list" where
  "iphdr_store h =
     [take_bit 4 (i_ihl h) OR push_bit 4 (i_ver h), i_tos h] @ st16 (i_len h) @ st16 (i_id h)
     @ [take_bit 5 (i_off0 h) OR push_bit 5 (i_flgs h), i_off1 h, i_ttl h, i_ptype h]
     @ st16 (i_cksum h) @ st32 (i_sip h) @ st32 (i_dip h)"

section \<open>Checksums\<close>

text \<open>The loops that add up 16-bit words; an odd last byte counts as a low byte.\<close>

fun sum16 :: "u32 \<Rightarrow> u8 list \<Rightarrow> u32" where
  "sum16 s (a # b # bs) = sum16 (s + ucast (ld16 a b)) bs"
| "sum16 s [a] = s + ucast a"
| "sum16 s [] = s"

definition tcpchk :: "ipv4_t \<Rightarrow> ipv4_t \<Rightarrow> int \<Rightarrow> u8 list" where
  "tcpchk sip dip len = st32 sip @ st32 dip @ [0, IP_P_TCP] @ st16 (htons (of_int len))"

text \<open>\<open>data\<close> are the bytes from the given address to the end of its buffer.\<close>

definition net_cksum_tcp :: "u8 list \<Rightarrow> ipv4_t \<Rightarrow> ipv4_t \<Rightarrow> int \<Rightarrow> u16 option" where
  "net_cksum_tcp data sip dip len = do {
     assertk (len \<le> int (length data));
     let s = sum16 0 (take (nat len) data);
     let s = sum16 s (tcpchk sip dip len);
     let s = drop_bit 16 s + (s AND 0xFFFF);
     let s = s + drop_bit 16 s;
     Some (ucast (NOT s))
   }"

lemma unat_high: "unat (drop_bit 16 (s :: u32)) = unat s div 65536"
  by (simp add: drop_bit_eq_div unat_div_distrib)

lemma unat_low: "unat (s AND 0xFFFF :: u32) = unat s mod 65536"
proof -
  have "s AND 0xFFFF = take_bit 16 s" by (simp add: take_bit_eq_mask mask_eq_exp_minus_1)
  then show ?thesis by (simp add: take_bit_eq_mod unat_mod_distrib)
qed

function ip_carry :: "u32 \<Rightarrow> u32" where
  "ip_carry s = (if drop_bit 16 s \<noteq> 0 then ip_carry ((s AND 0xFFFF) + drop_bit 16 s) else s)"
  by pat_completeness auto
termination
proof (relation "measure unat")
  fix s :: u32
  assume "drop_bit 16 s \<noteq> 0"
  then have "unat s div 65536 \<noteq> 0" by (metis unat_eq_zero unat_high)
  moreover have "unat ((s AND 0xFFFF) + drop_bit 16 s) \<le> unat s mod 65536 + unat s div 65536"
    unfolding unat_high [symmetric] unat_low [symmetric] by (simp add: unat_word_ariths)
  moreover have "unat s = unat s div 65536 * 65536 + unat s mod 65536" by simp
  ultimately have "unat ((s AND 0xFFFF) + drop_bit 16 s) < unat s" by linarith
  then show "((s AND 0xFFFF) + drop_bit 16 s, s) \<in> measure unat" by simp
qed simp

declare ip_carry.simps [simp del]

definition ip_cksum :: "u8 list \<Rightarrow> u16" where
  "ip_cksum data = ucast (NOT (ip_carry (sum16 0 (take 20 data))))"

section \<open>Sending\<close>

definition net_tx_ip :: "ipv4_t \<Rightarrow> ipv4_t \<Rightarrow> u8 \<Rightarrow> mbuf_t \<Rightarrow> mbuf_t option" where
  "net_tx_ip nip dip ptype m = do {
     m \<leftarrow> mbuf_push IPHDR_SIZ m;
     old \<leftarrow> mb_read (mb_head m) IPHDR_SIZ m;
     let hdr = (iphdr_load old)
       \<lparr>i_ver := 4, i_ihl := of_nat (IPHDR_SIZ div 4), i_off0 := 0, i_off1 := 0, i_flgs := 0, i_ptype := ptype,
        i_ttl := IP_TTL, i_len := htons (ucast (mb_len m)), i_dip := dip, i_sip := nip, i_cksum := 0\<rparr>;
     m \<leftarrow> mb_write (mb_head m) (iphdr_store hdr) m;
     mb_write (mb_head m) (iphdr_store (hdr\<lparr>i_cksum := ip_cksum (iphdr_store hdr)\<rparr>)) m
   }"

definition net_tx_tcp ::
  "ipv4_t \<Rightarrow> ipv4_t \<Rightarrow> u16 \<Rightarrow> u16 \<Rightarrow> u32 \<Rightarrow> u32 \<Rightarrow> u8 \<Rightarrow> u16 \<Rightarrow> u16 \<Rightarrow> mbuf_t \<Rightarrow> mbuf_t option" where
  "net_tx_tcp nip dip sport dport seqnr acknr flgs window urgptr m = do {
     m \<leftarrow> mbuf_push TCPHDR_SIZ m;
     let hdr = \<lparr>h_sport = htons sport, h_dport = htons dport, h_seqnr = htonl seqnr, h_acknr = htonl acknr,
                h_rev0 = 0, h_offset = 5, h_flgs = flgs, h_window = htons window, h_cksum = 0,
                h_urgptr = htons urgptr\<rparr>;
     m \<leftarrow> mb_write (mb_head m) (tcphdr_store hdr) m;
     ck \<leftarrow> net_cksum_tcp (drop (mb_head m) (mb_buf m)) nip dip (sint (ucast (mb_len m) :: u32));
     m \<leftarrow> mb_write (mb_head m) (tcphdr_store (hdr\<lparr>h_cksum := ck\<rparr>)) m;
     net_tx_ip nip dip IP_P_TCP m
   }"

section \<open>Receiving\<close>

text \<open>Where \<open>net_rx_ip\<close> passes a packet that no raw socket has taken.\<close>

datatype rx_ip = RxDrop | RxIcmp iphdr_t mbuf_t | RxTcp iphdr_t mbuf_t | RxUdp iphdr_t mbuf_t | RxNone

definition net_rx_ip :: "ipv4_t \<Rightarrow> mbuf_t \<Rightarrow> rx_ip option" where
  "net_rx_ip nip m = do {
     b \<leftarrow> mb_read (mb_head m) IPHDR_SIZ m;
     m \<leftarrow> mbuf_pull IPHDR_SIZ m;
     let hdr = iphdr_load b;
     if i_ver hdr \<noteq> 4 then Some RxDrop
     else if i_ihl hdr \<noteq> of_nat (IPHDR_SIZ div 4) then Some RxDrop
     else if i_flgs hdr AND 4 \<noteq> 0 \<or> i_off0 hdr \<noteq> 0 \<or> i_off1 hdr \<noteq> 0 then Some RxDrop
     else if \<not> ip_addr_cmp nip (i_dip hdr) then Some RxDrop
     else do {
       let m = m\<lparr>mb_len := ucast (ntohs (i_len hdr)) - of_nat IPHDR_SIZ\<rparr>;
       Some (if i_ptype hdr = IP_P_ICMP then RxIcmp hdr m
             else if i_ptype hdr = IP_P_TCP then RxTcp hdr m
             else if i_ptype hdr = IP_P_UDP then RxUdp hdr m
             else RxNone)
     }
   }"

text \<open>
  The first part of \<open>sock_rx_tcp\<close>: it checks the checksum, takes the header off and
  turns its fields into the order of the processor. \<open>Some None\<close> stands for a wrong checksum.
\<close>

definition tcphdr_host :: "tcphdr_t \<Rightarrow> tcphdr_t" where
  "tcphdr_host h = h\<lparr>h_sport := ntohs (h_sport h), h_dport := ntohs (h_dport h), h_seqnr := ntohl (h_seqnr h),
     h_acknr := ntohl (h_acknr h), h_window := ntohs (h_window h), h_urgptr := ntohs (h_urgptr h)\<rparr>"

definition tcp_rx_hdr :: "iphdr_t \<Rightarrow> mbuf_t \<Rightarrow> (tcphdr_t \<times> mbuf_t) option option" where
  "tcp_rx_hdr ip m = do {
     ck \<leftarrow> net_cksum_tcp (drop (mb_head m) (mb_buf m)) (i_sip ip) (i_dip ip) (sint (ucast (mb_len m) :: u32));
     if ck \<noteq> 0 then Some None
     else do {
       b \<leftarrow> mb_read (mb_head m) TCPHDR_SIZ m;
       m \<leftarrow> mbuf_pull TCPHDR_SIZ m;
       Some (Some (tcphdr_host (tcphdr_load b), m))
     }
   }"

section \<open>Laws of bytes and headers\<close>

lemma ld16_st16: "ld16 (ucast w) (ucast (drop_bit 8 w)) = w"
  by (rule bit_word_eqI) (auto simp: ld16_def bit_simps)

lemma ld32_st32: "ld32 (ucast w) (ucast (drop_bit 8 w)) (ucast (drop_bit 16 w)) (ucast (drop_bit 24 w)) = w"
proof (rule bit_word_eqI)
  fix n
  assume n: "n < LENGTH(32)"
  consider "n < 8" | "8 \<le> n" "n < 16" | "16 \<le> n" "n < 24" | "24 \<le> n" by linarith
  then show "bit (ld32 (ucast w) (ucast (drop_bit 8 w)) (ucast (drop_bit 16 w)) (ucast (drop_bit 24 w))) n = bit w n"
    by cases (use n in \<open>simp_all add: ld32_def bit_simps less_diff_conv2\<close>)
qed

lemma htons_bits: "htons h = (drop_bit 8 h AND mask 8) OR push_bit 8 (h AND mask 8)"
  by (simp add: htons_def drop_bit_and mask_eq_exp_minus_1)

lemma ntohs_htons [simp]: "ntohs (htons h) = h"
proof -
  have e: "ntohs = htons" by (simp add: fun_eq_iff ntohs_def htons_def)
  have "htons (htons h) = h"
  proof (rule bit_word_eqI)
    fix n
    assume n: "n < LENGTH(16)"
    consider "n < 8" | "8 \<le> n" by linarith
    then show "bit (htons (htons h)) n = bit h n"
      by cases (use n in \<open>auto simp: htons_bits bit_simps\<close>)
  qed
  then show ?thesis by (simp only: e)
qed

lemma htonl_bits:
  "htonl h = (drop_bit 24 h AND mask 8) OR (drop_bit 8 h AND push_bit 8 (mask 8))
     OR push_bit 8 (h AND push_bit 8 (mask 8)) OR push_bit 24 (h AND mask 8)"
  by (simp add: htonl_def drop_bit_and mask_eq_exp_minus_1)

lemma ntohl_htonl [simp]: "ntohl (htonl h) = h"
proof -
  have e: "ntohl = htonl" by (simp add: fun_eq_iff ntohl_def htonl_def)
  have "htonl (htonl h) = h"
  proof (rule bit_word_eqI)
    fix n
    assume n: "n < LENGTH(32)"
    consider "n < 8" | "8 \<le> n" "n < 16" | "16 \<le> n" "n < 24" | "24 \<le> n" by linarith
    then show "bit (htonl (htonl h)) n = bit h n"
      by cases (use n in \<open>auto simp: htonl_bits bit_simps\<close>)
  qed
  then show ?thesis by (simp only: e)
qed

lemma bit_fields:
  assumes "take_bit k a = (a :: u8)" "take_bit (8 - k) b = b" "k \<le> 8"
  shows "take_bit k (a OR push_bit k b) = a" "drop_bit k (a OR push_bit k b) = b"
proof -
  have a: "bit a n \<Longrightarrow> n < k" for n using assms(1) by (metis bit_take_bit_iff)
  have b: "bit b n \<Longrightarrow> n < 8 - k" for n using assms(2) by (metis bit_take_bit_iff)
  show "take_bit k (a OR push_bit k b) = a"
    by (rule bit_word_eqI) (auto simp: bit_simps dest: a)
  show "drop_bit k (a OR push_bit k b) = b"
  proof (rule bit_word_eqI)
    fix n
    assume "n < LENGTH(8)"
    have "\<not> bit a (k + n)" using a [of "k + n"] by auto
    then show "bit (drop_bit k (a OR push_bit k b)) n = bit b n"
      using \<open>n < LENGTH(8)\<close> assms(3) by (auto simp: bit_simps dest: b)
  qed
qed

lemma length_st [simp]: "length (st16 w) = 2" "length (st32 v) = 4" "length (tcphdr_store h) = 20" "length (iphdr_store i) = 20"
  by (simp_all add: st16_def st32_def tcphdr_store_def iphdr_store_def)

lemma tcphdr_load_store:
  "take_bit 4 (h_rev0 h) = h_rev0 h \<Longrightarrow> take_bit 4 (h_offset h) = h_offset h \<Longrightarrow> tcphdr_load (tcphdr_store h @ d) = h"
  by (cases h) (simp add: tcphdr_load_def tcphdr_store_def st16_def st32_def ld16_st16 ld32_st32 bit_fields del: take_bit_or drop_bit_or)

lemma iphdr_load_store:
  "take_bit 4 (i_ihl h) = i_ihl h \<Longrightarrow> take_bit 4 (i_ver h) = i_ver h \<Longrightarrow> take_bit 5 (i_off0 h) = i_off0 h
   \<Longrightarrow> take_bit 3 (i_flgs h) = i_flgs h \<Longrightarrow> iphdr_load (iphdr_store h @ d) = h"
  by (cases h) (simp add: iphdr_load_def iphdr_store_def st16_def st32_def ld16_st16 ld32_st32 bit_fields del: take_bit_or drop_bit_or)

section \<open>The checksum of a packet\<close>

fun words :: "u8 list \<Rightarrow> nat" where
  "words (a # b # bs) = unat (ld16 a b) + words bs"
| "words [a] = unat a"
| "words [] = 0"

lemma sum16_words: "sum16 s bs = s + of_nat (words bs)"
  by (induction s bs rule: sum16.induct) (simp_all add: add.assoc)

lemma words_append: "even (length xs) \<Longrightarrow> words (xs @ ys) = words xs + words ys"
  by (induction xs rule: words.induct) auto

lemma words_bound: "words bs \<le> 65535 * ((length bs + 1) div 2)"
proof (induction bs rule: words.induct)
  case (1 a b bs)
  have "unat (ld16 a b) \<le> 65535" using unat_lt2p [of "ld16 a b"] by simp
  then show ?case using 1 by simp
next
  case (2 a)
  show ?case using unat_lt2p [of a] by simp
qed simp

lemma words_st16 [simp]: "words (st16 w) = unat w"
  by (simp add: st16_def ld16_st16)

text \<open>The two carry steps at the end of \<open>net_cksum_tcp\<close>.\<close>

definition carry16 :: "nat \<Rightarrow> nat" where
  "carry16 s = (let t = s div 65536 + s mod 65536 in (t + t div 65536) mod 65536)"

lemma carry16_mod:
  assumes "s < 2 ^ 32"
  shows "carry16 s mod 65535 = s mod 65535" "s \<noteq> 0 \<Longrightarrow> carry16 s \<noteq> 0" "carry16 s \<le> 65535"
proof -
  define q r where qr: "q = s div 65536" "r = s mod 65536"
  then have s: "s = 65535 * q + (q + r)" using div_mult_mod_eq [of s 65536] by linarith
  have b: "q \<le> 65535" "r \<le> 65535" using assms qr by auto
  have m: "s mod 65535 = (q + r) mod 65535" using mod_mult_self4 [of 65535 q "q + r"] s by (simp only:)
  have c: "carry16 s = (if q + r < 65536 then q + r else q + r - 65535)"
  proof (cases "q + r < 65536")
    case False
    then have "(q + r) div 65536 = 1" using b by (intro div_nat_eqI) simp_all
    then show ?thesis using False b by (simp add: carry16_def qr [symmetric] Let_def le_mod_geq)
  qed (simp add: carry16_def qr [symmetric] Let_def)
  show "carry16 s mod 65535 = s mod 65535" using c m b by (simp add: le_mod_geq)
  show "carry16 s \<noteq> 0" if "s \<noteq> 0" using c s that by (auto split: if_splits)
  show "carry16 s \<le> 65535" by (simp add: carry16_def Let_def)
qed

lemma ucast_NOT16: "ucast (NOT (x :: u32)) = (NOT (ucast x) :: u16)"
  by (rule bit_word_eqI) (simp add: bit_simps)

lemma net_cksum_carry:
  assumes "len = int (length data)" "length data \<le> 65535"
  shows "net_cksum_tcp (data @ rest) sip dip len = Some (NOT (of_nat (carry16 (words data + words (tcpchk sip dip len)))))"
    "words data + words (tcpchk sip dip len) < 2 ^ 32"
proof -
  let ?w = "words data + words (tcpchk sip dip len)"
  have "length (tcpchk sip dip len) = 12" by (simp add: tcpchk_def)
  then have "words (tcpchk sip dip len) \<le> 65535 * 6" using words_bound [of "tcpchk sip dip len"] by simp
  moreover have "words data \<le> 65535 * 32768"
    by (rule order_trans [OF words_bound mult_le_mono2]) (use assms(2) in simp)
  ultimately show w: "?w < 2 ^ 32" by simp
  let ?s = "of_nat ?w :: u32"
  have u: "unat ?s = ?w" using w by (intro unat_of_nat_lt) simp
  let ?t = "drop_bit 16 ?s + (?s AND 0xFFFF)"
  have t: "unat ?t = ?w div 65536 + ?w mod 65536"
    using w by (subst unat_add_lt) (simp_all only: unat_high unat_low u, simp)
  have "unat (?t + drop_bit 16 ?t) = unat ?t + unat ?t div 65536"
    using w by (subst unat_add_lt) (simp_all only: unat_high t, simp)
  then have "ucast (?t + drop_bit 16 ?t) = (of_nat (unat ?t + unat ?t div 65536) :: u16)" by (metis of_nat_unat)
  then have "of_nat (carry16 ?w) = (ucast (?t + drop_bit 16 ?t) :: u16)"
    unfolding t carry16_def Let_def by (simp only: word_unat_eq_iff unat_of_nat take_bit_eq_mod) simp
  then show "net_cksum_tcp (data @ rest) sip dip len = Some (NOT (of_nat (carry16 ?w)))"
    using assms by (simp add: net_cksum_tcp_def Let_def sum16_words ucast_NOT16)
qed

text \<open>A header with the checksum in its field makes the sum come out right.\<close>

lemma cksum_verifies:
  assumes "even (length p)" "len = int (length p + 2 + length q)" "length p + 2 + length q \<le> 65535"
    and ck: "net_cksum_tcp (p @ st16 0 @ q @ rest) sip dip len = Some ck"
  shows "net_cksum_tcp (p @ st16 ck @ q @ rest') sip dip len = Some 0"
proof -
  let ?c = "words (tcpchk sip dip len)"
  define S where "S = words p + words q + ?c"
  have w: "words (p @ st16 x @ q) = words p + unat x + words q" for x
    using assms(1) by (simp add: words_append)
  have S: "words p + unat x + words q + ?c = S + unat x" for x by (simp add: S_def)
  have l: "len = int (length (p @ st16 x @ q))" "length (p @ st16 x @ q) \<le> 65535" for x
    using assms(2,3) by simp_all
  note n = net_cksum_carry [where sip = sip and dip = dip, OF l, unfolded w append_assoc S]
  have "ck = NOT (of_nat (carry16 S))" using n(1) [of 0 rest] ck by simp
  moreover have cS: "carry16 S \<le> 65535" using carry16_mod(3) n(2) [of 0] by simp
  moreover have "NOT x = 65535 - x" for x :: u16 by (simp add: not_eq_complement)
  moreover have u: "unat (of_nat (carry16 S) :: u16) = carry16 S" using cS by (intro unat_of_nat_lt) simp
  ultimately have uck: "unat ck = 65535 - carry16 S"
    using cS by (simp add: unat_sub_le word_le_nat_alt)
  let ?T = "S + unat ck"
  have "S < 2 ^ 32" using n(2) [of 0] by simp
  have T: "?T < 2 ^ 32" using n(2) [of ck] .
  have "S mod 65535 = carry16 S mod 65535" by (rule carry16_mod(1) [OF \<open>S < 2 ^ 32\<close>, symmetric])
  then have "(S + (65535 - carry16 S)) mod 65535 = (carry16 S + (65535 - carry16 S)) mod 65535" by (rule mod_add_cong) (rule refl)
  then have "?T mod 65535 = 0" using uck cS by simp
  then have "carry16 ?T mod 65535 = 0" using carry16_mod(1) [OF T] by simp
  moreover have "?T \<noteq> 0" using uck by (cases "S = 0") (simp_all add: carry16_def)
  then have "carry16 ?T \<noteq> 0" by (rule carry16_mod(2) [OF T])
  ultimately have "carry16 ?T = 65535" using carry16_mod(3) [OF T] by (auto elim!: dvdE simp: mod_eq_0_iff_dvd)
  then show ?thesis using n(1) [of ck rest'] by simp
qed

section \<open>From sender to receiver\<close>

lemma sint_len:
  assumes "unat (w :: u64) = n" "n \<le> 65535"
  shows "sint (ucast w :: u32) = int n"
proof -
  have "unat (ucast w :: u32) = n"
    unfolding unsigned_ucast_eq assms(1) by (rule take_bit_nat_eq_self) (use assms(2) in simp)
  then have "uint (ucast w :: u32) = int n" by (simp only: uint_nat)
  moreover have "signed_take_bit 31 (int n) = int n"
    by (rule signed_take_bit_int_eq_self) (use assms(2) in simp_all)
  ultimately show ?thesis by (simp only: sint_uint) simp
qed

lemma tcphdr_store_split:
  obtains p q where "even (length p)" "length p + 2 + length q = 20"
    "\<And>ck. tcphdr_store (h\<lparr>h_cksum := ck\<rparr>) = p @ st16 ck @ q"
proof
  let ?p = "st16 (h_sport h) @ st16 (h_dport h) @ st32 (h_seqnr h) @ st32 (h_acknr h)
     @ [take_bit 4 (h_rev0 h) OR push_bit 4 (h_offset h), h_flgs h] @ st16 (h_window h)"
  show "even (length ?p)" "length ?p + 2 + length (st16 (h_urgptr h)) = 20" by simp_all
  show "tcphdr_store (h\<lparr>h_cksum := ck\<rparr>) = ?p @ st16 ck @ st16 (h_urgptr h)" for ck
    by (simp add: tcphdr_store_def)
qed

lemma net_tx_ip_bytes:
  assumes m: "mb_ok m" and room: "20 \<le> mb_head m"
  shows "\<exists>m' hdr. net_tx_ip nip dip pt m = Some m' \<and> mb_ok m' \<and> mb_head m' = mb_head m - 20
    \<and> mb_dlen m' = mb_dlen m \<and> mb_id m' = mb_id m \<and> mb_bytes m' = iphdr_store hdr @ mb_bytes m
    \<and> i_ver hdr = 4 \<and> i_ihl hdr = 5 \<and> i_off0 hdr = 0 \<and> i_off1 hdr = 0 \<and> i_flgs hdr = 0
    \<and> i_ptype hdr = pt \<and> i_sip hdr = nip \<and> i_dip hdr = dip
    \<and> ntohs (i_len hdr) = of_nat (length (mb_bytes m) + 20)"
proof -
  obtain m1 where m1: "mbuf_push 20 m = Some m1" "mb_ok m1" "mb_head m1 = mb_head m - 20" "mb_len m1 = mb_len m + 20"
    "mb_dlen m1 = mb_dlen m" "mb_id m1 = mb_id m" "mb_buf m1 = mb_buf m"
    using mbuf_push_write [OF m, of "replicate 20 0"] room by (auto simp: mbuf_push_def)
  have "mb_head m1 + 20 \<le> MBUF_SIZE" using m m1 room by (simp add: mb_ok_def)
  then obtain old where old: "mb_read (mb_head m1) 20 m1 = Some old" by (simp add: mb_read_def)
  let ?hdr = "(iphdr_load old)
       \<lparr>i_ver := 4, i_ihl := 5, i_off0 := 0, i_off1 := 0, i_flgs := 0, i_ptype := pt,
        i_ttl := IP_TTL, i_len := htons (ucast (mb_len m1)), i_dip := dip, i_sip := nip, i_cksum := 0\<rparr>"
  obtain m2 where m2: "mb_write (mb_head m1) (iphdr_store ?hdr) m1 = Some m2" "mb_ok m2" "mb_head m2 = mb_head m - 20"
    "mb_bytes m2 = iphdr_store ?hdr @ mb_bytes m" "mb_dlen m2 = mb_dlen m" "mb_id m2 = mb_id m"
    using mbuf_push_write [OF m, of "iphdr_store ?hdr"] room m1(1) by auto
  let ?hdr' = "?hdr\<lparr>i_cksum := ip_cksum (iphdr_store ?hdr)\<rparr>"
  obtain m3 where m3: "mb_write (mb_head m2) (iphdr_store ?hdr') m2 = Some m3" "mb_ok m3" "mb_head m3 = mb_head m - 20"
    "mb_bytes m3 = iphdr_store ?hdr' @ mb_bytes m" "mb_dlen m3 = mb_dlen m" "mb_id m3 = mb_id m"
    using mb_rewrite [OF m2(2,4), of "iphdr_store ?hdr'"] m2 by auto
  have "net_tx_ip nip dip pt m = Some m3"
    using m1(1) old m2(1) m3(1) by (simp add: net_tx_ip_def IPHDR_SIZ_def Let_def)
  moreover have "(ucast (mb_len m1) :: u16) = of_nat (length (mb_bytes m) + 20)"
    using unat_len_add [OF m, of 20] length_mb_bytes [OF m] m1(4)
    by (simp add: MBUF_SIZE_def) (metis of_nat_add of_nat_numeral of_nat_unat)
  ultimately show ?thesis
    using m3 by (intro exI [of _ m3] exI [of _ ?hdr'] conjI) simp_all
qed

lemma net_tx_tcp_bytes:
  assumes m: "mb_ok m" and room: "40 \<le> mb_head m"
  shows "\<exists>m' ip ck. net_tx_tcp nip dip sport dport seqnr acknr flgs window urgptr m = Some m' \<and> mb_ok m'
    \<and> mb_head m' = mb_head m - 40 \<and> mb_dlen m' = mb_dlen m \<and> mb_id m' = mb_id m
    \<and> (let th = \<lparr>h_sport = htons sport, h_dport = htons dport, h_seqnr = htonl seqnr, h_acknr = htonl acknr,
                h_rev0 = 0, h_offset = 5, h_flgs = flgs, h_window = htons window, h_cksum = ck,
                h_urgptr = htons urgptr\<rparr>
       in mb_bytes m' = iphdr_store ip @ tcphdr_store th @ mb_bytes m
          \<and> (\<forall>rest. net_cksum_tcp (tcphdr_store th @ mb_bytes m @ rest) nip dip (int (20 + length (mb_bytes m))) = Some 0))
    \<and> i_ver ip = 4 \<and> i_ihl ip = 5 \<and> i_off0 ip = 0 \<and> i_off1 ip = 0 \<and> i_flgs ip = 0
    \<and> i_ptype ip = IP_P_TCP \<and> i_sip ip = nip \<and> i_dip ip = dip
    \<and> ntohs (i_len ip) = of_nat (length (mb_bytes m) + 40)"
proof -
  let ?d = "mb_bytes m"
  let ?th = "\<lparr>h_sport = htons sport, h_dport = htons dport, h_seqnr = htonl seqnr, h_acknr = htonl acknr,
                h_rev0 = 0, h_offset = 5, h_flgs = flgs, h_window = htons window, h_cksum = 0,
                h_urgptr = htons urgptr\<rparr>"
  obtain m1 m2 where m1: "mbuf_push 20 m = Some m1" "mb_write (mb_head m1) (tcphdr_store ?th) m1 = Some m2" "mb_ok m2"
    "mb_head m2 = mb_head m - 20" "mb_bytes m2 = tcphdr_store ?th @ ?d" "mb_dlen m2 = mb_dlen m" "mb_id m2 = mb_id m"
    using mbuf_push_write [OF m, of "tcphdr_store ?th"] room by auto
  have len: "unat (mb_len m2) = 20 + length ?d" using length_mb_bytes [OF m1(3)] m1(5) by simp
  have small: "20 + length ?d \<le> MBUF_SIZE" using m1(3) len by (simp add: mb_ok_def)
  obtain rest where rest: "drop (mb_head m2) (mb_buf m2) = tcphdr_store ?th @ ?d @ rest"
    using append_take_drop_id [of "unat (mb_len m2)" "drop (mb_head m2) (mb_buf m2)"] m1(5)
    by (metis append_assoc mb_bytes_def)
  obtain p q where pq: "even (length p)" "length p + 2 + length q = 20"
    "\<And>ck. tcphdr_store (?th\<lparr>h_cksum := ck\<rparr>) = p @ st16 ck @ q"
    using tcphdr_store_split by blast
  have pq0: "tcphdr_store ?th = p @ st16 0 @ q" using pq(3) [of 0] by simp
  have "length (p @ st16 0 @ q @ ?d) \<le> 65535" using small pq(2) by (simp add: MBUF_SIZE_def)
  then obtain ck where ck: "net_cksum_tcp (p @ st16 0 @ (q @ ?d) @ rest) nip dip (int (20 + length ?d)) = Some ck"
    using net_cksum_carry(1) [of "int (20 + length ?d)" "p @ st16 0 @ q @ ?d" rest nip dip] pq(2) by auto
  have ver: "net_cksum_tcp (p @ st16 ck @ (q @ ?d) @ rest') nip dip (int (20 + length ?d)) = Some 0" for rest'
    by (rule cksum_verifies [OF pq(1) _ _ ck]) (use pq(2) small in \<open>simp_all add: MBUF_SIZE_def\<close>)
  let ?th' = "?th\<lparr>h_cksum := ck\<rparr>"
  obtain m3 where m3: "mb_write (mb_head m2) (tcphdr_store ?th') m2 = Some m3" "mb_ok m3" "mb_head m3 = mb_head m - 20"
    "mb_bytes m3 = tcphdr_store ?th' @ ?d" "mb_dlen m3 = mb_dlen m" "mb_id m3 = mb_id m"
    using mb_rewrite [OF m1(3,5), of "tcphdr_store ?th'"] m1 by auto
  have "20 \<le> mb_head m3" using m3(3) room by simp
  from net_tx_ip_bytes [OF m3(2) this, of nip dip IP_P_TCP] obtain m4 ip where
    m4: "net_tx_ip nip dip IP_P_TCP m3 = Some m4" "mb_ok m4" "mb_head m4 = mb_head m - 40" "mb_dlen m4 = mb_dlen m"
    "mb_id m4 = mb_id m" "mb_bytes m4 = iphdr_store ip @ tcphdr_store ?th' @ ?d" and
    ip: "i_ver ip = 4" "i_ihl ip = 5" "i_off0 ip = 0" "i_off1 ip = 0" "i_flgs ip = 0"
    "i_ptype ip = IP_P_TCP" "i_sip ip = nip" "i_dip ip = dip" "ntohs (i_len ip) = of_nat (length ?d + 40)"
    using m3 by (auto simp: add.commute)
  have "sint (ucast (mb_len m2) :: u32) = int (20 + length ?d)"
    by (rule sint_len [OF len]) (use small in \<open>simp add: MBUF_SIZE_def\<close>)
  then have "net_tx_tcp nip dip sport dport seqnr acknr flgs window urgptr m = Some m4"
    using m1(1,2) ck rest m3(1) m4(1) pq0 by (simp add: net_tx_tcp_def TCPHDR_SIZ_def Let_def)
  moreover have "tcphdr_store ?th' @ ?d @ rest' = p @ st16 ck @ (q @ ?d) @ rest'" for rest' using pq(3) [of ck] by simp
  ultimately show ?thesis
    using m4 ip ver by (intro exI [of _ m4] exI [of _ ip] exI [of _ ck]) (simp add: Let_def)
qed

text \<open>
  \<open>pkt\<close> is a packet for the receiver with address \<open>dip\<close>: whatever buffer it arrives in, and whatever
  padding follows it, the receiver takes it for a TCP segment with these fields and data.
\<close>

definition is_packet ::
  "ipv4_t \<Rightarrow> ipv4_t \<Rightarrow> u16 \<Rightarrow> u16 \<Rightarrow> u32 \<Rightarrow> u32 \<Rightarrow> u8 \<Rightarrow> u8 list \<Rightarrow> u8 list \<Rightarrow> bool" where
  "is_packet sip dip sport dport seqnr acknr flgs d pkt \<longleftrightarrow>
     length pkt = length d + 40 \<and> length pkt \<le> MBUF_SIZE \<and>
     (\<forall>r pad. mb_ok r \<and> mb_bytes r = pkt @ pad \<longrightarrow>
       (\<exists>ip t h u. net_rx_ip dip r = Some (RxTcp ip t) \<and> i_sip ip = sip \<and> i_dip ip = dip
          \<and> tcp_rx_hdr ip t = Some (Some (h, u))
          \<and> h_sport h = sport \<and> h_dport h = dport \<and> h_seqnr h = seqnr \<and> h_acknr h = acknr \<and> h_flgs h = flgs
          \<and> mb_ok u \<and> mb_bytes u = d \<and> mb_buf u = mb_buf r \<and> mb_head u = mb_head r + 40))"

lemma mb_read_prefix:
  assumes "mb_ok m" "mb_bytes m = b @ d"
  shows "mb_read (mb_head m) (length b) m = Some b" "\<exists>rest. drop (mb_head m) (mb_buf m) = b @ d @ rest"
proof -
  have l: "length b + length d = unat (mb_len m)" using length_mb_bytes [OF assms(1)] assms(2) by simp
  show r: "\<exists>rest. drop (mb_head m) (mb_buf m) = b @ d @ rest"
    using append_take_drop_id [of "unat (mb_len m)" "drop (mb_head m) (mb_buf m)"] assms(2)
    by (metis append_assoc mb_bytes_def)
  then show "mb_read (mb_head m) (length b) m = Some b" using l assms(1) by (auto simp: mb_read_def mb_ok_def)
qed

lemma mb_shorten:
  assumes "mb_ok m" "mb_bytes m = d @ pad" "n = of_nat (length d)"
  shows "mb_ok (m\<lparr>mb_len := n\<rparr>)" "mb_bytes (m\<lparr>mb_len := n\<rparr>) = d" "unat n = length d"
proof -
  have l: "length d + length pad = unat (mb_len m)" using length_mb_bytes [OF assms(1)] assms(2) by simp
  then have "length d \<le> MBUF_SIZE" using assms(1) by (simp add: mb_ok_def)
  then show u: "unat n = length d" unfolding assms(3) by (intro unat_of_nat_lt) (simp add: MBUF_SIZE_def)
  then show "mb_ok (m\<lparr>mb_len := n\<rparr>)" using assms(1) l by (simp add: mb_ok_def)
  obtain rest where "drop (mb_head m) (mb_buf m) = d @ pad @ rest" using mb_read_prefix(2) [OF assms(1,2)] by auto
  then show "mb_bytes (m\<lparr>mb_len := n\<rparr>) = d" using u by (simp add: mb_bytes_def)
qed

lemma net_rx_packet:
  assumes ip: "i_ver ip = 4" "i_ihl ip = 5" "i_off0 ip = 0" "i_off1 ip = 0" "i_flgs ip = 0"
    "i_ptype ip = IP_P_TCP" "i_dip ip = dip" "ntohs (i_len ip) = of_nat (length sg + 20)"
    and r: "mb_ok r" "mb_bytes r = (iphdr_store ip @ sg) @ pad"
  shows "\<exists>t. net_rx_ip dip r = Some (RxTcp ip t) \<and> mb_ok t \<and> mb_bytes t = sg \<and> mb_buf t = mb_buf r
    \<and> mb_head t = mb_head r + 20"
proof -
  have b: "mb_bytes r = iphdr_store ip @ sg @ pad" using r(2) by simp
  have l: "20 + length sg + length pad = unat (mb_len r)" using length_mb_bytes [OF r(1)] b by simp
  have rd: "mb_read (mb_head r) 20 r = Some (iphdr_store ip)" using mb_read_prefix(1) [OF r(1) b] by simp
  obtain m1 where m1: "mbuf_pull 20 r = Some m1" "mb_ok m1" "mb_bytes m1 = sg @ pad" "mb_buf m1 = mb_buf r"
    "mb_head m1 = mb_head r + 20"
    using mbuf_pull_ok [OF r(1), of 20] l b by auto
  have ld: "iphdr_load (iphdr_store ip) = ip" using iphdr_load_store [of ip "[]"] ip by simp
  have "length sg + 20 < 2 ^ 16" using l r(1) by (simp add: mb_ok_def MBUF_SIZE_def)
  then have "(ucast (of_nat (length sg + 20) :: u16) :: u64) = of_nat (length sg + 20)"
    by (intro ucast_of_nat_lt) simp
  then have n: "ucast (ntohs (i_len ip)) - 20 = (of_nat (length sg) :: u64)" using ip(8) by simp
  note t = mb_shorten [OF m1(2,3) n]
  have "net_rx_ip dip r = Some (RxTcp ip (m1\<lparr>mb_len := ucast (ntohs (i_len ip)) - 20\<rparr>))"
    using rd m1(1) ip by (simp add: net_rx_ip_def IPHDR_SIZ_def Let_def ld ip_addr_cmp_def IP_P_TCP_def IP_P_ICMP_def)
  then show ?thesis using t m1(4,5) by auto
qed

lemma tcp_rx_packet:
  assumes t: "mb_ok t" "mb_bytes t = tcphdr_store th @ d"
    and th: "take_bit 4 (h_rev0 th) = h_rev0 th" "take_bit 4 (h_offset th) = h_offset th"
    and ck: "\<forall>rest. net_cksum_tcp (tcphdr_store th @ d @ rest) (i_sip ip) (i_dip ip) (int (20 + length d)) = Some 0"
  shows "\<exists>u. tcp_rx_hdr ip t = Some (Some (tcphdr_host th, u)) \<and> mb_ok u \<and> mb_bytes u = d \<and> mb_buf u = mb_buf t
    \<and> mb_head u = mb_head t + 20"
proof -
  have l: "unat (mb_len t) = 20 + length d" using length_mb_bytes [OF t(1)] t(2) by simp
  obtain rest where rest: "drop (mb_head t) (mb_buf t) = tcphdr_store th @ d @ rest"
    using mb_read_prefix(2) [OF t] by auto
  have rd: "mb_read (mb_head t) 20 t = Some (tcphdr_store th)" using mb_read_prefix(1) [OF t] by simp
  have s: "sint (ucast (mb_len t) :: u32) = int (20 + length d)"
    by (rule sint_len [OF l]) (use l t(1) in \<open>simp add: mb_ok_def MBUF_SIZE_def\<close>)
  obtain u where "mbuf_pull 20 t = Some u" "mb_ok u" "mb_bytes u = d" "mb_buf u = mb_buf t" "mb_head u = mb_head t + 20"
    using mbuf_pull_ok [OF t(1), of 20] l t(2) by auto
  moreover have "tcphdr_load (tcphdr_store th) = th" using tcphdr_load_store [of th "[]"] th by simp
  ultimately show ?thesis
    using ck rd s rest by (simp add: tcp_rx_hdr_def TCPHDR_SIZ_def)
qed

lemma take_bit_4_5: "take_bit 4 (5 :: u8) = 5" "take_bit 4 (0 :: u8) = 0"
  by (simp_all add: take_bit_eq_mod)

lemma net_tx_tcp_packet:
  assumes "mb_ok m" "40 \<le> mb_head m"
  shows "\<exists>m'. net_tx_tcp nip dip sport dport seqnr acknr flgs window urgptr m = Some m'
    \<and> mb_ok m' \<and> mb_head m' = mb_head m - 40 \<and> mb_dlen m' = mb_dlen m \<and> mb_id m' = mb_id m
    \<and> is_packet nip dip sport dport seqnr acknr flgs (mb_bytes m) (mb_bytes m')"
proof -
  obtain m' ip ck th where
    m': "net_tx_tcp nip dip sport dport seqnr acknr flgs window urgptr m = Some m'" "mb_ok m'"
      "mb_head m' = mb_head m - 40" "mb_dlen m' = mb_dlen m" "mb_id m' = mb_id m" and
    th: "th = \<lparr>h_sport = htons sport, h_dport = htons dport, h_seqnr = htonl seqnr, h_acknr = htonl acknr,
                h_rev0 = 0, h_offset = 5, h_flgs = flgs, h_window = htons window, h_cksum = ck,
                h_urgptr = htons urgptr\<rparr>" and
    b: "mb_bytes m' = iphdr_store ip @ tcphdr_store th @ mb_bytes m"
      "\<forall>rest. net_cksum_tcp (tcphdr_store th @ mb_bytes m @ rest) nip dip (int (20 + length (mb_bytes m))) = Some 0" and
    ip: "i_ver ip = 4" "i_ihl ip = 5" "i_off0 ip = 0" "i_off1 ip = 0" "i_flgs ip = 0"
      "i_ptype ip = IP_P_TCP" "i_sip ip = nip" "i_dip ip = dip" "ntohs (i_len ip) = of_nat (length (mb_bytes m) + 40)"
    using net_tx_tcp_bytes [OF assms, of nip dip sport dport seqnr acknr flgs window urgptr] by (auto simp: Let_def)
  have "is_packet nip dip sport dport seqnr acknr flgs (mb_bytes m) (mb_bytes m')"
    unfolding is_packet_def
  proof (intro conjI allI impI)
    show "length (mb_bytes m') = length (mb_bytes m) + 40" by (simp add: b(1))
    show "length (mb_bytes m') \<le> MBUF_SIZE" using length_mb_bytes [OF m'(2)] m'(2) by (simp add: mb_ok_def)
    fix r pad
    assume "mb_ok r \<and> mb_bytes r = mb_bytes m' @ pad"
    then have r: "mb_ok r \<and> mb_bytes r = (iphdr_store ip @ tcphdr_store th @ mb_bytes m) @ pad" by (simp add: b(1))
    have len: "ntohs (i_len ip) = of_nat (length (tcphdr_store th @ mb_bytes m) + 20)" using ip(9) by simp
    obtain t where t: "net_rx_ip dip r = Some (RxTcp ip t)" "mb_ok t" "mb_bytes t = tcphdr_store th @ mb_bytes m"
      "mb_buf t = mb_buf r" "mb_head t = mb_head r + 20"
      using net_rx_packet [OF ip(1-6,8) len] r by blast
    obtain u where "tcp_rx_hdr ip t = Some (Some (tcphdr_host th, u))" "mb_ok u" "mb_bytes u = mb_bytes m"
      "mb_buf u = mb_buf t" "mb_head u = mb_head t + 20"
      using tcp_rx_packet [OF t(2,3), of ip] b(2) ip(7,8) th take_bit_4_5 by auto
    then show "\<exists>ip t h u. net_rx_ip dip r = Some (RxTcp ip t) \<and> i_sip ip = nip \<and> i_dip ip = dip
          \<and> tcp_rx_hdr ip t = Some (Some (h, u))
          \<and> h_sport h = sport \<and> h_dport h = dport \<and> h_seqnr h = seqnr \<and> h_acknr h = acknr \<and> h_flgs h = flgs
          \<and> mb_ok u \<and> mb_bytes u = mb_bytes m \<and> mb_buf u = mb_buf r \<and> mb_head u = mb_head r + 40"
      using t ip(7,8) th by (intro exI [of _ ip] exI [of _ t] exI [of _ "tcphdr_host th"] exI [of _ u]) (simp add: tcphdr_host_def)
  qed
  then show ?thesis using m' by blast
qed



end
