(* ===== verification/Net_Tcp.thy ===== *)
theory Net_Tcp
  imports Net_Wire Klib_Bitmap
begin

text \<open>
  TCP sockets, \<open>src/kernel/net/socket/tcp.c\<close>. The record \<open>net_t\<close> is the state of one host: its control blocks by number, the two
  lists of sockets, the bitmap of ports, the free packet buffers, the packets handed to the
  interface so far and the tasks woken so far. A function that takes a control block and the host
  returns both. Fields of a new control block that the code does not set keep what the
  allocated memory held, \<open>n_mem\<close>; a fresh page for a packet buffer holds \<open>n_page\<close>. The send
  window fields of \<open>tcp_t\<close>, which no code uses, are left out. Timers are their time of
  expiry, \<open>None\<close> for a dead one. A blocking call ends at the point where the task goes to sleep.
\<close>

datatype tcp_state =
  CLOSED | SYN_SENT | SYN_RCVD | LISTEN | ESTABLISHED | CLOSE_WAIT | LAST_ACK | FIN_WAIT1 | FIN_WAIT2 | CLOSING | TIME_WAIT

record tcp_t =
  tc_nip :: ipv4_t
  tc_laddr :: ipv4_t
  tc_raddr :: ipv4_t
  tc_lport :: u16
  tc_rport :: u16
  tc_mss :: nat
  tc_nagle :: bool
  tc_state :: tcp_state
  tc_shutdown :: u32
  tc_errno :: int
  tc_passive :: bool
  tc_ptcp :: "nat option"
  tc_pchd :: "nat list"
  tc_acpt :: "nat list"
  tc_backlog :: int
  tc_backcnt :: int
  snd_iss :: u32
  snd_una :: u32
  snd_nxt :: u32
  snd_que :: "mbuf_t list"
  una_que :: "mbuf_t list"
  buf_que :: "mbuf_t list"
  tmr_ack :: "u64 option"
  tmr_wait :: "u64 option"
  rcv_nxt :: u32
  rcv_irs :: u32
  rx_waiter :: "task_ref option"
  syn_waiter :: "task_ref option"

record net_t =
  n_nip :: ipv4_t
  n_tcbs :: "tcp_t list"
  n_common :: "nat list"
  n_listen :: "nat list"
  n_bmp :: bitmap_t
  n_tick :: u64
  n_free :: "mbuf_t list"
  n_page :: "u8 list"
  n_mem :: tcp_t
  n_out :: "u8 list list"
  n_woken :: "task_ref list"

definition TCP_SHUT_RD :: u32 where "TCP_SHUT_RD = 1"
definition TCP_SHUT_WR :: u32 where "TCP_SHUT_WR = 2"
definition DEFMSS :: nat where "DEFMSS = 536"
definition TCP_WINDOW :: u16 where "TCP_WINDOW = 65535"
definition TCP_MSL :: u64 where "TCP_MSL = 120"
definition SHUT_RD :: int where "SHUT_RD = 0"
definition SHUT_WR :: int where "SHUT_WR = 1"
definition SHUT_RDWR :: int where "SHUT_RDWR = 2"
definition TCP_EINVAL :: int where "TCP_EINVAL = 22"
definition EDESTADDRREQ :: int where "EDESTADDRREQ = 89"
definition EADDRINUSE :: int where "EADDRINUSE = 98"
definition EADDRNOTAVAIL :: int where "EADDRNOTAVAIL = 99"
definition ECONNRESET :: int where "ECONNRESET = 104"
definition ECONNREFUSED :: int where "ECONNREFUSED = 111"

definition tcb :: "nat \<Rightarrow> net_t \<Rightarrow> tcp_t" where
  "tcb i w = n_tcbs w ! i"

definition tcb_put :: "nat \<Rightarrow> tcp_t \<Rightarrow> net_t \<Rightarrow> net_t" where
  "tcb_put i t w = w\<lparr>n_tcbs := (n_tcbs w)[i := t]\<rparr>"

definition try_unblk :: "task_ref option \<Rightarrow> net_t \<Rightarrow> net_t" where
  "try_unblk x w = (case x of None \<Rightarrow> w | Some t \<Rightarrow> w\<lparr>n_woken := n_woken w @ [t]\<rparr>)"

section \<open>Sending segments\<close>

definition tcp_mbuf :: "net_t \<Rightarrow> mbuf_t \<times> net_t" where
  "tcp_mbuf w = (let (m, l) = mbuf_alloc (n_page w) MBUF_DEFROOM (n_free w) in (m, w\<lparr>n_free := l\<rparr>))"

definition tcp_emit ::
  "ipv4_t \<Rightarrow> ipv4_t \<Rightarrow> u16 \<Rightarrow> u16 \<Rightarrow> u32 \<Rightarrow> u32 \<Rightarrow> u8 \<Rightarrow> u16 \<Rightarrow> mbuf_t \<Rightarrow> net_t \<Rightarrow> (mbuf_t \<times> net_t) option" where
  "tcp_emit nip dip sport dport seqnr acknr flgs window m w = do {
     m \<leftarrow> net_tx_tcp nip dip sport dport seqnr acknr flgs window 0 m;
     Some (m, w\<lparr>n_out := n_out w @ [mb_bytes m]\<rparr>)
   }"

definition tcp_iss :: "net_t \<Rightarrow> u32" where
  "tcp_iss w = ucast (n_tick w) XOR 0x20250403"

definition tcp_tx_setup :: "tcp_t \<Rightarrow> net_t \<Rightarrow> (tcp_t \<times> net_t) option" where
  "tcp_tx_setup t w = do {
     let iss = tcp_iss w;
     let t = t\<lparr>snd_iss := iss, snd_una := iss, snd_nxt := iss + 1, tc_state := SYN_SENT\<rparr>;
     let (m, w) = tcp_mbuf w;
     (m, w) \<leftarrow> tcp_emit (tc_nip t) (tc_raddr t) (tc_lport t) (tc_rport t) iss 0 TCP_F_SYN TCP_WINDOW m w;
     Some (t, w)
   }"

definition tcp_tx_agree :: "tcp_t \<Rightarrow> net_t \<Rightarrow> (tcp_t \<times> net_t) option" where
  "tcp_tx_agree t w = do {
     let iss = tcp_iss w;
     let t = t\<lparr>snd_iss := iss, snd_una := iss, snd_nxt := iss + 1, tc_state := SYN_RCVD\<rparr>;
     let (m, w) = tcp_mbuf w;
     (m, w) \<leftarrow> tcp_emit (tc_nip t) (tc_raddr t) (tc_lport t) (tc_rport t) iss (rcv_nxt t)
       (TCP_F_SYN OR TCP_F_ACK) TCP_WINDOW m w;
     Some (t, w)
   }"

record tcpseg_t =
  sg_seqnr :: u32
  sg_seqlen :: u32
  sg_sip :: ipv4_t
  sg_dip :: ipv4_t
  sg_nip :: ipv4_t
  sg_buf :: mbuf_t
  sg_hdr :: tcphdr_t

abbreviation hd_fin :: "tcpseg_t \<Rightarrow> bool" where "hd_fin g \<equiv> bit (h_flgs (sg_hdr g)) 0"
abbreviation hd_syn :: "tcpseg_t \<Rightarrow> bool" where "hd_syn g \<equiv> bit (h_flgs (sg_hdr g)) 1"
abbreviation hd_rst :: "tcpseg_t \<Rightarrow> bool" where "hd_rst g \<equiv> bit (h_flgs (sg_hdr g)) 2"
abbreviation hd_ack :: "tcpseg_t \<Rightarrow> bool" where "hd_ack g \<equiv> bit (h_flgs (sg_hdr g)) 4"
abbreviation hd_urg :: "tcpseg_t \<Rightarrow> bool" where "hd_urg g \<equiv> bit (h_flgs (sg_hdr g)) 5"

definition tcp_tx_reset :: "tcpseg_t \<Rightarrow> net_t \<Rightarrow> net_t option" where
  "tcp_tx_reset g w = do {
     let hdr = sg_hdr g;
     let (m, w) = tcp_mbuf w;
     (m, w) \<leftarrow>
       (if hd_ack g
        then tcp_emit (sg_nip g) (sg_sip g) (h_dport hdr) (h_sport hdr) (h_acknr hdr) 0 TCP_F_RST 0 m w
        else tcp_emit (sg_nip g) (sg_sip g) (h_dport hdr) (h_sport hdr) 0 (sg_seqnr g + sg_seqlen g)
               (TCP_F_RST OR TCP_F_ACK) 0 m w);
     Some w
   }"

definition tcp_exit_with :: "int \<Rightarrow> tcp_t \<Rightarrow> net_t \<Rightarrow> tcp_t \<times> net_t" where
  "tcp_exit_with errno t w =
     (let t = t\<lparr>tc_errno := errno\<rparr>;
          w = try_unblk (rx_waiter t) w; t = t\<lparr>rx_waiter := None\<rparr>;
          w = try_unblk (syn_waiter t) w; t = t\<lparr>syn_waiter := None\<rparr>
      in (t, w))"

definition TCP_SEQ_LT :: "u32 \<Rightarrow> u32 \<Rightarrow> bool" where
  "TCP_SEQ_LT a b \<longleftrightarrow> sint (a - b) < 0"

definition TCP_SEQ_LE :: "u32 \<Rightarrow> u32 \<Rightarrow> bool" where
  "TCP_SEQ_LE a b \<longleftrightarrow> sint (a - b) \<le> 0"

definition tcp_tx_seg :: "mbuf_t \<Rightarrow> tcp_t \<Rightarrow> net_t \<Rightarrow> (mbuf_t \<times> tcp_t \<times> net_t) option" where
  "tcp_tx_seg m t w = do {
     let m = m\<lparr>mb_id := ucast (snd_nxt t)\<rparr>;
     (m, w) \<leftarrow> tcp_emit (tc_nip t) (tc_raddr t) (tc_lport t) (tc_rport t) (snd_nxt t) (rcv_nxt t) TCP_F_ACK TCP_WINDOW m w;
     Some (m, t\<lparr>snd_nxt := snd_nxt t + ucast (mb_dlen m)\<rparr>, w)
   }"

definition tcp_tx_fin :: "tcp_t \<Rightarrow> net_t \<Rightarrow> (tcp_t \<times> net_t) option" where
  "tcp_tx_fin t w = do {
     let (m, w) = tcp_mbuf w;
     (m, w) \<leftarrow> tcp_emit (tc_nip t) (tc_raddr t) (tc_lport t) (tc_rport t) (snd_nxt t) (rcv_nxt t)
       (TCP_F_ACK OR TCP_F_FIN) TCP_WINDOW m w;
     Some (t\<lparr>snd_nxt := snd_nxt t + 1\<rparr>, w)
   }"

definition tcp_tx_ack :: "tcp_t \<Rightarrow> net_t \<Rightarrow> net_t option" where
  "tcp_tx_ack t w = do {
     let (flgs, seqnr) = (if tc_state t = SYN_RCVD then (TCP_F_ACK OR TCP_F_SYN, snd_iss t) else (TCP_F_ACK, snd_nxt t));
     let (m, w) = tcp_mbuf w;
     (m, w) \<leftarrow> tcp_emit (tc_nip t) (tc_raddr t) (tc_lport t) (tc_rport t) seqnr (rcv_nxt t) flgs TCP_WINDOW m w;
     Some w
   }"

definition tcp_tx_dly :: "tcp_t \<Rightarrow> net_t \<Rightarrow> tcp_t" where
  "tcp_tx_dly t w = t\<lparr>tmr_ack := Some (n_tick w + 50)\<rparr>"

definition tcp_rm_dly :: "tcp_t \<Rightarrow> tcp_t" where
  "tcp_rm_dly t = t\<lparr>tmr_ack := None\<rparr>"

text \<open>What the timer of the delayed acknowledgement does when it fires.\<close>

definition tcp_tmr_dly :: "nat \<Rightarrow> net_t \<Rightarrow> net_t option" where
  "tcp_tmr_dly i w = do {
     let w = tcb_put i ((tcb i w)\<lparr>tmr_ack := None\<rparr>) w;
     tcp_tx_ack (tcb i w) w
   }"

text \<open>The loop of \<open>tcp_do_xmit\<close> over the queue of segments to send.\<close>

fun tcp_xmit_loop :: "mbuf_t list \<Rightarrow> tcp_t \<Rightarrow> net_t \<Rightarrow> (tcp_t \<times> net_t) option" where
  "tcp_xmit_loop [] t w = Some (t\<lparr>snd_que := []\<rparr>, w)"
| "tcp_xmit_loop (m # ms) t w = do {
     (m, t, w) \<leftarrow> tcp_tx_seg m (t\<lparr>snd_que := ms\<rparr>) w;
     let t = t\<lparr>una_que := una_que t @ [m]\<rparr>;
     if tc_nagle t \<and> mb_dlen m \<noteq> 0 then Some (t, w) else tcp_xmit_loop ms t w
   }"

definition tcp_do_xmit :: "tcp_t \<Rightarrow> net_t \<Rightarrow> (tcp_t \<times> net_t) option" where
  "tcp_do_xmit t w =
     (if tc_nagle t \<and> snd_una t < snd_nxt t - 1 then Some (t, w)
      else do {
        (t, w) \<leftarrow> tcp_xmit_loop (snd_que t) (tcp_rm_dly t) w;
        if tc_shutdown t AND TCP_SHUT_WR \<noteq> 0 \<and> snd_que t = [] \<and> una_que t = [] then do {
          let t = t\<lparr>tc_state := (case tc_state t of ESTABLISHED \<Rightarrow> FIN_WAIT1 | CLOSE_WAIT \<Rightarrow> LAST_ACK | s \<Rightarrow> s)\<rparr>;
          tcp_tx_fin (tcp_rm_dly t) w
        }
        else Some (t, w)
      })"

definition tcp_x_ack :: "tcpseg_t \<Rightarrow> tcp_t \<Rightarrow> net_t \<Rightarrow> (tcp_t \<times> net_t) option" where
  "tcp_x_ack g t w = do {
     assertk (hd_ack g);
     let acknr = h_acknr (sg_hdr g);
     if TCP_SEQ_LE acknr (snd_una t) then Some (t, w)
     else if TCP_SEQ_LT (snd_nxt t) acknr then do { w \<leftarrow> tcp_tx_ack t w; Some (t, w) }
     else do {
       let t = t\<lparr>una_que := filter (\<lambda>m. \<not> mb_id m < ucast acknr) (una_que t)\<rparr>;
       let t = t\<lparr>snd_una := acknr\<rparr>;
       tcp_do_xmit t w
     }
   }"

section \<open>Socket operations\<close>

definition ck_lport :: "tcp_t \<Rightarrow> net_t \<Rightarrow> (tcp_t \<times> net_t) option" where
  "ck_lport t w =
     (if tc_lport t \<noteq> 0 then Some (t, w)
      else do {
        (bmp, port) \<leftarrow> bitmap_find (n_bmp w);
        assertk (sint (ucast port :: u32) \<noteq> -1);
        Some (t\<lparr>tc_lport := ucast port\<rparr>, w\<lparr>n_bmp := bmp\<rparr>)
      })"

definition tcp_socket :: "net_t \<Rightarrow> nat \<times> net_t" where
  "tcp_socket w =
     (let i = length (n_tcbs w);
          t = (n_mem w)
            \<lparr>tc_nip := n_nip w, tc_lport := 0, tc_rport := 0, tc_laddr := 0, tc_raddr := 0, tc_mss := DEFMSS,
             tc_nagle := True, tc_state := CLOSED, tc_shutdown := 0, tc_errno := 0, tc_passive := False,
             tc_ptcp := None, tc_backlog := 0, tc_backcnt := 0, rx_waiter := None, syn_waiter := None,
             tc_pchd := [], tc_acpt := [], snd_que := [], una_que := [], buf_que := [],
             tmr_ack := None, tmr_wait := None\<rparr>
      in (i, w\<lparr>n_tcbs := n_tcbs w @ [t], n_common := n_common w @ [i]\<rparr>))"

text \<open>
  \<open>addr\<close> is the address and port of the argument, in network order, if there is one;
  \<open>known\<close> tells whether an interface has the address.
\<close>

definition tcp_bind :: "(ipv4_t \<Rightarrow> bool) \<Rightarrow> nat \<Rightarrow> (ipv4_t \<times> u16) option \<Rightarrow> net_t \<Rightarrow> (int \<times> net_t) option" where
  "tcp_bind known i addr w =
     (case addr of
        None \<Rightarrow> Some (- EDESTADDRREQ, w)
      | Some (ip, nport) \<Rightarrow> do {
          let port = ntohs nport;
          used \<leftarrow> (if port \<noteq> 0 then bitmap_test (n_bmp w) (ucast port) else Some False);
          if port \<noteq> 0 \<and> used then Some (- EADDRINUSE, w)
          else do {
            (t, w) \<leftarrow> (if port \<noteq> 0 then Some ((tcb i w)\<lparr>tc_lport := port\<rparr>, w) else ck_lport (tcb i w) w);
            if ip_addr_isany ip then Some (0, tcb_put i (t\<lparr>tc_laddr := n_nip w\<rparr>) w)
            else if \<not> known ip then Some (- EADDRNOTAVAIL, tcb_put i t w)
            else Some (0, tcb_put i (t\<lparr>tc_laddr := ip\<rparr>) w)
          }
        })"

definition tcp_listen :: "nat \<Rightarrow> int \<Rightarrow> net_t \<Rightarrow> net_t" where
  "tcp_listen i backlog w =
     (let w = tcb_put i ((tcb i w)\<lparr>tc_state := LISTEN, tc_backlog := backlog\<rparr>) w
      in w\<lparr>n_common := remove1 i (n_common w), n_listen := i # remove1 i (n_listen w)\<rparr>)"

text \<open>
  \<open>tcp_connect\<close> up to the point where task \<open>cur\<close> sleeps until the connection is made;
  the call then returns \<open>tc_errno\<close>.
\<close>

definition tcp_connect :: "task_ref \<Rightarrow> nat \<Rightarrow> ipv4_t \<Rightarrow> u16 \<Rightarrow> nat \<Rightarrow> net_t \<Rightarrow> (int option \<times> net_t) option" where
  "tcp_connect cur i ip nport len w =
     (let t = tcb i w in
      if tc_rport t \<noteq> 0 then Some (Some (- TCP_EINVAL), w)
      else if len < 16 then Some (Some (- TCP_EINVAL), w)
      else if nport = 0 then Some (Some (- TCP_EINVAL), w)
      else do {
        let t = t\<lparr>tc_raddr := ip, tc_rport := ntohs nport\<rparr>;
        (t, w) \<leftarrow> ck_lport t w;
        (t, w) \<leftarrow> tcp_tx_setup t w;
        assertk (syn_waiter t = None);
        Some (None, tcb_put i (t\<lparr>syn_waiter := Some cur\<rparr>) w)
      })"

text \<open>The loop of \<open>tcp_accept\<close>: the oldest connection of the queue that is established, or none.\<close>

fun tcp_accept_loop :: "net_t \<Rightarrow> nat list \<Rightarrow> nat option \<times> nat list" where
  "tcp_accept_loop w [] = (None, [])"
| "tcp_accept_loop w (c # cs) =
     (if tc_state (tcb c w) = ESTABLISHED then (Some c, cs) else tcp_accept_loop w cs)"

text \<open>
  \<open>makefd\<close> is the result of \<open>socket_makefd\<close>. The address that is returned to the caller
  is the one of the connection, with the remote port of the listening socket.
  \<open>None\<close> as the result means that task \<open>cur\<close> sleeps.
\<close>

definition tcp_accept ::
  "(nat \<Rightarrow> int) \<Rightarrow> task_ref \<Rightarrow> nat \<Rightarrow> bool \<Rightarrow> bool \<Rightarrow> net_t \<Rightarrow> ((int \<times> (ipv4_t \<times> u16) option) option \<times> net_t) option" where
  "tcp_accept makefd cur i addr len w = do {
     let t = tcb i w;
     let (c, rest) = tcp_accept_loop w (rev (tc_acpt t));
     let t = t\<lparr>tc_acpt := rev rest\<rparr>;
     case c of
       None \<Rightarrow> do {
         assertk (syn_waiter t = None);
         Some (None, tcb_put i (t\<lparr>syn_waiter := Some cur\<rparr>) w)
       }
     | Some conn \<Rightarrow>
         (if addr \<noteq> len then Some (Some (- TCP_EINVAL, None), tcb_put i t w)
          else do {
            let name = (if addr then Some (tc_raddr (tcb conn w), tc_rport t) else None);
            let fd = makefd conn;
            let t = (if fd < 0 then t\<lparr>tc_acpt := tc_acpt t @ [conn]\<rparr> else t\<lparr>tc_backcnt := tc_backcnt t - 1\<rparr>);
            Some (Some (fd, name), tcb_put i t w)
          })
   }"

definition tcp_shutdown :: "nat \<Rightarrow> int \<Rightarrow> net_t \<Rightarrow> int \<times> net_t" where
  "tcp_shutdown i how w =
     (let t = tcb i w in
      if how = SHUT_RD then (0, tcb_put i (t\<lparr>tc_shutdown := tc_shutdown t OR TCP_SHUT_RD\<rparr>) w)
      else if how = SHUT_WR then (0, tcb_put i (t\<lparr>tc_shutdown := tc_shutdown t OR TCP_SHUT_WR\<rparr>) w)
      else if how = SHUT_RDWR
      then (0, tcb_put i (t\<lparr>tc_shutdown := tc_shutdown t OR TCP_SHUT_RD OR TCP_SHUT_WR\<rparr>) w)
      else (- TCP_EINVAL, w))"

definition tcp_getsockname :: "nat \<Rightarrow> net_t \<Rightarrow> ipv4_t \<times> u16" where
  "tcp_getsockname i w = (tc_laddr (tcb i w), htons (tc_lport (tcb i w)))"

definition tcp_getpeername :: "nat \<Rightarrow> net_t \<Rightarrow> ipv4_t \<times> u16" where
  "tcp_getpeername i w = (tc_raddr (tcb i w), htons (tc_rport (tcb i w)))"

text \<open>
  With data still queued and Nagle's algorithm on, \<open>tcp_makeseg\<close> takes the queue head itself for a packet buffer. The
  field that it then reads as the length of the data in this buffer is 24 bytes before the queue head, at
  \<open>snd_iss\<close> and \<open>snd_una\<close>. Were it below the segment size, the data would be written over the
  control block, which stops the kernel here.
\<close>

definition stray_dlen :: "tcp_t \<Rightarrow> u64" where
  "stray_dlen t = ucast (snd_iss t) OR push_bit 32 (ucast (snd_una t))"

text \<open>A round that copies nothing would be repeated forever.\<close>

function tcp_makeseg :: "u8 list \<Rightarrow> tcp_t \<Rightarrow> net_t \<Rightarrow> (tcp_t \<times> net_t) option" where
  "tcp_makeseg data t w =
     (if data = [] then Some (t, w)
      else if tc_nagle t \<and> snd_que t \<noteq> [] \<and> stray_dlen t < of_nat (tc_mss t) then None
      else
        let (m, w) = tcp_mbuf w;
            cpy = min (length data) (tc_mss t);
            cpy = min cpy (unat (of_nat (tc_mss t) - mb_dlen m));
            (p, m) = mbuf_put cpy m
        in if cpy = 0 then None
           else case mb_write p (take cpy data) m of
               None \<Rightarrow> None
             | Some m \<Rightarrow> tcp_makeseg (drop cpy data) (t\<lparr>snd_que := snd_que t @ [m]\<rparr>) w)"
  by pat_completeness auto
termination
  by (relation "measure (\<lambda>(data, t, w). length data)") (auto simp: mbuf_put_def)

declare tcp_makeseg.simps [simp del]

definition tcp_sendmsg :: "nat \<Rightarrow> u8 list \<Rightarrow> net_t \<Rightarrow> (nat \<times> net_t) option" where
  "tcp_sendmsg i data w = do {
     (t, w) \<leftarrow> tcp_makeseg data (tcb i w) w;
     (t, w) \<leftarrow> tcp_do_xmit t w;
     Some (length data, tcb_put i t w)
   }"

text \<open>
  One round of \<open>tcp_recvmsg\<close> with \<open>rem\<close> bytes to go: the bytes it copies and whether the segment has the push flag.
\<close>

definition tcp_recv_round :: "nat \<Rightarrow> tcp_t \<Rightarrow> net_t \<Rightarrow> (u8 list \<times> bool \<times> tcp_t \<times> net_t) option" where
  "tcp_recv_round rem t w = do {
     assertk (buf_que t \<noteq> []);
     let m = hd (buf_que t);
     m \<leftarrow> mbuf_pull IPHDR_SIZ m;
     b \<leftarrow> mb_read (mb_head m) TCPHDR_SIZ m;
     m \<leftarrow> mbuf_pull TCPHDR_SIZ m;
     let psh = (h_flgs (tcphdr_load b) AND TCP_F_PSH \<noteq> 0);
     let cpy = min rem (unat (mb_len m));
     d \<leftarrow> mb_read (mb_head m) cpy m;
     let m = m\<lparr>mb_len := mb_len m - of_nat cpy, mb_head := mb_head m + cpy\<rparr>;
     Some (if mb_len m = 0
           then (d, psh, t\<lparr>buf_que := tl (buf_que t)\<rparr>, w\<lparr>n_free := mbuf_free m (n_free w)\<rparr>)
           else (d, psh, t\<lparr>buf_que := m # tl (buf_que t)\<rparr>, w))
   }"

datatype recv_result = RecvErr int | RecvData "u8 list" | RecvSleeps "u8 list"

text \<open>The loop ends with a push flag; \<open>fuel\<close> bounds its rounds.\<close>

fun tcp_recv_loop :: "nat \<Rightarrow> task_ref \<Rightarrow> nat \<Rightarrow> u8 list \<Rightarrow> tcp_t \<Rightarrow> net_t \<Rightarrow> (recv_result \<times> tcp_t \<times> net_t) option" where
  "tcp_recv_loop 0 cur rem got t w = None"
| "tcp_recv_loop (Suc fuel) cur rem got t w =
     (if buf_que t = [] then do { assertk (rx_waiter t = None); Some (RecvSleeps got, t\<lparr>rx_waiter := Some cur\<rparr>, w) }
      else if tc_errno t < 0 then Some (RecvErr (tc_errno t), t, w)
      else do {
        (d, psh, t, w) \<leftarrow> tcp_recv_round rem t w;
        if psh then Some (RecvData (got @ d), t, w)
        else tcp_recv_loop fuel cur (rem - length d) (got @ d) t w
      })"

definition tcp_recvmsg :: "nat \<Rightarrow> task_ref \<Rightarrow> nat \<Rightarrow> nat \<Rightarrow> net_t \<Rightarrow> (recv_result \<times> net_t) option" where
  "tcp_recvmsg fuel cur i len w =
     (if len = 0 then Some (RecvData [], w)
      else do {
        (r, t, w) \<leftarrow> tcp_recv_loop fuel cur len [] (tcb i w) w;
        Some (r, tcb_put i t w)
      })"

section \<open>Receiving segments\<close>

text \<open>
  The handlers get the control block \<open>t\<close> of socket \<open>i\<close> and return it; the caller stores it.
\<close>

definition tcp_release :: "nat \<Rightarrow> tcp_t \<Rightarrow> net_t \<Rightarrow> net_t option" where
  "tcp_release i t w = do {
     bmp \<leftarrow> bitmap_reset (n_bmp w) (ucast (tc_lport t));
     Some (w\<lparr>n_common := remove1 i (n_common w), n_bmp := bmp\<rparr>)
   }"

definition tcp_rx_sent :: "tcpseg_t \<Rightarrow> tcp_t \<Rightarrow> net_t \<Rightarrow> (tcp_t \<times> net_t) option" where
  "tcp_rx_sent g t w =
     (let hdr = sg_hdr g in
      if hd_ack g \<and> h_acknr hdr \<noteq> snd_nxt t then do { w \<leftarrow> tcp_tx_reset g w; Some (t, w) }
      else do {
        let (t, w) = (if hd_rst g \<and> hd_ack g then tcp_exit_with (- ECONNRESET) (t\<lparr>tc_state := CLOSED\<rparr>) w else (t, w));
        if hd_syn g then do {
          let t = t\<lparr>rcv_irs := sg_seqnr g, rcv_nxt := sg_seqnr g + 1\<rparr>;
          let t = (if hd_ack g then t\<lparr>snd_una := h_acknr hdr\<rparr> else t);
          if sint (snd_una t - snd_iss t) > 0 then do {
            let t = t\<lparr>tc_state := ESTABLISHED\<rparr>;
            w \<leftarrow> tcp_tx_ack t w;
            Some (t\<lparr>syn_waiter := None\<rparr>, try_unblk (syn_waiter t) w)
          }
          else do {
            let t = t\<lparr>tc_state := SYN_RCVD\<rparr>;
            w \<leftarrow> tcp_tx_ack t w;
            Some (t, w)
          }
        }
        else Some (t, w)
      })"

text \<open>A passive connection that is reset leaves the list of its parent and the list of sockets.\<close>

definition tcp_unlink :: "nat \<Rightarrow> tcp_t \<Rightarrow> net_t \<Rightarrow> net_t" where
  "tcp_unlink i t w =
     (let w = (case tc_ptcp t of
                 None \<Rightarrow> w
               | Some p \<Rightarrow> tcb_put p ((tcb p w)\<lparr>tc_pchd := remove1 i (tc_pchd (tcb p w))\<rparr>) w)
      in w\<lparr>n_common := remove1 i (n_common w)\<rparr>)"

definition tcp_rx_rcvd :: "nat \<Rightarrow> tcpseg_t \<Rightarrow> tcp_t \<Rightarrow> net_t \<Rightarrow> (tcp_t \<times> net_t) option" where
  "tcp_rx_rcvd i g t w =
     (if hd_rst g then
        Some (if tc_passive t then (t, tcp_unlink i t w) else tcp_exit_with (- ECONNREFUSED) t w)
      else if hd_syn g \<and> tc_passive t then Some (t, tcp_unlink i t w)
      else if hd_ack g then
        (if TCP_SEQ_LT (snd_una t) (h_acknr (sg_hdr g)) \<and> TCP_SEQ_LE (h_acknr (sg_hdr g)) (snd_nxt t) then
           let t = t\<lparr>tc_state := ESTABLISHED\<rparr> in
           (case tc_ptcp t of
              Some p \<Rightarrow>
                let prt = tcb p w;
                    w = tcb_put p (prt\<lparr>tc_acpt := i # tc_acpt prt, syn_waiter := None\<rparr>) w
                in Some (t, try_unblk (syn_waiter prt) w)
            | None \<Rightarrow> Some (t\<lparr>syn_waiter := None\<rparr>, try_unblk (syn_waiter t) w))
         else do { w \<leftarrow> tcp_tx_reset g w; Some (t, w) })
      else Some (t, w))"

definition tcp_rx_data :: "tcpseg_t \<Rightarrow> tcp_t \<Rightarrow> net_t \<Rightarrow> (tcp_t \<times> net_t) option" where
  "tcp_rx_data g t w =
     (if rcv_nxt t < sg_seqnr g then do { w \<leftarrow> tcp_tx_ack t w; Some (t, w) }
      else if rcv_nxt t > sg_seqnr g then Some (t, w)
      else if sg_seqlen g = 0 then Some (t, w)
      else do {
        let t = tcp_tx_dly t w;
        let t = t\<lparr>rcv_nxt := rcv_nxt t + sg_seqlen g\<rparr>;
        if mb_len (sg_buf g) = 0 then Some (t, w)
        else do {
          m \<leftarrow> mbuf_push TCPHDR_SIZ (sg_buf g);
          m \<leftarrow> mbuf_push IPHDR_SIZ m;
          Some (t\<lparr>buf_que := buf_que t @ [m], rx_waiter := None\<rparr>, try_unblk (rx_waiter t) w)
        }
      })"

text \<open>
  \<open>tcp_rx_listen\<close> makes a control block for the connection; it is number \<open>length (n_tcbs w)\<close>.
\<close>

definition tcp_rx_listen :: "nat \<Rightarrow> tcpseg_t \<Rightarrow> tcp_t \<Rightarrow> net_t \<Rightarrow> (tcp_t \<times> net_t) option" where
  "tcp_rx_listen i g t w =
     (if hd_rst g then Some (t, w)
      else if hd_ack g then do { w \<leftarrow> tcp_tx_reset g w; Some (t, w) }
      else if hd_syn g then do {
        (t, w) \<leftarrow> (if tc_backcnt t + 1 = tc_backlog t then Some (t\<lparr>tc_backcnt := tc_backcnt t + 1\<rparr>, w)
                   else do { w \<leftarrow> tcp_tx_reset g w; Some (t, w) });
        let c = length (n_tcbs w);
        let conn = (n_mem w)
          \<lparr>tc_laddr := tc_laddr t, tc_raddr := sg_sip g, tc_nip := tc_nip t, tc_lport := tc_lport t,
           tc_rport := h_sport (sg_hdr g), tc_mss := tc_mss t, tc_nagle := True, tc_passive := True,
           tc_ptcp := Some i, tc_state := LISTEN, tc_shutdown := 0, tc_errno := 0,
           snd_que := [], una_que := [], buf_que := [], tmr_ack := None, rx_waiter := None, syn_waiter := None,
           rcv_nxt := sg_seqnr g + 1, rcv_irs := sg_seqnr g\<rparr>;
        let t = t\<lparr>tc_pchd := c # tc_pchd t\<rparr>;
        let w = w\<lparr>n_common := c # n_common w\<rparr>;
        (conn, w) \<leftarrow> tcp_tx_agree conn w;
        Some (t, w\<lparr>n_tcbs := n_tcbs w @ [conn]\<rparr>)
      }
      else Some (t, w))"

definition tcp_rx_established :: "tcpseg_t \<Rightarrow> tcp_t \<Rightarrow> net_t \<Rightarrow> (tcp_t \<times> net_t) option" where
  "tcp_rx_established g t w =
     (if hd_rst g then Some (tcp_exit_with (- ECONNREFUSED) t w)
      else if hd_syn g then do { w \<leftarrow> tcp_tx_ack t w; Some (t, w) }
      else do {
        (t, w) \<leftarrow> (if hd_ack g then tcp_x_ack g t w else Some (t, w));
        assertk (\<not> hd_urg g);
        (t, w) \<leftarrow> tcp_rx_data g t w;
        Some (if hd_fin g then t\<lparr>tc_state := CLOSE_WAIT\<rparr> else t, w)
      })"

definition tcp_rx_closewait :: "tcpseg_t \<Rightarrow> tcp_t \<Rightarrow> net_t \<Rightarrow> (tcp_t \<times> net_t) option" where
  "tcp_rx_closewait g t w = do {
     let (t, w) = (if hd_rst g then tcp_exit_with (- ECONNRESET) t w else (t, w));
     if hd_syn g then do { w \<leftarrow> tcp_tx_ack t w; Some (t, w) }
     else do {
       (t, w) \<leftarrow> (if hd_ack g then tcp_x_ack g t w else Some (t, w));
       assertk (\<not> hd_urg g);
       Some (t, w)
     }
   }"

definition tcp_rx_lastack :: "nat \<Rightarrow> tcpseg_t \<Rightarrow> tcp_t \<Rightarrow> net_t \<Rightarrow> (tcp_t \<times> net_t) option" where
  "tcp_rx_lastack i g t w = do {
     (t, w) \<leftarrow> (if hd_rst g then do { w \<leftarrow> tcp_release i t w; Some (t\<lparr>tc_state := CLOSED\<rparr>, w) } else Some (t, w));
     if hd_syn g then do { w \<leftarrow> tcp_tx_ack t w; Some (t, w) }
     else do {
       let t = (if hd_ack g then t\<lparr>tc_state := CLOSED\<rparr> else t);
       assertk (\<not> hd_urg g);
       Some (t, w)
     }
   }"

definition tcp_do_timewait :: "tcp_t \<Rightarrow> net_t \<Rightarrow> tcp_t" where
  "tcp_do_timewait t w = t\<lparr>tmr_wait := Some (n_tick w + TCP_MSL * 1000)\<rparr>"

text \<open>What the timer of \<open>TIME_WAIT\<close> does when it fires.\<close>

definition tcp_tmr_timewait :: "nat \<Rightarrow> net_t \<Rightarrow> net_t option" where
  "tcp_tmr_timewait i w = do {
     let w = tcb_put i ((tcb i w)\<lparr>tmr_wait := None\<rparr>) w;
     tcp_release i (tcb i w) w
   }"

definition tcp_rx_finwait :: "tcpseg_t \<Rightarrow> tcp_t \<Rightarrow> net_t \<Rightarrow> (tcp_t \<times> net_t) option" where
  "tcp_rx_finwait g t w =
     (if hd_rst g then Some (tcp_exit_with (- ECONNREFUSED) t w)
      else if hd_syn g then do { w \<leftarrow> tcp_tx_ack t w; Some (t, w) }
      else do {
        let t = (if hd_ack g \<and> h_acknr (sg_hdr g) = snd_nxt t \<and> tc_state t = FIN_WAIT1
                 then t\<lparr>tc_state := FIN_WAIT2\<rparr> else t);
        assertk (\<not> hd_urg g);
        (t, w) \<leftarrow> tcp_rx_data g t w;
        Some (if hd_fin g
              then t\<lparr>tc_state := (case tc_state t of FIN_WAIT1 \<Rightarrow> CLOSING | FIN_WAIT2 \<Rightarrow> TIME_WAIT | s \<Rightarrow> s)\<rparr>
              else t, w)
      })"

definition tcp_rx_closing :: "nat \<Rightarrow> tcpseg_t \<Rightarrow> tcp_t \<Rightarrow> net_t \<Rightarrow> (tcp_t \<times> net_t) option" where
  "tcp_rx_closing i g t w = do {
     (t, w) \<leftarrow> (if hd_rst g then do { w \<leftarrow> tcp_release i t w; Some (t\<lparr>tc_state := CLOSED\<rparr>, w) } else Some (t, w));
     if hd_syn g then do { w \<leftarrow> tcp_tx_ack t w; Some (t, w) }
     else do {
       let t = (if hd_ack g then tcp_do_timewait (t\<lparr>tc_state := TIME_WAIT\<rparr>) w else t);
       assertk (\<not> hd_urg g);
       Some (t, w)
     }
   }"

definition tcp_rx_timewait :: "nat \<Rightarrow> tcpseg_t \<Rightarrow> tcp_t \<Rightarrow> net_t \<Rightarrow> (tcp_t \<times> net_t) option" where
  "tcp_rx_timewait i g t w = do {
     (t, w) \<leftarrow> (if hd_rst g then do { w \<leftarrow> tcp_release i t w; Some (t\<lparr>tc_state := CLOSED\<rparr>, w) } else Some (t, w));
     if hd_syn g then do { w \<leftarrow> tcp_tx_ack t w; Some (t, w) }
     else do {
       (t, w) \<leftarrow> (if hd_ack g then do { w \<leftarrow> tcp_tx_ack t w; Some (tcp_do_timewait t w, w) } else Some (t, w));
       assertk (\<not> hd_urg g);
       Some (if hd_fin g then tcp_do_timewait t w else t, w)
     }
   }"

definition find_tcb :: "iphdr_t \<Rightarrow> tcphdr_t \<Rightarrow> net_t \<Rightarrow> nat option" where
  "find_tcb ip hdr w =
     (case find (\<lambda>i. let t = tcb i w in
              ip_addr_cmp (tc_raddr t) (i_sip ip)
              \<and> (ip_addr_isany (tc_laddr t) \<or> ip_addr_cmp (tc_laddr t) (i_dip ip))
              \<and> tc_rport t = h_sport hdr \<and> tc_lport t = h_dport hdr) (n_common w) of
        Some i \<Rightarrow> Some i
      | None \<Rightarrow>
          find (\<lambda>i. let t = tcb i w in
              (ip_addr_isany (tc_laddr t) \<or> ip_addr_cmp (tc_laddr t) (i_dip ip))
              \<and> tc_lport t = h_dport hdr) (n_listen w))"

text \<open>The switch over the state of the socket.\<close>

definition tcp_rx_switch :: "nat \<Rightarrow> tcpseg_t \<Rightarrow> tcp_t \<Rightarrow> net_t \<Rightarrow> (tcp_t \<times> net_t) option" where
  "tcp_rx_switch i g t w =
     (case tc_state t of
        SYN_SENT \<Rightarrow> tcp_rx_sent g t w
      | SYN_RCVD \<Rightarrow> tcp_rx_rcvd i g t w
      | LISTEN \<Rightarrow> tcp_rx_listen i g t w
      | ESTABLISHED \<Rightarrow> tcp_rx_established g t w
      | CLOSE_WAIT \<Rightarrow> tcp_rx_closewait g t w
      | LAST_ACK \<Rightarrow> tcp_rx_lastack i g t w
      | FIN_WAIT1 \<Rightarrow> tcp_rx_finwait g t w
      | FIN_WAIT2 \<Rightarrow> tcp_rx_finwait g t w
      | CLOSING \<Rightarrow> tcp_rx_closing i g t w
      | TIME_WAIT \<Rightarrow> tcp_rx_timewait i g t w
      | CLOSED \<Rightarrow> do { w \<leftarrow> tcp_tx_reset g w; Some (t, w) })"

definition tcp_rx_state :: "nat \<Rightarrow> tcpseg_t \<Rightarrow> net_t \<Rightarrow> net_t option" where
  "tcp_rx_state i g w = do {
     (t, w) \<leftarrow> tcp_rx_switch i g (tcb i w) w;
     Some (tcb_put i t w)
   }"

definition sock_rx_tcp :: "ipv4_t \<Rightarrow> iphdr_t \<Rightarrow> mbuf_t \<Rightarrow> net_t \<Rightarrow> net_t option" where
  "sock_rx_tcp nip ip m w = do {
     r \<leftarrow> tcp_rx_hdr ip m;
     case r of
       None \<Rightarrow> Some w
     | Some (hdr, m) \<Rightarrow>
         let g = \<lparr>sg_seqnr = h_seqnr hdr,
                  sg_seqlen = ucast (mb_len m) + of_bool (bit (h_flgs hdr) 1) + of_bool (bit (h_flgs hdr) 0),
                  sg_sip = i_sip ip, sg_dip = i_dip ip, sg_nip = nip,
                  sg_buf = m\<lparr>mb_id := ucast (h_seqnr hdr)\<rparr>, sg_hdr = hdr\<rparr>
         in case find_tcb ip hdr w of
              None \<Rightarrow> tcp_tx_reset g w
            | Some i \<Rightarrow> tcp_rx_state i g w
   }"

text \<open>A host gets a packet from its interface; packets that are not for TCP are left out.\<close>

definition host_rx :: "mbuf_t \<Rightarrow> net_t \<Rightarrow> net_t option" where
  "host_rx m w = do {
     r \<leftarrow> net_rx_ip (n_nip w) m;
     case r of RxTcp ip m \<Rightarrow> sock_rx_tcp (n_nip w) ip m w | _ \<Rightarrow> Some w
   }"

definition sock_tcp_init :: "bitmap_t \<Rightarrow> bitmap_t option" where
  "sock_tcp_init bmp = bitmap_set bmp 0"

end
