(* ===== verification/Net_Tcp_Rx.thy ===== *)
theory Net_Tcp_Rx
  imports Net_Tcp
begin

text \<open>
  What a TCP socket receives: the effect of the functions that send a segment as a change of the
  buffer pool and the list of packets sent, and the data in the receive queue as a prefix
  of the stream of the peer.
\<close>

section \<open>Effects of sending\<close>

definition host_ok :: "net_t \<Rightarrow> bool" where
  "host_ok w \<longleftrightarrow> pool_ok (n_free w) \<and> length (n_page w) = MBUF_SIZE \<and> bm_bits (n_bmp w) = 65536"

definition sends :: "net_t \<Rightarrow> u8 list list \<Rightarrow> net_t \<Rightarrow> bool" where
  "sends w ps w' \<longleftrightarrow> (\<exists>l. pool_ok l \<and> w' = w\<lparr>n_free := l, n_out := n_out w @ ps\<rparr>)"

lemma sends_refl [simp]: "host_ok w \<Longrightarrow> sends w [] w"
  unfolding sends_def by (intro exI [of _ "n_free w"]) (simp add: host_ok_def)

lemma sends_trans: "sends w ps w1 \<Longrightarrow> sends w1 qs w2 \<Longrightarrow> sends w (ps @ qs) w2"
  unfolding sends_def by auto

lemma sends_host: "sends w ps w' \<Longrightarrow> host_ok w \<Longrightarrow> host_ok w'"
  by (auto simp: sends_def host_ok_def)

lemma sends_fields:
  "sends w ps w' \<Longrightarrow> n_tcbs w' = n_tcbs w \<and> n_common w' = n_common w \<and> n_listen w' = n_listen w \<and> n_bmp w' = n_bmp w
     \<and> n_nip w' = n_nip w \<and> n_tick w' = n_tick w \<and> n_woken w' = n_woken w \<and> n_mem w' = n_mem w \<and> n_out w' = n_out w @ ps"
  by (auto simp: sends_def)

lemma tcp_emit_sends:
  assumes "host_ok w" "mb_ok m" "40 \<le> mb_head m"
  shows "\<exists>m' w' p. tcp_emit nip dip sport dport seqnr acknr flgs window m w = Some (m', w') \<and> sends w [p] w'
    \<and> is_packet nip dip sport dport seqnr acknr flgs (mb_bytes m) p \<and> mb_dlen m' = mb_dlen m \<and> mb_id m' = mb_id m"
proof -
  obtain m' where "net_tx_tcp nip dip sport dport seqnr acknr flgs window 0 m = Some m'"
    "is_packet nip dip sport dport seqnr acknr flgs (mb_bytes m) (mb_bytes m')" "mb_dlen m' = mb_dlen m" "mb_id m' = mb_id m"
    using net_tx_tcp_packet [OF assms(2,3)] by blast
  then show ?thesis
    using assms(1) by (auto simp: tcp_emit_def sends_def host_ok_def intro!: exI [of _ "n_free w"])
qed

lemma tcp_mbuf_ok:
  assumes "host_ok w"
  obtains m w' where "tcp_mbuf w = (m, w')" "sends w [] w'" "mb_ok m" "mb_head m = 128" "mb_len m = 0" "mb_dlen m = 0" "mb_bytes m = []"
proof -
  obtain m l where m: "mbuf_alloc (n_page w) MBUF_DEFROOM (n_free w) = (m, l)" by fastforce
  have w: "pool_ok (n_free w)" "length (n_page w) = MBUF_SIZE" using assms by (simp_all add: host_ok_def)
  have r: "MBUF_DEFROOM \<le> MBUF_SIZE" by (simp add: MBUF_DEFROOM_def MBUF_SIZE_def)
  note ok = mbuf_alloc_ok [OF w r m]
  have "tcp_mbuf w = (m, w\<lparr>n_free := l\<rparr>)" using m by (simp add: tcp_mbuf_def)
  moreover have "sends w [] (w\<lparr>n_free := l\<rparr>)" using ok(1) by (auto simp: sends_def)
  ultimately show thesis using that ok by (simp add: MBUF_DEFROOM_def)
qed

text \<open>A segment without data in a new buffer.\<close>

lemma tcp_control_sends:
  assumes "host_ok w"
  obtains m w1 m' w' p where "tcp_mbuf w = (m, w1)"
    "tcp_emit nip dip sport dport seqnr acknr flgs window m w1 = Some (m', w')" "sends w [p] w'"
    "is_packet nip dip sport dport seqnr acknr flgs [] p"
proof -
  obtain m w1 where m: "tcp_mbuf w = (m, w1)" "sends w [] w1" "mb_ok m" "mb_head m = 128" "mb_bytes m = []"
    using tcp_mbuf_ok [OF assms] by metis
  have "40 \<le> mb_head m" using m(4) by simp
  then obtain m' w' p where "tcp_emit nip dip sport dport seqnr acknr flgs window m w1 = Some (m', w')" "sends w1 [p] w'"
    "is_packet nip dip sport dport seqnr acknr flgs [] p"
    using tcp_emit_sends [OF sends_host [OF m(2) assms] m(3)] m(5) by metis
  then show thesis using that m sends_trans [of w "[]" w1 "[p]" w'] by simp
qed

lemma tcp_tx_ack_sends:
  assumes "host_ok w"
  shows "\<exists>w' p. tcp_tx_ack t w = Some w' \<and> sends w [p] w'
    \<and> is_packet (tc_nip t) (tc_raddr t) (tc_lport t) (tc_rport t)
        (if tc_state t = SYN_RCVD then snd_iss t else snd_nxt t) (rcv_nxt t)
        (if tc_state t = SYN_RCVD then TCP_F_ACK OR TCP_F_SYN else TCP_F_ACK) [] p"
proof -
  obtain m w1 m' w' p where "tcp_mbuf w = (m, w1)"
    "tcp_emit (tc_nip t) (tc_raddr t) (tc_lport t) (tc_rport t) (if tc_state t = SYN_RCVD then snd_iss t else snd_nxt t)
      (rcv_nxt t) (if tc_state t = SYN_RCVD then TCP_F_ACK OR TCP_F_SYN else TCP_F_ACK) TCP_WINDOW m w1 = Some (m', w')"
    "sends w [p] w'"
    "is_packet (tc_nip t) (tc_raddr t) (tc_lport t) (tc_rport t)
        (if tc_state t = SYN_RCVD then snd_iss t else snd_nxt t) (rcv_nxt t)
        (if tc_state t = SYN_RCVD then TCP_F_ACK OR TCP_F_SYN else TCP_F_ACK) [] p"
    by (rule tcp_control_sends [OF assms])
  then show ?thesis by (auto simp: tcp_tx_ack_def split: if_splits)
qed

lemma tcp_tx_reset_sends:
  assumes "host_ok w"
  shows "\<exists>w' p. tcp_tx_reset g w = Some w' \<and> sends w [p] w'
    \<and> (if hd_ack g then is_packet (sg_nip g) (sg_sip g) (h_dport (sg_hdr g)) (h_sport (sg_hdr g)) (h_acknr (sg_hdr g)) 0 TCP_F_RST [] p
       else is_packet (sg_nip g) (sg_sip g) (h_dport (sg_hdr g)) (h_sport (sg_hdr g)) 0 (sg_seqnr g + sg_seqlen g)
         (TCP_F_RST OR TCP_F_ACK) [] p)"
proof (cases "hd_ack g")
  case True
  obtain m w1 m' w' p where "tcp_mbuf w = (m, w1)"
    "tcp_emit (sg_nip g) (sg_sip g) (h_dport (sg_hdr g)) (h_sport (sg_hdr g)) (h_acknr (sg_hdr g)) 0 TCP_F_RST 0 m w1 = Some (m', w')"
    "sends w [p] w'"
    "is_packet (sg_nip g) (sg_sip g) (h_dport (sg_hdr g)) (h_sport (sg_hdr g)) (h_acknr (sg_hdr g)) 0 TCP_F_RST [] p"
    by (rule tcp_control_sends [OF assms])
  then show ?thesis using True by (auto simp: tcp_tx_reset_def)
next
  case False
  obtain m w1 m' w' p where "tcp_mbuf w = (m, w1)"
    "tcp_emit (sg_nip g) (sg_sip g) (h_dport (sg_hdr g)) (h_sport (sg_hdr g)) 0 (sg_seqnr g + sg_seqlen g)
       (TCP_F_RST OR TCP_F_ACK) 0 m w1 = Some (m', w')"
    "sends w [p] w'"
    "is_packet (sg_nip g) (sg_sip g) (h_dport (sg_hdr g)) (h_sport (sg_hdr g)) 0 (sg_seqnr g + sg_seqlen g)
         (TCP_F_RST OR TCP_F_ACK) [] p"
    by (rule tcp_control_sends [OF assms])
  then show ?thesis using False by (auto simp: tcp_tx_reset_def)
qed

lemma tcp_tx_fin_sends:
  assumes "host_ok w"
  shows "\<exists>w' p. tcp_tx_fin t w = Some (t\<lparr>snd_nxt := snd_nxt t + 1\<rparr>, w') \<and> sends w [p] w'
    \<and> is_packet (tc_nip t) (tc_raddr t) (tc_lport t) (tc_rport t) (snd_nxt t) (rcv_nxt t) (TCP_F_ACK OR TCP_F_FIN) [] p"
proof -
  obtain m w1 m' w' p where "tcp_mbuf w = (m, w1)"
    "tcp_emit (tc_nip t) (tc_raddr t) (tc_lport t) (tc_rport t) (snd_nxt t) (rcv_nxt t) (TCP_F_ACK OR TCP_F_FIN) TCP_WINDOW m w1
       = Some (m', w')" "sends w [p] w'"
    "is_packet (tc_nip t) (tc_raddr t) (tc_lport t) (tc_rport t) (snd_nxt t) (rcv_nxt t) (TCP_F_ACK OR TCP_F_FIN) [] p"
    by (rule tcp_control_sends [OF assms])
  then show ?thesis by (auto simp: tcp_tx_fin_def)
qed

text \<open>The queue of segments to send: each has room for the headers.\<close>

definition que_ok :: "mbuf_t list \<Rightarrow> bool" where
  "que_ok ms \<longleftrightarrow> (\<forall>m\<in>set ms. mb_ok m \<and> 40 \<le> mb_head m)"

text \<open>All fields that sending leaves alone.\<close>

definition tx_same :: "tcp_t \<Rightarrow> tcp_t \<Rightarrow> bool" where
  "tx_same t t' \<longleftrightarrow>
     tc_nip t' = tc_nip t \<and> tc_laddr t' = tc_laddr t \<and> tc_raddr t' = tc_raddr t
     \<and> tc_lport t' = tc_lport t \<and> tc_rport t' = tc_rport t \<and> tc_mss t' = tc_mss t
     \<and> tc_nagle t' = tc_nagle t \<and> tc_shutdown t' = tc_shutdown t \<and> tc_errno t' = tc_errno t
     \<and> tc_passive t' = tc_passive t \<and> tc_ptcp t' = tc_ptcp t \<and> tc_pchd t' = tc_pchd t
     \<and> tc_acpt t' = tc_acpt t \<and> tc_backlog t' = tc_backlog t \<and> tc_backcnt t' = tc_backcnt t
     \<and> snd_iss t' = snd_iss t \<and> buf_que t' = buf_que t \<and> tmr_wait t' = tmr_wait t
     \<and> rcv_nxt t' = rcv_nxt t \<and> rcv_irs t' = rcv_irs t \<and> rx_waiter t' = rx_waiter t
     \<and> syn_waiter t' = syn_waiter t"

lemma tx_same_refl [simp]: "tx_same t t"
  by (simp add: tx_same_def)

lemma tx_same_trans: "tx_same t t1 \<Longrightarrow> tx_same t1 t2 \<Longrightarrow> tx_same t t2"
  by (simp add: tx_same_def)

definition tx_change :: "tcp_t \<Rightarrow> tcp_t \<Rightarrow> bool" where
  "tx_change t t' \<longleftrightarrow> tx_same t t' \<and> (que_ok (snd_que t) \<longrightarrow> que_ok (snd_que t'))
     \<and> (tc_state t' = tc_state t \<or> tc_state t = ESTABLISHED \<and> tc_state t' = FIN_WAIT1
        \<or> tc_state t = CLOSE_WAIT \<and> tc_state t' = LAST_ACK)"

lemma tx_change_refl [simp]: "tx_change t t"
  by (simp add: tx_change_def)

lemma tcp_tx_seg_sends:
  assumes "host_ok w" "mb_ok m" "40 \<le> mb_head m"
  shows "\<exists>m' w' p. tcp_tx_seg m t w = Some (m', t\<lparr>snd_nxt := snd_nxt t + ucast (mb_dlen m)\<rparr>, w') \<and> sends w [p] w'
    \<and> is_packet (tc_nip t) (tc_raddr t) (tc_lport t) (tc_rport t) (snd_nxt t) (rcv_nxt t) TCP_F_ACK (mb_bytes m) p
    \<and> mb_dlen m' = mb_dlen m \<and> mb_id m' = ucast (snd_nxt t)"
proof -
  let ?m = "m\<lparr>mb_id := ucast (snd_nxt t)\<rparr>"
  have m: "mb_ok ?m" "40 \<le> mb_head ?m" "mb_bytes ?m = mb_bytes m" using assms by (simp_all add: mb_ok_def mb_bytes_def)
  obtain m1 w1 p where "tcp_emit (tc_nip t) (tc_raddr t) (tc_lport t) (tc_rport t) (snd_nxt t) (rcv_nxt t) TCP_F_ACK TCP_WINDOW
      ?m w = Some (m1, w1)" "sends w [p] w1" "mb_dlen m1 = mb_dlen m" "mb_id m1 = ucast (snd_nxt t)"
      "is_packet (tc_nip t) (tc_raddr t) (tc_lport t) (tc_rport t) (snd_nxt t) (rcv_nxt t) TCP_F_ACK (mb_bytes m) p"
    using tcp_emit_sends [OF assms(1) m(1,2)] m(3) by fastforce
  then show ?thesis by (auto simp: tcp_tx_seg_def Let_def)
qed

lemma tcp_xmit_loop_sends:
  "host_ok w \<Longrightarrow> que_ok ms \<Longrightarrow> \<exists>t' w' ps. tcp_xmit_loop ms t w = Some (t', w') \<and> tx_same t t' \<and> tc_state t' = tc_state t
     \<and> sends w ps w' \<and> que_ok (snd_que t')"
proof (induction ms arbitrary: t w)
  case Nil
  then show ?case by (auto simp: que_ok_def tx_same_def intro!: exI [of _ "[]"])
next
  case (Cons m ms)
  have m: "mb_ok m" "40 \<le> mb_head m" "que_ok ms" using Cons.prems(2) by (simp_all add: que_ok_def)
  let ?t = "t\<lparr>snd_que := ms, snd_nxt := snd_nxt t + ucast (mb_dlen m)\<rparr>"
  obtain m1 w1 p where m1: "tcp_tx_seg m (t\<lparr>snd_que := ms\<rparr>) w = Some (m1, ?t, w1)" "sends w [p] w1" "mb_dlen m1 = mb_dlen m"
    using tcp_tx_seg_sends [OF Cons.prems(1) m(1,2), of "t\<lparr>snd_que := ms\<rparr>"] by auto
  let ?t1 = "?t\<lparr>una_que := una_que t @ [m1]\<rparr>"
  have same: "tx_same t ?t1" "tc_state ?t1 = tc_state t" by (simp_all add: tx_same_def)
  show ?case
  proof (cases "tc_nagle t \<and> mb_dlen m \<noteq> 0")
    case True
    then have "tcp_xmit_loop (m # ms) t w = Some (?t1, w1)" using m1(1,3) by simp
    then show ?thesis using m1(2) m(3) same by auto
  next
    case False
    then have l: "tcp_xmit_loop (m # ms) t w = tcp_xmit_loop ms ?t1 w1" using m1(1,3) by auto
    have "host_ok w1" using Cons.prems m1(2) sends_host by blast
    from Cons.IH [OF this m(3), of ?t1] obtain t' w' ps where
      "tcp_xmit_loop ms ?t1 w1 = Some (t', w')" "tx_same ?t1 t'" "tc_state t' = tc_state ?t1" "sends w1 ps w'" "que_ok (snd_que t')"
      by blast
    then show ?thesis using l sends_trans [OF m1(2)] tx_same_trans [OF same(1)] same(2) by metis
  qed
qed

lemma tcp_do_xmit_sends:
  assumes "host_ok w" "que_ok (snd_que t)"
  shows "\<exists>t' w' ps. tcp_do_xmit t w = Some (t', w') \<and> tx_change t t' \<and> sends w ps w'"
proof (cases "tc_nagle t \<and> snd_una t < snd_nxt t - 1")
  case True
  then show ?thesis using assms by (auto simp: tcp_do_xmit_def intro!: exI [of _ "[]"])
next
  case False
  obtain t1 w1 ps where l: "tcp_xmit_loop (snd_que t) (tcp_rm_dly t) w = Some (t1, w1)" "tx_same (tcp_rm_dly t) t1"
    "tc_state t1 = tc_state t" "sends w ps w1" "que_ok (snd_que t1)"
    using tcp_xmit_loop_sends [OF assms, of "tcp_rm_dly t"] by (auto simp: tcp_rm_dly_def)
  have "tx_same t (tcp_rm_dly t)" by (simp add: tcp_rm_dly_def tx_same_def)
  then have same: "tx_same t t1" using l(2) by (rule tx_same_trans)
  let ?fin = "tc_shutdown t1 AND TCP_SHUT_WR \<noteq> 0 \<and> snd_que t1 = [] \<and> una_que t1 = []"
  let ?t2 = "t1\<lparr>tc_state := (case tc_state t1 of ESTABLISHED \<Rightarrow> FIN_WAIT1 | CLOSE_WAIT \<Rightarrow> LAST_ACK | s \<Rightarrow> s), tmr_ack := None\<rparr>"
  obtain w2 p where f: "tcp_tx_fin ?t2 w1 = Some (?t2\<lparr>snd_nxt := snd_nxt t1 + 1\<rparr>, w2)" "sends w1 [p] w2"
    using tcp_tx_fin_sends [OF sends_host [OF l(4) assms(1)], of ?t2] by auto
  show ?thesis
  proof (cases ?fin)
    case True
    then have "tcp_do_xmit t w = Some (?t2\<lparr>snd_nxt := snd_nxt t1 + 1\<rparr>, w2)"
      using l(1) f(1) False by (auto simp: tcp_do_xmit_def tcp_rm_dly_def Let_def)
    moreover have "tx_change t (?t2\<lparr>snd_nxt := snd_nxt t1 + 1\<rparr>)"
      using same l(3,5) by (simp add: tx_change_def tx_same_def split: tcp_state.split)
    ultimately show ?thesis using sends_trans [OF l(4) f(2)] by blast
  next
    case no: False
    then have "tcp_do_xmit t w = Some (t1, w1)"
      using l(1) False by (auto simp: tcp_do_xmit_def)
    moreover have "tx_change t t1" using same l(3,5) by (simp add: tx_change_def)
    ultimately show ?thesis using l(4) by blast
  qed
qed

lemma tcp_x_ack_sends:
  assumes "host_ok w" "que_ok (snd_que t)" "hd_ack g"
  shows "\<exists>t' w' ps. tcp_x_ack g t w = Some (t', w') \<and> tx_change t t' \<and> sends w ps w'"
proof -
  let ?t = "t\<lparr>una_que := filter (\<lambda>m. \<not> mb_id m < ucast (h_acknr (sg_hdr g))) (una_que t), snd_una := h_acknr (sg_hdr g)\<rparr>"
  have q: "que_ok (snd_que ?t)" using assms(2) by simp
  obtain t' w' ps where x: "tcp_do_xmit ?t w = Some (t', w')" "tx_change ?t t'" "sends w ps w'"
    using tcp_do_xmit_sends [OF assms(1) q] by blast
  have x': "tx_change t t'" using x(2) by (simp add: tx_change_def tx_same_def)
  obtain w1 p where a: "tcp_tx_ack t w = Some w1" "sends w [p] w1" using tcp_tx_ack_sends [OF assms(1)] by blast
  have c: "tcp_x_ack g t w
      = (if TCP_SEQ_LE (h_acknr (sg_hdr g)) (snd_una t) then Some (t, w)
         else if TCP_SEQ_LT (snd_nxt t) (h_acknr (sg_hdr g)) then Some (t, w1) else Some (t', w'))"
    using x(1) a(1) assms(3) by (simp add: tcp_x_ack_def Let_def)
  show ?thesis
    using c x' x(3) a(2) sends_refl [OF assms(1)] tx_change_refl [of t]
    by (cases "TCP_SEQ_LE (h_acknr (sg_hdr g)) (snd_una t)"; cases "TCP_SEQ_LT (snd_nxt t) (h_acknr (sg_hdr g))") (auto simp only: if_True if_False)
qed

section \<open>The received data\<close>

text \<open>The bytes in the receive queue, behind the two headers of each buffer.\<close>

definition rcvd :: "tcp_t \<Rightarrow> u8 list" where
  "rcvd t = concat (map (\<lambda>m. drop 40 (mb_bytes m)) (buf_que t))"

definition data_state :: "tcp_state \<Rightarrow> bool" where
  "data_state s \<longleftrightarrow> s = ESTABLISHED \<or> s = FIN_WAIT1 \<or> s = FIN_WAIT2"

definition conn_state :: "tcp_state \<Rightarrow> bool" where
  "conn_state s \<longleftrightarrow> s \<noteq> SYN_SENT \<and> s \<noteq> SYN_RCVD \<and> s \<noteq> LISTEN"

text \<open>
  A segment of a peer that sends the byte stream \<open>s\<close> after its initial sequence number \<open>irs\<close>, or a copy of one: the data are a piece of
  the stream and the sequence number says where it starts.
\<close>

definition seg_of :: "u8 list \<Rightarrow> u32 \<Rightarrow> tcpseg_t \<Rightarrow> bool" where
  "seg_of s irs g \<longleftrightarrow>
     mb_ok (sg_buf g) \<and> 40 \<le> mb_head (sg_buf g) \<and> \<not> hd_urg g
     \<and> sg_seqlen g = ucast (mb_len (sg_buf g)) + of_bool (hd_syn g) + of_bool (hd_fin g)
     \<and> (\<exists>k. k + length (mb_bytes (sg_buf g)) \<le> length s \<and> sg_seqnr g = irs + 1 + of_nat k
          \<and> mb_bytes (sg_buf g) = take (length (mb_bytes (sg_buf g))) (drop k s))"

definition rx_inv :: "u8 list \<Rightarrow> u32 \<Rightarrow> tcp_t \<Rightarrow> bool" where
  "rx_inv s irs t \<longleftrightarrow> que_ok (snd_que t) \<and> conn_state (tc_state t) \<and> prefix (rcvd t) s
     \<and> (data_state (tc_state t) \<longrightarrow> rcv_nxt t = irs + 1 + of_nat (length (rcvd t)))"

definition quiet :: "net_t \<Rightarrow> net_t \<Rightarrow> bool" where
  "quiet w w' \<longleftrightarrow> host_ok w' \<and> n_tcbs w' = n_tcbs w"

lemma quiet_refl: "host_ok w \<Longrightarrow> quiet w w"
  by (simp add: quiet_def)

lemma quiet_trans: "quiet w w1 \<Longrightarrow> quiet w1 w2 \<Longrightarrow> quiet w w2"
  by (simp add: quiet_def)

lemma quiet_host: "quiet w w' \<Longrightarrow> host_ok w'"
  by (simp add: quiet_def)

lemma sends_quiet: "host_ok w \<Longrightarrow> sends w ps w' \<Longrightarrow> quiet w w'"
  using sends_host sends_fields by (simp add: quiet_def)

lemma try_unblk_quiet: "host_ok w \<Longrightarrow> quiet w (try_unblk x w)"
  by (simp add: quiet_def try_unblk_def host_ok_def split: option.split)

lemma tcp_tx_ack_quiet: "host_ok w \<Longrightarrow> \<exists>w'. tcp_tx_ack t w = Some w' \<and> quiet w w'"
  using tcp_tx_ack_sends sends_quiet by metis

lemma tcp_exit_with_quiet:
  assumes "host_ok w"
  obtains t' w' where "tcp_exit_with e t w = (t', w')" "quiet w w'" "buf_que t' = buf_que t" "rcv_nxt t' = rcv_nxt t"
    "snd_que t' = snd_que t" "tc_state t' = tc_state t" "snd_nxt t' = snd_nxt t"
proof -
  let ?w = "try_unblk (syn_waiter t) (try_unblk (rx_waiter t) w)"
  have "quiet w ?w" using assms try_unblk_quiet quiet_host quiet_trans by metis
  then show thesis by (intro that [of "t\<lparr>tc_errno := e, rx_waiter := None, syn_waiter := None\<rparr>" ?w]) (simp_all add: tcp_exit_with_def Let_def)
qed

lemma of_nat_u32_inj:
  assumes "(of_nat k :: u32) = of_nat n" "k \<le> l" "n \<le> l" "l < 2 ^ 32"
  shows "k = n"
proof -
  have "unat (of_nat k :: u32) = k" by (rule unat_of_nat_lt) (use assms(2,4) in simp)
  moreover have "unat (of_nat n :: u32) = n" by (rule unat_of_nat_lt) (use assms(3,4) in simp)
  ultimately show ?thesis using assms(1) by metis
qed

lemma prefix_extend:
  assumes "prefix r s" "d = take (length d) (drop (length r) s)" "length r + length d \<le> length s"
  shows "prefix (r @ d) s"
proof -
  obtain z where "s = r @ z" using assms(1) by (auto simp: prefix_def)
  moreover have "z = d @ drop (length d) z" using assms(2) \<open>s = r @ z\<close> by (metis append_eq_conv_conj append_take_drop_id)
  ultimately show ?thesis by (metis append_assoc prefix_def)
qed

lemma tcp_rx_data_inv:
  assumes w: "host_ok w" and t: "prefix (rcvd t) s" "rcv_nxt t = irs + 1 + of_nat (length (rcvd t))"
    and g: "seg_of s irs g" "\<not> hd_syn g" and s: "length s < 2 ^ 32"
  shows "\<exists>t' w'. tcp_rx_data g t w = Some (t', w') \<and> quiet w w' \<and> tc_state t' = tc_state t \<and> snd_que t' = snd_que t
    \<and> prefix (rcvd t') s \<and> (\<not> hd_fin g \<longrightarrow> rcv_nxt t' = irs + 1 + of_nat (length (rcvd t')))
    \<and> (sg_seqnr g = rcv_nxt t \<longrightarrow> rcvd t' = rcvd t @ mb_bytes (sg_buf g))"
proof -
  let ?m = "sg_buf g" and ?d = "mb_bytes (sg_buf g)"
  obtain w1 where a: "tcp_tx_ack t w = Some w1" "quiet w w1" using tcp_tx_ack_quiet [OF w] by blast
  have len: "unat (mb_len ?m) = length ?d" using g(1) length_mb_bytes by (simp add: seg_of_def)
  then have l32: "(ucast (mb_len ?m) :: u32) = of_nat (length ?d)" by (metis of_nat_unat)
  have sl: "sg_seqlen g = of_nat (length ?d) + of_bool (hd_fin g)" using g l32 by (simp add: seg_of_def)
  obtain k where k: "k + length ?d \<le> length s" "sg_seqnr g = irs + 1 + of_nat k" "?d = take (length ?d) (drop k s)"
    using g(1) unfolding seg_of_def by blast
  show ?thesis
  proof (cases "sg_seqnr g = rcv_nxt t")
    case False
    then have "tcp_rx_data g t w = Some (t, w1) \<or> tcp_rx_data g t w = Some (t, w)"
      using a(1) by (auto simp: tcp_rx_data_def)
    then show ?thesis using a(2) quiet_refl [OF w] t False by auto
  next
    case True
    have rl: "length (rcvd t) \<le> length s" using t(1) by (rule prefix_length_le)
    have "(of_nat k :: u32) = of_nat (length (rcvd t))" using True k(2) t(2) by simp
    then have kr: "k = length (rcvd t)" by (rule of_nat_u32_inj [OF _ _ rl s]) (use k(1) in simp)
    have pre: "prefix (rcvd t @ ?d) s" using prefix_extend [OF t(1)] k(1,3) kr by simp
    have no: "\<not> rcv_nxt t < sg_seqnr g" "\<not> rcv_nxt t > sg_seqnr g" using True by simp_all
    let ?t1 = "(tcp_tx_dly t w)\<lparr>rcv_nxt := rcv_nxt t + sg_seqlen g\<rparr>"
    have t1: "tc_state ?t1 = tc_state t" "snd_que ?t1 = snd_que t" "buf_que ?t1 = buf_que t" "rx_waiter ?t1 = rx_waiter t"
      by (simp_all add: tcp_tx_dly_def)
    show ?thesis
    proof (cases "sg_seqlen g = 0")
      case z: True
      have "?d = []"
      proof (rule ccontr)
        assume "?d \<noteq> []"
        moreover have "length ?d < 2 ^ 32 - 1" using len g(1) by (simp add: seg_of_def mb_ok_def MBUF_SIZE_def)
        ultimately have "unat (of_nat (length ?d) + of_bool (hd_fin g) :: u32) = length ?d + of_bool (hd_fin g)"
          by (subst unat_add_lt) (simp_all add: unat_of_nat_lt)
        then show False using z sl \<open>?d \<noteq> []\<close> by simp
      qed
      moreover have "\<not> hd_fin g" using z sl \<open>?d = []\<close> by (auto split: if_splits)
      ultimately show ?thesis using z no quiet_refl [OF w] t by (auto simp: tcp_rx_data_def)
    next
      case nz: False
      show ?thesis
      proof (cases "mb_len ?m = 0")
        case True
        then have "?d = []" using len by simp
        moreover have "tcp_rx_data g t w = Some (?t1, w)" using nz no True by (simp add: tcp_rx_data_def Let_def tcp_tx_dly_def)
        ultimately show ?thesis using t1 t sl quiet_refl [OF w] by (auto simp: rcvd_def)
      next
        case False
        obtain m1 where m1: "mbuf_push 20 ?m = Some m1" "mb_ok m1" "mb_head m1 = mb_head ?m - 20" "drop 20 (mb_bytes m1) = ?d"
          using mbuf_push_ok [of ?m 20] g(1) by (auto simp: seg_of_def)
        have "40 \<le> mb_head ?m" using g(1) by (simp add: seg_of_def)
        then have "20 \<le> mb_head m1" using m1(3) by simp
        then obtain m2 where m2: "mbuf_push 20 m1 = Some m2" "drop 20 (mb_bytes m2) = mb_bytes m1"
          using mbuf_push_ok [OF m1(2)] by blast
        have "drop 40 (mb_bytes m2) = ?d" using m1(4) by (simp flip: m2(2))
        moreover have "tcp_rx_data g t w
            = Some (?t1\<lparr>buf_que := buf_que t @ [m2], rx_waiter := None\<rparr>, try_unblk (rx_waiter t) w)"
          using nz no False m1(1) m2(1) by (simp add: tcp_rx_data_def Let_def tcp_tx_dly_def TCPHDR_SIZ_def IPHDR_SIZ_def)
        ultimately show ?thesis
          using t1 t sl pre try_unblk_quiet [OF w] by (auto simp: rcvd_def)
      qed
    qed
  qed
qed

section \<open>Every handler keeps the invariant\<close>

lemma rx_inv_cong:
  assumes "rx_inv s irs t" "que_ok (snd_que t')" "buf_que t' = buf_que t" "rcv_nxt t' = rcv_nxt t" "conn_state (tc_state t')"
    "data_state (tc_state t') \<longrightarrow> data_state (tc_state t)"
  shows "rx_inv s irs t'"
  using assms by (simp add: rx_inv_def rcvd_def)

lemma rx_inv_closed:
  assumes "rx_inv s irs t" "snd_que t' = snd_que t" "buf_que t' = buf_que t" "conn_state (tc_state t')" "\<not> data_state (tc_state t')"
  shows "rx_inv s irs t'"
  using assms by (simp add: rx_inv_def rcvd_def)

lemma rx_inv_tx_change:
  assumes "rx_inv s irs t" "tx_change t t'"
  shows "rx_inv s irs t'" "data_state (tc_state t) \<longrightarrow> data_state (tc_state t')"
    "tc_state t = CLOSE_WAIT \<longrightarrow> \<not> data_state (tc_state t')"
proof -
  have f: "buf_que t' = buf_que t" "rcv_nxt t' = rcv_nxt t" "que_ok (snd_que t')"
    using assms by (simp_all add: tx_change_def tx_same_def rx_inv_def)
  have st: "tc_state t' = tc_state t \<or> tc_state t = ESTABLISHED \<and> tc_state t' = FIN_WAIT1
        \<or> tc_state t = CLOSE_WAIT \<and> tc_state t' = LAST_ACK"
    using assms(2) by (simp add: tx_change_def)
  then show "data_state (tc_state t) \<longrightarrow> data_state (tc_state t')" "tc_state t = CLOSE_WAIT \<longrightarrow> \<not> data_state (tc_state t')"
    by (auto simp: data_state_def)
  have "conn_state (tc_state t')" "data_state (tc_state t') \<longrightarrow> data_state (tc_state t)"
    using st assms(1) by (auto simp: conn_state_def data_state_def rx_inv_def)
  then show "rx_inv s irs t'" using rx_inv_cong assms(1) f by blast
qed

lemma tcp_exit_with_inv:
  assumes "host_ok w" "rx_inv s irs t"
  shows "\<exists>t' w'. tcp_exit_with e t w = (t', w') \<and> quiet w w' \<and> rx_inv s irs t' \<and> tc_state t' = tc_state t"
proof -
  obtain t' w' where e: "tcp_exit_with e t w = (t', w')" "quiet w w'" "buf_que t' = buf_que t" "rcv_nxt t' = rcv_nxt t"
    "snd_que t' = snd_que t" "tc_state t' = tc_state t"
    using tcp_exit_with_quiet [OF assms(1)] by metis
  have "rx_inv s irs t'" by (rule rx_inv_cong [OF assms(2)]) (use e assms(2) in \<open>simp_all add: rx_inv_def\<close>)
  then show ?thesis using e by blast
qed

lemma x_ack_inv:
  assumes "host_ok w" "rx_inv s irs t"
  shows "\<exists>t' w'. (if hd_ack g then tcp_x_ack g t w else Some (t, w)) = Some (t', w') \<and> quiet w w' \<and> rx_inv s irs t'
    \<and> (data_state (tc_state t) \<longrightarrow> data_state (tc_state t') \<and> rcv_nxt t' = rcv_nxt t \<and> rcvd t' = rcvd t)
    \<and> (tc_state t = CLOSE_WAIT \<longrightarrow> \<not> data_state (tc_state t'))"
proof (cases "hd_ack g")
  case True
  have "que_ok (snd_que t)" using assms(2) by (simp add: rx_inv_def)
  then obtain t' w' ps where x: "tcp_x_ack g t w = Some (t', w')" "tx_change t t'" "sends w ps w'"
    using tcp_x_ack_sends [OF assms(1) _ True] by blast
  have "rcv_nxt t' = rcv_nxt t" "rcvd t' = rcvd t" using x(2) by (simp_all add: tx_change_def tx_same_def rcvd_def)
  then show ?thesis using x True sends_quiet [OF assms(1)] rx_inv_tx_change [OF assms(2) x(2)] by auto
next
  case False
  then show ?thesis using assms quiet_refl by (auto simp: data_state_def)
qed

lemma rx_data_inv:
  assumes "host_ok w" "rx_inv s irs t" "data_state (tc_state t)" "seg_of s irs g" "\<not> hd_syn g" "length s < 2 ^ 32"
  shows "\<exists>t' w'. tcp_rx_data g t w = Some (t', w') \<and> quiet w w' \<and> tc_state t' = tc_state t
    \<and> (\<not> hd_fin g \<longrightarrow> rx_inv s irs t') \<and> (\<forall>st. conn_state st \<and> \<not> data_state st \<longrightarrow> rx_inv s irs (t'\<lparr>tc_state := st\<rparr>))
    \<and> (sg_seqnr g = rcv_nxt t \<longrightarrow> rcvd t' = rcvd t @ mb_bytes (sg_buf g))"
proof -
  have t: "prefix (rcvd t) s" "rcv_nxt t = irs + 1 + of_nat (length (rcvd t))" "que_ok (snd_que t)" "conn_state (tc_state t)"
    using assms(2,3) by (simp_all add: rx_inv_def)
  obtain t' w' where r: "tcp_rx_data g t w = Some (t', w')" "quiet w w'" "tc_state t' = tc_state t" "snd_que t' = snd_que t"
    "prefix (rcvd t') s" "\<not> hd_fin g \<longrightarrow> rcv_nxt t' = irs + 1 + of_nat (length (rcvd t'))"
    "sg_seqnr g = rcv_nxt t \<longrightarrow> rcvd t' = rcvd t @ mb_bytes (sg_buf g)"
    using tcp_rx_data_inv [OF assms(1) t(1,2) assms(4-6)] by blast
  have "\<not> hd_fin g \<longrightarrow> rx_inv s irs t'" using r t by (simp add: rx_inv_def)
  moreover have "rcvd (t'\<lparr>tc_state := st\<rparr>) = rcvd t'" for st by (simp add: rcvd_def)
  then have "\<forall>st. conn_state st \<and> \<not> data_state st \<longrightarrow> rx_inv s irs (t'\<lparr>tc_state := st\<rparr>)" using r t by (simp add: rx_inv_def)
  ultimately show ?thesis using r by blast
qed

lemma established_inv:
  assumes w: "host_ok w" and t: "rx_inv s irs t" "tc_state t = ESTABLISHED" and g: "seg_of s irs g" and s: "length s < 2 ^ 32"
  shows "\<exists>t' w'. tcp_rx_established g t w = Some (t', w') \<and> quiet w w' \<and> rx_inv s irs t'
    \<and> (\<not> hd_rst g \<and> \<not> hd_syn g \<and> sg_seqnr g = rcv_nxt t \<longrightarrow> rcvd t' = rcvd t @ mb_bytes (sg_buf g))"
proof -
  have d: "data_state (tc_state t)" using t(2) by (simp add: data_state_def)
  consider "hd_rst g" | "\<not> hd_rst g" "hd_syn g" | "\<not> hd_rst g" "\<not> hd_syn g" by blast
  then show ?thesis
  proof cases
    case 1
    then show ?thesis using tcp_exit_with_inv [OF w t(1), of "- ECONNREFUSED"] by (auto simp: tcp_rx_established_def)
  next
    case 2
    then show ?thesis using tcp_tx_ack_quiet [OF w, of t] t(1) by (auto simp: tcp_rx_established_def)
  next
    case 3
    obtain t1 w1 where x: "(if hd_ack g then tcp_x_ack g t w else Some (t, w)) = Some (t1, w1)" "quiet w w1" "rx_inv s irs t1"
      "data_state (tc_state t1)" "rcv_nxt t1 = rcv_nxt t" "rcvd t1 = rcvd t"
      using x_ack_inv [OF w t(1), of g] d by blast
    obtain t2 w2 where r: "tcp_rx_data g t1 w1 = Some (t2, w2)" "quiet w1 w2" "\<not> hd_fin g \<longrightarrow> rx_inv s irs t2"
      "rx_inv s irs (t2\<lparr>tc_state := CLOSE_WAIT\<rparr>)" "sg_seqnr g = rcv_nxt t1 \<longrightarrow> rcvd t2 = rcvd t1 @ mb_bytes (sg_buf g)"
      using rx_data_inv [OF quiet_host [OF x(2)] x(3,4) g 3(2) s] by (auto simp: conn_state_def data_state_def)
    have "\<not> hd_urg g" using g by (simp add: seg_of_def)
    then have "tcp_rx_established g t w = Some (if hd_fin g then t2\<lparr>tc_state := CLOSE_WAIT\<rparr> else t2, w2)"
      using 3 x(1) r(1) by (simp add: tcp_rx_established_def)
    moreover have "rcvd (if hd_fin g then t2\<lparr>tc_state := CLOSE_WAIT\<rparr> else t2) = rcvd t2" by (simp add: rcvd_def)
    ultimately show ?thesis using r(3-5) x(5,6) quiet_trans [OF x(2) r(2)] by auto
  qed
qed

lemma finwait_inv:
  assumes w: "host_ok w" and t: "rx_inv s irs t" "tc_state t = FIN_WAIT1 \<or> tc_state t = FIN_WAIT2" and g: "seg_of s irs g"
    and s: "length s < 2 ^ 32"
  shows "\<exists>t' w'. tcp_rx_finwait g t w = Some (t', w') \<and> quiet w w' \<and> rx_inv s irs t'
    \<and> (\<not> hd_rst g \<and> \<not> hd_syn g \<and> sg_seqnr g = rcv_nxt t \<longrightarrow> rcvd t' = rcvd t @ mb_bytes (sg_buf g))"
proof -
  consider "hd_rst g" | "\<not> hd_rst g" "hd_syn g" | "\<not> hd_rst g" "\<not> hd_syn g" by blast
  then show ?thesis
  proof cases
    case 1
    then show ?thesis using tcp_exit_with_inv [OF w t(1), of "- ECONNREFUSED"] by (auto simp: tcp_rx_finwait_def)
  next
    case 2
    then show ?thesis using tcp_tx_ack_quiet [OF w, of t] t(1) by (auto simp: tcp_rx_finwait_def)
  next
    case 3
    let ?t1 = "if hd_ack g \<and> h_acknr (sg_hdr g) = snd_nxt t \<and> tc_state t = FIN_WAIT1 then t\<lparr>tc_state := FIN_WAIT2\<rparr> else t"
    have s1: "tc_state ?t1 = FIN_WAIT1 \<or> tc_state ?t1 = FIN_WAIT2" using t(2) by auto
    then have d1: "data_state (tc_state ?t1)" by (auto simp: data_state_def)
    have "rx_inv s irs ?t1"
      by (rule rx_inv_cong [OF t(1)]) (use t s1 in \<open>auto simp: rx_inv_def conn_state_def data_state_def\<close>)
    from rx_data_inv [OF w this d1 g 3(2) s] obtain t2 w2 where r: "tcp_rx_data g ?t1 w = Some (t2, w2)" "quiet w w2"
      "tc_state t2 = tc_state ?t1" "\<not> hd_fin g \<longrightarrow> rx_inv s irs t2"
      "\<forall>st. conn_state st \<and> \<not> data_state st \<longrightarrow> rx_inv s irs (t2\<lparr>tc_state := st\<rparr>)"
      "sg_seqnr g = rcv_nxt ?t1 \<longrightarrow> rcvd t2 = rcvd ?t1 @ mb_bytes (sg_buf g)"
      by blast
    let ?st = "case tc_state t2 of FIN_WAIT1 \<Rightarrow> CLOSING | FIN_WAIT2 \<Rightarrow> TIME_WAIT | s \<Rightarrow> s"
    have "conn_state ?st" "\<not> data_state ?st" using r(3) s1 by (auto simp: conn_state_def data_state_def)
    then have i: "rx_inv s irs (t2\<lparr>tc_state := ?st\<rparr>)" using r(5) by blast
    have "\<not> hd_urg g" using g by (simp add: seg_of_def)
    then have "tcp_rx_finwait g t w = Some (if hd_fin g then t2\<lparr>tc_state := ?st\<rparr> else t2, w2)"
      using 3 r(1) by (simp add: tcp_rx_finwait_def)
    moreover have "rcvd (if hd_fin g then t2\<lparr>tc_state := ?st\<rparr> else t2) = rcvd t2" "rcv_nxt ?t1 = rcv_nxt t" "rcvd ?t1 = rcvd t"
      by (simp_all add: rcvd_def)
    ultimately show ?thesis using r(2,4,6) i by auto
  qed
qed

lemma closewait_inv:
  assumes w: "host_ok w" and t: "rx_inv s irs t" "tc_state t = CLOSE_WAIT" and g: "seg_of s irs g"
  shows "\<exists>t' w'. tcp_rx_closewait g t w = Some (t', w') \<and> quiet w w' \<and> rx_inv s irs t'"
proof -
  obtain t1 w1 where e: "(if hd_rst g then tcp_exit_with (- ECONNRESET) t w else (t, w)) = (t1, w1)" "quiet w w1" "rx_inv s irs t1"
    using tcp_exit_with_inv [OF w t(1), of "- ECONNRESET"] quiet_refl [OF w] t(1) by (cases "hd_rst g") auto
  note w1 = quiet_host [OF e(2)]
  show ?thesis
  proof (cases "hd_syn g")
    case True
    then show ?thesis using e tcp_tx_ack_quiet [OF w1, of t1] quiet_trans [OF e(2)] by (auto simp: tcp_rx_closewait_def)
  next
    case False
    obtain t2 w2 where x: "(if hd_ack g then tcp_x_ack g t1 w1 else Some (t1, w1)) = Some (t2, w2)" "quiet w1 w2" "rx_inv s irs t2"
      using x_ack_inv [OF w1 e(3), of g] by blast
    have "\<not> hd_urg g" using g by (simp add: seg_of_def)
    then have "tcp_rx_closewait g t w = Some (t2, w2)" using e(1) x(1) False by (simp add: tcp_rx_closewait_def)
    then show ?thesis using x(3) quiet_trans [OF e(2) x(2)] by blast
  qed
qed

lemma tcp_release_quiet:
  assumes "host_ok w"
  shows "\<exists>w'. tcp_release i t w = Some w' \<and> quiet w w'"
proof -
  have "unat (ucast (tc_lport t) :: u64) = unat (tc_lport t)" by (rule unat_ucast_up) simp
  then have "(ucast (tc_lport t) :: u64) < 65536" using unat_lt2p [of "tc_lport t"] by (simp add: word_less_nat_alt)
  then show ?thesis using assms by (simp add: tcp_release_def bitmap_reset_def host_ok_def quiet_def Let_def)
qed

lemma rst_release_inv:
  assumes w: "host_ok w" and t: "rx_inv s irs t" "\<not> data_state (tc_state t)"
  shows "\<exists>t' w'. (if hd_rst g then do { w \<leftarrow> tcp_release i t w; Some (t\<lparr>tc_state := CLOSED\<rparr>, w) } else Some (t, w)) = Some (t', w')
    \<and> quiet w w' \<and> rx_inv s irs t' \<and> \<not> data_state (tc_state t')"
proof (cases "hd_rst g")
  case True
  have "rx_inv s irs (t\<lparr>tc_state := CLOSED\<rparr>)"
    by (rule rx_inv_closed [OF t(1)]) (simp_all add: conn_state_def data_state_def)
  then show ?thesis using True tcp_release_quiet [OF w, of i t] by (auto simp: data_state_def)
next
  case False
  then show ?thesis using t quiet_refl [OF w] by auto
qed

lemma closed_states:
  "conn_state CLOSED" "conn_state TIME_WAIT" "\<not> data_state CLOSED" "\<not> data_state TIME_WAIT" "\<not> data_state CLOSING"
  "\<not> data_state LAST_ACK"
  by (simp_all add: conn_state_def data_state_def)

lemma lastack_inv:
  assumes w: "host_ok w" and t: "rx_inv s irs t" "tc_state t = LAST_ACK" and g: "seg_of s irs g"
  shows "\<exists>t' w'. tcp_rx_lastack i g t w = Some (t', w') \<and> quiet w w' \<and> rx_inv s irs t'"
proof -
  have "\<not> data_state (tc_state t)" using t(2) by (simp add: closed_states)
  from rst_release_inv [OF w t(1) this, of g i] obtain t1 w1 where
    r: "(if hd_rst g then do { w \<leftarrow> tcp_release i t w; Some (t\<lparr>tc_state := CLOSED\<rparr>, w) } else Some (t, w)) = Some (t1, w1)"
    "quiet w w1" "rx_inv s irs t1" by blast
  have u: "\<not> hd_urg g" using g by (simp add: seg_of_def)
  have i: "rx_inv s irs (if hd_ack g then t1\<lparr>tc_state := CLOSED\<rparr> else t1)"
    using rx_inv_closed [OF r(3), of "t1\<lparr>tc_state := CLOSED\<rparr>"] r(3) by (simp add: closed_states)
  show ?thesis
  proof (cases "hd_syn g")
    case True
    obtain w2 where "tcp_tx_ack t1 w1 = Some w2" "quiet w1 w2" using tcp_tx_ack_quiet [OF quiet_host [OF r(2)]] by blast
    then show ?thesis using r True quiet_trans [OF r(2)] by (auto simp: tcp_rx_lastack_def)
  next
    case False
    then have "tcp_rx_lastack i g t w = Some (if hd_ack g then t1\<lparr>tc_state := CLOSED\<rparr> else t1, w1)"
      using r(1) u by (simp add: tcp_rx_lastack_def)
    then show ?thesis using i r(2) by blast
  qed
qed

lemma closing_inv:
  assumes w: "host_ok w" and t: "rx_inv s irs t" "tc_state t = CLOSING" and g: "seg_of s irs g"
  shows "\<exists>t' w'. tcp_rx_closing i g t w = Some (t', w') \<and> quiet w w' \<and> rx_inv s irs t'"
proof -
  have "\<not> data_state (tc_state t)" using t(2) by (simp add: closed_states)
  from rst_release_inv [OF w t(1) this, of g i] obtain t1 w1 where
    r: "(if hd_rst g then do { w \<leftarrow> tcp_release i t w; Some (t\<lparr>tc_state := CLOSED\<rparr>, w) } else Some (t, w)) = Some (t1, w1)"
    "quiet w w1" "rx_inv s irs t1" by blast
  have u: "\<not> hd_urg g" using g by (simp add: seg_of_def)
  let ?t = "if hd_ack g then tcp_do_timewait (t1\<lparr>tc_state := TIME_WAIT\<rparr>) w1 else t1"
  have i: "rx_inv s irs ?t"
    using rx_inv_closed [OF r(3), of "tcp_do_timewait (t1\<lparr>tc_state := TIME_WAIT\<rparr>) w1"] r(3)
    by (simp add: closed_states tcp_do_timewait_def)
  show ?thesis
  proof (cases "hd_syn g")
    case True
    obtain w2 where "tcp_tx_ack t1 w1 = Some w2" "quiet w1 w2" using tcp_tx_ack_quiet [OF quiet_host [OF r(2)]] by blast
    then show ?thesis using r True quiet_trans [OF r(2)] by (auto simp: tcp_rx_closing_def)
  next
    case False
    then have "tcp_rx_closing i g t w = Some (?t, w1)" using r(1) u by (simp add: tcp_rx_closing_def)
    then show ?thesis using i r(2) by blast
  qed
qed

lemma timewait_inv:
  assumes w: "host_ok w" and t: "rx_inv s irs t" "tc_state t = TIME_WAIT" and g: "seg_of s irs g"
  shows "\<exists>t' w'. tcp_rx_timewait i g t w = Some (t', w') \<and> quiet w w' \<and> rx_inv s irs t'"
proof -
  have "\<not> data_state (tc_state t)" using t(2) by (simp add: closed_states)
  from rst_release_inv [OF w t(1) this, of g i] obtain t1 w1 where
    r: "(if hd_rst g then do { w \<leftarrow> tcp_release i t w; Some (t\<lparr>tc_state := CLOSED\<rparr>, w) } else Some (t, w)) = Some (t1, w1)"
    "quiet w w1" "rx_inv s irs t1" "\<not> data_state (tc_state t1)" by blast
  have u: "\<not> hd_urg g" using g by (simp add: seg_of_def)
  obtain w2 where a: "tcp_tx_ack t1 w1 = Some w2" "quiet w1 w2" using tcp_tx_ack_quiet [OF quiet_host [OF r(2)]] by blast
  have tw: "rx_inv s irs (tcp_do_timewait x y)" if "rx_inv s irs x" for x y
    by (rule rx_inv_cong [OF that]) (use that in \<open>simp_all add: tcp_do_timewait_def rx_inv_def\<close>)
  show ?thesis
  proof (cases "hd_syn g")
    case True
    then show ?thesis using r a quiet_trans [OF r(2)] by (auto simp: tcp_rx_timewait_def)
  next
    case False
    let ?t2 = "if hd_ack g then tcp_do_timewait t1 w2 else t1" and ?w2 = "if hd_ack g then w2 else w1"
    have "tcp_rx_timewait i g t w = Some (if hd_fin g then tcp_do_timewait ?t2 ?w2 else ?t2, ?w2)"
      using r(1) u a(1) False by (simp add: tcp_rx_timewait_def)
    moreover have "rx_inv s irs (if hd_fin g then tcp_do_timewait ?t2 ?w2 else ?t2)" using r(3) tw by simp
    moreover have "quiet w ?w2" using r(2) a(2) quiet_trans by auto
    ultimately show ?thesis by blast
  qed
qed

lemma tcp_rx_state_inv:
  assumes w: "host_ok w" "i < length (n_tcbs w)" and t: "rx_inv s irs (tcb i w)" and g: "seg_of s irs g" and s: "length s < 2 ^ 32"
  shows "\<exists>w'. tcp_rx_state i g w = Some w' \<and> host_ok w' \<and> i < length (n_tcbs w') \<and> rx_inv s irs (tcb i w')
    \<and> (data_state (tc_state (tcb i w)) \<and> \<not> hd_rst g \<and> \<not> hd_syn g \<and> sg_seqnr g = rcv_nxt (tcb i w)
        \<longrightarrow> rcvd (tcb i w') = rcvd (tcb i w) @ mb_bytes (sg_buf g))"
proof -
  let ?t = "tcb i w"
  let ?h = "tcp_rx_switch i g ?t w"
  obtain w1 p where c: "tcp_tx_reset g w = Some w1" "sends w [p] w1" using tcp_tx_reset_sends [OF w(1)] by blast
  have "conn_state (tc_state ?t)" using t by (simp add: rx_inv_def)
  then have "\<exists>t' w'. ?h = Some (t', w') \<and> quiet w w' \<and> rx_inv s irs t' \<and> (data_state (tc_state ?t) \<and> \<not> hd_rst g \<and> \<not> hd_syn g
      \<and> sg_seqnr g = rcv_nxt ?t \<longrightarrow> rcvd t' = rcvd ?t @ mb_bytes (sg_buf g))"
  proof (cases "tc_state ?t")
    case ESTABLISHED
    then show ?thesis using established_inv [OF w(1) t _ g s] by (simp add: tcp_rx_switch_def data_state_def)
  next
    case FIN_WAIT1
    then show ?thesis using finwait_inv [OF w(1) t _ g s] by (simp add: tcp_rx_switch_def data_state_def)
  next
    case FIN_WAIT2
    then show ?thesis using finwait_inv [OF w(1) t _ g s] by (simp add: tcp_rx_switch_def data_state_def)
  next
    case CLOSE_WAIT
    then show ?thesis using closewait_inv [OF w(1) t _ g] by (auto simp: tcp_rx_switch_def data_state_def)
  next
    case LAST_ACK
    then show ?thesis using lastack_inv [OF w(1) t _ g] by (auto simp: tcp_rx_switch_def data_state_def)
  next
    case CLOSING
    then show ?thesis using closing_inv [OF w(1) t _ g] by (auto simp: tcp_rx_switch_def data_state_def)
  next
    case TIME_WAIT
    then show ?thesis using timewait_inv [OF w(1) t _ g] by (auto simp: tcp_rx_switch_def data_state_def)
  next
    case CLOSED
    then show ?thesis using c(1) sends_quiet [OF w(1) c(2)] t by (auto simp: tcp_rx_switch_def data_state_def)
  qed (simp_all add: conn_state_def)
  then obtain t' w' where h: "?h = Some (t', w')" "quiet w w'" "rx_inv s irs t'"
    "data_state (tc_state ?t) \<and> \<not> hd_rst g \<and> \<not> hd_syn g \<and> sg_seqnr g = rcv_nxt ?t \<longrightarrow> rcvd t' = rcvd ?t @ mb_bytes (sg_buf g)"
    by blast
  have "n_tcbs w' = n_tcbs w" "host_ok w'" using h(2) by (simp_all add: quiet_def)
  then show ?thesis using h w(2) by (auto simp: tcp_rx_state_def tcb_put_def tcb_def host_ok_def)
qed

text \<open>
  C1: whatever segments of a peer arrive at a connected socket, in any order, lost or repeated, with any flags but the
  urgent flag, the kernel goes on, and the data in the receive queue are a prefix of the stream that the
  peer sends. As long as data are expected, a segment that starts at the next missing byte is taken as a whole.
\<close>

theorem tcp_rx_stream_prefix:
  assumes "host_ok w" "i < length (n_tcbs w)" "tc_state (tcb i w) = ESTABLISHED" "que_ok (snd_que (tcb i w))"
    "buf_que (tcb i w) = []" "rcv_nxt (tcb i w) = irs + 1" "length s < 2 ^ 32"
    "list_all (seg_of s irs) gs" "seg_of s irs g"
  shows "\<exists>w1 w2. foldM (tcp_rx_state i) gs w = Some w1 \<and> prefix (rcvd (tcb i w1)) s
    \<and> tcp_rx_state i g w1 = Some w2 \<and> prefix (rcvd (tcb i w2)) s
    \<and> (data_state (tc_state (tcb i w1)) \<and> \<not> hd_rst g \<and> \<not> hd_syn g \<and> sg_seqnr g = rcv_nxt (tcb i w1)
        \<longrightarrow> rcvd (tcb i w2) = rcvd (tcb i w1) @ mb_bytes (sg_buf g))"
proof -
  let ?P = "\<lambda>w. host_ok w \<and> i < length (n_tcbs w) \<and> rx_inv s irs (tcb i w)"
  have "?P w" using assms by (simp add: rx_inv_def rcvd_def conn_state_def)
  moreover have "\<exists>w'. tcp_rx_state i x w = Some w' \<and> ?P w'" if "x \<in> set gs" "?P w" for x w
    using tcp_rx_state_inv [of w i s irs x] assms(7,8) that by (auto simp: list_all_iff)
  ultimately obtain w1 where w1: "foldM (tcp_rx_state i) gs w = Some w1" "?P w1"
    using foldM_invar [of gs ?P "tcp_rx_state i" w] by blast
  then obtain w2 where "tcp_rx_state i g w1 = Some w2" "rx_inv s irs (tcb i w2)"
    "data_state (tc_state (tcb i w1)) \<and> \<not> hd_rst g \<and> \<not> hd_syn g \<and> sg_seqnr g = rcv_nxt (tcb i w1)
        \<longrightarrow> rcvd (tcb i w2) = rcvd (tcb i w1) @ mb_bytes (sg_buf g)"
    using tcp_rx_state_inv [of w1 i s irs g] assms(7,9) by blast
  then show ?thesis using w1 by (auto simp: rx_inv_def)
qed

text \<open>A host with one interface, and an established connection on it.\<close>

definition sample_tcb :: tcp_t where
  "sample_tcb = \<lparr>tc_nip = 1, tc_laddr = 0, tc_raddr = 2, tc_lport = 1024, tc_rport = 80, tc_mss = 536, tc_nagle = True,
     tc_state = ESTABLISHED, tc_shutdown = 0, tc_errno = 0, tc_passive = False, tc_ptcp = None, tc_pchd = [], tc_acpt = [],
     tc_backlog = 0, tc_backcnt = 0, snd_iss = 1000, snd_una = 1001, snd_nxt = 1001, snd_que = [], una_que = [], buf_que = [],
     tmr_ack = None, tmr_wait = None, rcv_nxt = 501, rcv_irs = 500, rx_waiter = None, syn_waiter = None\<rparr>"

definition sample_host :: "ipv4_t \<Rightarrow> tcp_t \<Rightarrow> net_t" where
  "sample_host nip t = \<lparr>n_nip = nip, n_tcbs = [t], n_common = (if tc_state t = LISTEN then [] else [0]),
     n_listen = (if tc_state t = LISTEN then [0] else []), n_bmp = \<lparr>bm_map = replicate 8192 0, bm_bits = 65536\<rparr>, n_tick = 77,
     n_free = [], n_page = replicate MBUF_SIZE 0, n_mem = sample_tcb, n_out = [], n_woken = []\<rparr>"

definition sample_seg :: "u32 \<Rightarrow> u32 \<Rightarrow> u8 \<Rightarrow> u8 list \<Rightarrow> tcpseg_t" where
  "sample_seg seqnr acknr flgs d =
     \<lparr>sg_seqnr = seqnr, sg_seqlen = ucast (mb_len (filled_mbuf 168 d)) + of_bool (bit flgs 1) + of_bool (bit flgs 0),
      sg_sip = 2, sg_dip = 1, sg_nip = 1, sg_buf = filled_mbuf 168 d,
      sg_hdr = \<lparr>h_sport = 80, h_dport = 1024, h_seqnr = seqnr, h_acknr = acknr, h_rev0 = 0, h_offset = 5, h_flgs = flgs,
                h_window = 65535, h_cksum = 0, h_urgptr = 0\<rparr>\<rparr>"

lemma sample_host_simps [simp]:
  "host_ok (sample_host nip t)" "length (n_tcbs (sample_host nip t)) = 1" "tcb 0 (sample_host nip t) = t" "n_out (sample_host nip t) = []"
  "n_nip (sample_host nip t) = nip" "n_common (sample_host nip t) = (if tc_state t = LISTEN then [] else [0])"
  "n_listen (sample_host nip t) = (if tc_state t = LISTEN then [0] else [])"
  by (simp_all add: sample_host_def host_ok_def pool_ok_def tcb_def)

text \<open>The stream \<open>1, 2, 3, 4\<close> in two segments, the second of which arrives first.\<close>

theorem tcp_rx_stream_prefix_witness:
  "seg_of [1, 2, 3, 4] 500 (sample_seg 501 1001 TCP_F_ACK [1, 2]) \<and> seg_of [1, 2, 3, 4] 500 (sample_seg 503 1001 TCP_F_ACK [3, 4])
    \<and> (\<exists>w1 w2. foldM (tcp_rx_state 0) [sample_seg 503 1001 TCP_F_ACK [3, 4]] (sample_host 1 sample_tcb) = Some w1
         \<and> prefix (rcvd (tcb 0 w1)) [1, 2, 3, 4] \<and> tcp_rx_state 0 (sample_seg 501 1001 TCP_F_ACK [1, 2]) w1 = Some w2
         \<and> prefix (rcvd (tcb 0 w2)) [1, 2, 3, 4])"
proof -
  have k: "\<exists>k. k + length (mb_bytes (filled_mbuf 168 [1, 2])) \<le> length [1, 2, 3, 4 :: u8] \<and> (501 :: u32) = 500 + 1 + of_nat k
          \<and> mb_bytes (filled_mbuf 168 [1, 2]) = take (length (mb_bytes (filled_mbuf 168 [1, 2]))) (drop k [1, 2, 3, 4])"
    "\<exists>k. k + length (mb_bytes (filled_mbuf 168 [3, 4])) \<le> length [1, 2, 3, 4 :: u8] \<and> (503 :: u32) = 500 + 1 + of_nat k
          \<and> mb_bytes (filled_mbuf 168 [3, 4]) = take (length (mb_bytes (filled_mbuf 168 [3, 4]))) (drop k [1, 2, 3, 4])"
    by (rule exI [of _ 0], simp add: filled_mbuf_ok MBUF_SIZE_def) (rule exI [of _ 2], simp add: filled_mbuf_ok MBUF_SIZE_def)
  have g: "seg_of [1, 2, 3, 4] 500 (sample_seg 501 1001 TCP_F_ACK [1, 2])" "seg_of [1, 2, 3, 4] 500 (sample_seg 503 1001 TCP_F_ACK [3, 4])"
    using k by (simp_all add: seg_of_def sample_seg_def filled_mbuf_ok MBUF_SIZE_def TCP_F_ACK_def bit_simps)
  have "que_ok (snd_que sample_tcb)" "buf_que sample_tcb = []" "rcv_nxt sample_tcb = 500 + 1" "tc_state sample_tcb = ESTABLISHED"
    by (simp_all add: sample_tcb_def que_ok_def)
  with tcp_rx_stream_prefix [of "sample_host 1 sample_tcb" 0 500 "[1, 2, 3, 4]" "[sample_seg 503 1001 TCP_F_ACK [3, 4]]"
      "sample_seg 501 1001 TCP_F_ACK [1, 2]"] g
  show ?thesis by auto
qed

end
