(* ===== verification/Net_Tcp_Recv.thy ===== *)
theory Net_Tcp_Recv
  imports Net_Tcp_Rx
begin

text \<open>
  What \<open>tcp_recvmsg\<close> returns of the receive queue.
\<close>

lemma psh_bit: "x AND TCP_F_PSH \<noteq> 0 \<longleftrightarrow> bit x 3"
proof -
  have "TCP_F_PSH = push_bit 3 1" by (simp add: TCP_F_PSH_def)
  then show ?thesis by (metis bit_iff_and_push_bit_not_eq_0)
qed

text \<open>One round takes the two headers \<open>h\<close> off the first buffer and copies from the data \<open>d\<close> behind them.\<close>

lemma tcp_recv_round_ok:
  assumes q: "buf_que t = m # ms" and m: "mb_ok m" "mb_bytes m = h @ d" "length h = 40"
  shows "\<exists>t' w'. tcp_recv_round n t w = Some (take n d, bit (h ! 33) 3, t', w') \<and> tc_errno t' = tc_errno t
    \<and> n_tcbs w' = n_tcbs w \<and> rx_waiter t' = rx_waiter t
    \<and> (if length d \<le> n then buf_que t' = ms else \<exists>m'. buf_que t' = m' # ms \<and> mb_ok m' \<and> mb_bytes m' = drop n d)"
proof -
  have l: "unat (mb_len m) = 40 + length d" using length_mb_bytes [OF m(1)] m(2,3) by simp
  obtain m1 where m1: "mbuf_pull 20 m = Some m1" "mb_ok m1" "mb_bytes m1 = drop 20 h @ d" "unat (mb_len m1) = 20 + length d"
    using mbuf_pull_ok [OF m(1), of 20] l m(2,3) by auto
  have b: "mb_read (mb_head m1) 20 m1 = Some (drop 20 h)" using mb_read_prefix(1) [OF m1(2,3)] m(3) by simp
  obtain m2 where m2: "mbuf_pull 20 m1 = Some m2" "mb_ok m2" "mb_bytes m2 = d" "unat (mb_len m2) = length d"
    using mbuf_pull_ok [OF m1(2), of 20] m1(3,4) m(3) by auto
  have f: "h_flgs (tcphdr_load (drop 20 h)) = h ! 33" using m(3) by (simp add: tcphdr_load_def)
  define c where "c = min n (length d)"
  have d: "mb_bytes m2 = take c d @ drop c d" using m2(3) by simp
  have "length (take c d) = c" "take c d = take n d" by (auto simp: c_def min_def)
  then have rd: "mb_read (mb_head m2) c m2 = Some (take n d)" using mb_read_prefix(1) [OF m2(2) d] by metis
  have "c \<le> unat (mb_len m2)" using m2(4) by (simp add: c_def)
  then obtain m3 where m3: "mbuf_pull c m2 = Some m3" "mb_ok m3" "mb_bytes m3 = drop c d" "unat (mb_len m3) = length d - c"
    using mbuf_pull_ok [OF m2(2)] m2(3,4) by auto
  have e: "m2\<lparr>mb_len := mb_len m2 - of_nat c, mb_head := mb_head m2 + c\<rparr> = m3"
    using m3(1) by (auto simp: mbuf_pull_def bind_eq_Some_conv)
  have e0: "mb_len m2 = of_nat c \<longleftrightarrow> mb_len m3 = 0" using e [symmetric] by simp
  have r: "tcp_recv_round n t w = Some (if mb_len m3 = 0
           then (take n d, bit (h ! 33) 3, t\<lparr>buf_que := ms\<rparr>, w\<lparr>n_free := mbuf_free m3 (n_free w)\<rparr>)
           else (take n d, bit (h ! 33) 3, t\<lparr>buf_que := m3 # ms\<rparr>, w))"
    using q m1(1) b m2(1) rd m2(4) unfolding tcp_recv_round_def IPHDR_SIZ_def TCPHDR_SIZ_def
    by (simp add: f psh_bit c_def [symmetric] e e0 Let_def)
  have z: "mb_len m3 = 0 \<longleftrightarrow> length d \<le> n" using m3(4) by (auto simp: c_def unat_eq_zero)
  show ?thesis
  proof (cases "length d \<le> n")
    case True
    then show ?thesis using r z by simp
  next
    case False
    then have "c = n" by (simp add: c_def)
    then show ?thesis using r z False m3 by simp
  qed
qed

lemma tcp_recvmsg_psh:
  assumes "i < length (n_tcbs w)" "buf_que (tcb i w) = m # ms" "mb_ok m" "mb_bytes m = h @ d" "length h = 40"
    "bit (h ! 33) 3" "tc_errno (tcb i w) = 0" "0 < n" "0 < fuel"
  shows "\<exists>w'. tcp_recvmsg fuel cur i n w = Some (RecvData (take n d), w') \<and> length (n_tcbs w') = length (n_tcbs w)
    \<and> tc_errno (tcb i w') = 0
    \<and> (if length d \<le> n then buf_que (tcb i w') = ms
       else \<exists>m'. buf_que (tcb i w') = m' # ms \<and> mb_ok m' \<and> mb_bytes m' = drop n d)"
proof -
  obtain f where f: "fuel = Suc f" using assms(9) by (cases fuel) auto
  obtain t' w' where r: "tcp_recv_round n (tcb i w) w = Some (take n d, bit (h ! 33) 3, t', w')" "tc_errno t' = tc_errno (tcb i w)"
    "n_tcbs w' = n_tcbs w"
    "if length d \<le> n then buf_que t' = ms else \<exists>m'. buf_que t' = m' # ms \<and> mb_ok m' \<and> mb_bytes m' = drop n d"
    using tcp_recv_round_ok [OF assms(2-5)] by blast
  have "tcp_recvmsg fuel cur i n w = Some (RecvData (take n d), tcb_put i t' w')"
    using f r(1) assms(2,6-8) by (simp add: tcp_recvmsg_def)
  moreover have "tcb i (tcb_put i t' w') = t'" using r(3) assms(1) by (simp add: tcb_put_def tcb_def)
  moreover have "length (n_tcbs (tcb_put i t' w')) = length (n_tcbs w)" using r(3) by (simp add: tcb_put_def)
  ultimately show ?thesis using r(2,4) assms(7) by auto
qed



end
