(* ===== verification/Net_Tcp_Tx.thy ===== *)
theory Net_Tcp_Tx
  imports Net_Tcp_Rx
begin

text \<open>
  What a TCP socket sends: over any sequence of send calls and acknowledgements the data leave in
  order, once, in segments of at most the maximum segment size with consecutive sequence numbers.
\<close>

datatype tx_op = TxSend "u8 list" | TxAck tcpseg_t

fun tx_step :: "nat \<Rightarrow> tx_op \<Rightarrow> net_t \<Rightarrow> net_t option" where
  "tx_step i (TxSend d) w = do { (n, w) \<leftarrow> tcp_sendmsg i d w; Some w }"
| "tx_step i (TxAck g) w = do { (t, w) \<leftarrow> tcp_x_ack g (tcb i w) w; Some (tcb_put i t w) }"

fun tx_data :: "tx_op \<Rightarrow> u8 list" where
  "tx_data (TxSend d) = d"
| "tx_data (TxAck g) = []"

fun tx_op_ok :: "tx_op \<Rightarrow> bool" where
  "tx_op_ok (TxSend d) \<longleftrightarrow> True"
| "tx_op_ok (TxAck g) \<longleftrightarrow> hd_ack g"

section \<open>Segments\<close>

definition que_data :: "mbuf_t list \<Rightarrow> u8 list" where
  "que_data ms = concat (map mb_bytes ms)"

definition seg_buf :: "nat \<Rightarrow> mbuf_t \<Rightarrow> bool" where
  "seg_buf mss m \<longleftrightarrow> mb_ok m \<and> 40 \<le> mb_head m \<and> mb_dlen m = mb_len m \<and> unat (mb_len m) \<le> mss \<and> mb_len m \<noteq> 0"

definition tx_ok :: "tcp_t \<Rightarrow> bool" where
  "tx_ok t \<longleftrightarrow> 0 < tc_mss t \<and> tc_mss t \<le> 1920 \<and> tc_mss t \<le> unat (snd_iss t) \<and> tc_shutdown t AND TCP_SHUT_WR = 0
     \<and> tc_state t \<noteq> SYN_RCVD \<and> (\<forall>m\<in>set (snd_que t). seg_buf (tc_mss t) m)"

text \<open>\<open>p\<close> is a packet of the connection with this sequence number and these data.\<close>

definition tx_packet :: "tcp_t \<Rightarrow> u32 \<times> u8 list \<Rightarrow> u8 list \<Rightarrow> bool" where
  "tx_packet t qd p \<longleftrightarrow>
     is_packet (tc_nip t) (tc_raddr t) (tc_lport t) (tc_rport t) (fst qd) (rcv_nxt t) TCP_F_ACK (snd qd) p"

fun contig :: "u32 \<Rightarrow> (u32 \<times> u8 list) list \<Rightarrow> u32 \<Rightarrow> bool" where
  "contig a [] b \<longleftrightarrow> a = b"
| "contig a ((q, d) # gs) b \<longleftrightarrow> q = a \<and> contig (a + of_nat (length d)) gs b"

lemma contig_append: "contig a gs b \<Longrightarrow> contig b hs c \<Longrightarrow> contig a (gs @ hs) c"
  by (induction a gs b rule: contig.induct) auto

text \<open>The segments \<open>gs\<close> leave as the packets \<open>ps\<close> while the control block goes from \<open>t\<close> to \<open>t'\<close>.\<close>

definition emits :: "tcp_t \<Rightarrow> (u32 \<times> u8 list) list \<Rightarrow> u8 list list \<Rightarrow> tcp_t \<Rightarrow> bool" where
  "emits t gs ps t' \<longleftrightarrow> tx_same t t' \<and> tc_state t' = tc_state t \<and> list_all2 (tx_packet t) gs ps
     \<and> contig (snd_nxt t) gs (snd_nxt t') \<and> list_all (\<lambda>g. length (snd g) \<le> tc_mss t) gs"

lemma tx_same_packet: "tx_same t t' \<Longrightarrow> tx_packet t' = tx_packet t"
  by (intro ext) (simp add: tx_packet_def tx_same_def)

lemma tx_same_mss: "tx_same t t' \<Longrightarrow> tc_mss t' = tc_mss t"
  by (simp add: tx_same_def)

lemma emits_trans:
  assumes "emits t gs ps t1" "emits t1 hs qs t2"
  shows "emits t (gs @ hs) (ps @ qs) t2"
proof -
  have s: "tx_same t t1" "tx_same t1 t2" using assms by (simp_all add: emits_def)
  show ?thesis
    using assms tx_same_trans [OF s] contig_append tx_same_packet [OF s(1)] tx_same_mss [OF s(1)]
    by (auto simp: emits_def list_all2_appendI)
qed

lemma emits_refl: "tx_same t t' \<Longrightarrow> tc_state t' = tc_state t \<Longrightarrow> snd_nxt t' = snd_nxt t \<Longrightarrow> emits t [] [] t'"
  by (simp add: emits_def)

lemma emits_tx_ok:
  assumes "emits t gs ps t'" "tx_ok t" "\<forall>m\<in>set (snd_que t'). seg_buf (tc_mss t) m"
  shows "tx_ok t'"
  using assms by (simp add: tx_ok_def emits_def tx_same_def)

lemma seg_buf_que_ok: "\<forall>m\<in>set ms. seg_buf k m \<Longrightarrow> que_ok ms"
  by (simp add: que_ok_def seg_buf_def)

section \<open>Cutting data into segments\<close>

lemma stray_dlen_ge:
  assumes "n \<le> unat (snd_iss t)" "n \<le> 1920"
  shows "\<not> stray_dlen t < of_nat n"
proof -
  have "take_bit 32 (stray_dlen t) = ucast (snd_iss t)"
    by (rule bit_word_eqI) (auto simp: stray_dlen_def bit_simps dest: bit_imp_le_length)
  then have "unat (stray_dlen t) mod 2 ^ 32 = unat (ucast (snd_iss t) :: u64)"
    by (metis take_bit_eq_mod unsigned_take_bit_eq)
  moreover have "unat (ucast (snd_iss t) :: u64) = unat (snd_iss t)" by (rule unat_ucast_up) simp
  ultimately have "unat (snd_iss t) \<le> unat (stray_dlen t)" using mod_less_eq_dividend by metis
  moreover have "unat (of_nat n :: u64) = n" using assms(2) by (intro unat_of_nat_lt) simp
  ultimately show ?thesis using assms(1) by (simp add: word_less_nat_alt)
qed

lemma tcp_makeseg_ok:
  assumes "host_ok w" "tx_ok t"
  shows "\<exists>ms w'. tcp_makeseg d t w = Some (t\<lparr>snd_que := snd_que t @ ms\<rparr>, w') \<and> sends w [] w'
    \<and> (\<forall>m\<in>set ms. seg_buf (tc_mss t) m) \<and> que_data ms = d"
  using assms
proof (induction "length d" arbitrary: d t w rule: less_induct)
  case less
  show ?case
  proof (cases "d = []")
    case True
    then show ?thesis using less.prems by (subst tcp_makeseg.simps) (auto simp: que_data_def intro!: exI [of _ "[]"])
  next
    case False
    have t: "0 < tc_mss t" "tc_mss t \<le> 1920" "tc_mss t \<le> unat (snd_iss t)" using less.prems(2) by (simp_all add: tx_ok_def)
    obtain m w1 where m: "tcp_mbuf w = (m, w1)" "sends w [] w1" "mb_ok m" "mb_head m = 128" "mb_len m = 0" "mb_dlen m = 0" "mb_bytes m = []"
      using tcp_mbuf_ok [OF less.prems(1)] .
    define c where "c = min (length d) (tc_mss t)"
    have c: "0 < c" "c \<le> tc_mss t" "c \<le> length d" using False t(1) by (auto simp: c_def)
    have "unat (of_nat (tc_mss t) :: u64) = tc_mss t" using t(2) by (intro unat_of_nat_lt) simp
    then have cc: "min (min (length d) (tc_mss t)) (unat (of_nat (tc_mss t) - mb_dlen m)) = c" using m(6) by (simp add: c_def)
    have lc: "length (take c d) = c" using c(3) by simp
    have fit: "mb_head m + unat (mb_len m) + length (take c d) \<le> MBUF_SIZE" using m(4,5) c(2) t(2) lc by (simp add: MBUF_SIZE_def)
    obtain m' where m': "mb_write (fst (mbuf_put c m)) (take c d) (snd (mbuf_put c m)) = Some m'" "mb_ok m'" "mb_head m' = 128"
      "mb_bytes m' = take c d" "mb_dlen m' = of_nat c" "mb_len m' = of_nat c"
      using mbuf_put_write [OF m(3) fit] m(4-7) unfolding lc by auto
    have uc: "unat (of_nat c :: u64) = c" using c(2) t(2) by (intro unat_of_nat_lt) simp
    have sb: "seg_buf (tc_mss t) m'" using m' uc c by (auto simp: seg_buf_def)
    let ?t = "t\<lparr>snd_que := snd_que t @ [m']\<rparr>"
    have step: "tcp_makeseg d t w = tcp_makeseg (drop c d) ?t w1"
      using False stray_dlen_ge [OF t(3,2)] m(1) c(1) m'(1) cc
      by (subst tcp_makeseg.simps) (simp add: Let_def case_prod_beta)
    have "length (drop c d) < length d" using c(1) False by simp
    moreover have "host_ok w1" using sends_host [OF m(2) less.prems(1)] .
    moreover have "tx_ok ?t" using less.prems(2) sb by (auto simp: tx_ok_def)
    ultimately obtain ms w' where i: "tcp_makeseg (drop c d) ?t w1 = Some (?t\<lparr>snd_que := snd_que ?t @ ms\<rparr>, w')" "sends w1 [] w'"
      "\<forall>m\<in>set ms. seg_buf (tc_mss ?t) m" "que_data ms = drop c d"
      using less.hyps by blast
    have "que_data (m' # ms) = d" using i(4) m'(4) by (simp add: que_data_def)
    then show ?thesis
      using step i(1,3) sb sends_trans [OF m(2) i(2)] by (intro exI [of _ "m' # ms"] exI [of _ w']) simp
  qed
qed

section \<open>Transmission\<close>

lemma tcp_xmit_loop_emits:
  "host_ok w \<Longrightarrow> \<forall>m\<in>set ms. seg_buf (tc_mss t) m \<Longrightarrow>
     \<exists>t' w' gs ps. tcp_xmit_loop ms t w = Some (t', w') \<and> emits t gs ps t' \<and> sends w ps w'
       \<and> concat (map snd gs) @ que_data (snd_que t') = que_data ms \<and> set (snd_que t') \<subseteq> set ms
       \<and> (ms \<noteq> [] \<longrightarrow> length (snd_que t') < length ms)"
proof (induction ms arbitrary: t w)
  case Nil
  have "emits t [] [] (t\<lparr>snd_que := []\<rparr>)" by (rule emits_refl) (simp_all add: tx_same_def)
  then show ?case using Nil by (auto simp: que_data_def intro!: exI [of _ "[]"])
next
  case (Cons m ms)
  have m: "mb_ok m" "40 \<le> mb_head m" "mb_dlen m = mb_len m" "unat (mb_len m) \<le> tc_mss t" "mb_dlen m \<noteq> 0"
    using Cons.prems(2) by (simp_all add: seg_buf_def)
  let ?t = "t\<lparr>snd_que := ms, snd_nxt := snd_nxt t + ucast (mb_dlen m)\<rparr>"
  obtain m1 w1 p where m1: "tcp_tx_seg m (t\<lparr>snd_que := ms\<rparr>) w = Some (m1, ?t, w1)" "sends w [p] w1" "mb_dlen m1 = mb_dlen m"
    "is_packet (tc_nip t) (tc_raddr t) (tc_lport t) (tc_rport t) (snd_nxt t) (rcv_nxt t) TCP_F_ACK (mb_bytes m) p"
    using tcp_tx_seg_sends [OF Cons.prems(1) m(1,2), of "t\<lparr>snd_que := ms\<rparr>"] by auto
  let ?t1 = "?t\<lparr>una_que := una_que t @ [m1]\<rparr>"
  have "(ucast (mb_dlen m) :: u32) = of_nat (length (mb_bytes m))" using length_mb_bytes [OF m(1)] m(3) by (metis of_nat_unat)
  then have e: "emits t [(snd_nxt t, mb_bytes m)] [p] ?t1"
    using m1(4) m(4) length_mb_bytes [OF m(1)] by (simp add: emits_def tx_same_def tx_packet_def)
  show ?case
  proof (cases "tc_nagle t")
    case True
    then have "tcp_xmit_loop (m # ms) t w = Some (?t1, w1)" using m1(1,3) m(5) by simp
    moreover have "concat (map snd [(snd_nxt t, mb_bytes m)]) @ que_data (snd_que ?t1) = que_data (m # ms)" by (simp add: que_data_def)
    ultimately show ?thesis using e m1(2) by fastforce
  next
    case False
    then have l: "tcp_xmit_loop (m # ms) t w = tcp_xmit_loop ms ?t1 w1" using m1(1) by simp
    have "host_ok w1" using Cons.prems m1(2) sends_host by blast
    moreover have "\<forall>m\<in>set ms. seg_buf (tc_mss ?t1) m" using Cons.prems(2) by simp
    ultimately obtain t' w' gs ps where i: "tcp_xmit_loop ms ?t1 w1 = Some (t', w')" "emits ?t1 gs ps t'" "sends w1 ps w'"
      "concat (map snd gs) @ que_data (snd_que t') = que_data ms" "set (snd_que t') \<subseteq> set ms"
      "ms \<noteq> [] \<longrightarrow> length (snd_que t') < length ms"
      using Cons.IH [of w1 ?t1] by blast
    have "length (snd_que t') < length (m # ms)"
      using i(5,6) by (cases ms) auto
    moreover have "concat (map snd ((snd_nxt t, mb_bytes m) # gs)) @ que_data (snd_que t') = que_data (m # ms)"
      using i(4) by (simp add: que_data_def)
    ultimately show ?thesis
      using l i(1,5) emits_trans [OF e i(2)] sends_trans [OF m1(2) i(3)]
      by (intro exI [of _ t'] exI [of _ w'] exI [of _ "(snd_nxt t, mb_bytes m) # gs"] exI [of _ "p # ps"]) auto
  qed
qed

lemma tcp_do_xmit_emits:
  assumes "host_ok w" "tx_ok t"
  shows "\<exists>t' w' gs ps. tcp_do_xmit t w = Some (t', w') \<and> emits t gs ps t' \<and> sends w ps w' \<and> tx_ok t'
    \<and> concat (map snd gs) @ que_data (snd_que t') = que_data (snd_que t)
    \<and> (snd_que t \<noteq> [] \<and> \<not> snd_una t < snd_nxt t - 1 \<longrightarrow> length (snd_que t') < length (snd_que t))"
proof (cases "tc_nagle t \<and> snd_una t < snd_nxt t - 1")
  case True
  have "emits t [] [] t" by (simp add: emits_refl)
  then show ?thesis using True assms by (fastforce simp: tcp_do_xmit_def intro!: exI [of _ "[]"])
next
  case False
  have q: "\<forall>m\<in>set (snd_que t). seg_buf (tc_mss (tcp_rm_dly t)) m" using assms(2) by (simp add: tx_ok_def tcp_rm_dly_def)
  have e0: "emits t [] [] (tcp_rm_dly t)" by (rule emits_refl) (simp_all add: tcp_rm_dly_def tx_same_def)
  obtain t1 w1 gs ps where l: "tcp_xmit_loop (snd_que t) (tcp_rm_dly t) w = Some (t1, w1)" "emits (tcp_rm_dly t) gs ps t1"
    "sends w ps w1" "concat (map snd gs) @ que_data (snd_que t1) = que_data (snd_que t)" "set (snd_que t1) \<subseteq> set (snd_que t)"
    "snd_que t \<noteq> [] \<longrightarrow> length (snd_que t1) < length (snd_que t)"
    using tcp_xmit_loop_emits [OF assms(1) q] by blast
  have e: "emits t gs ps t1" using emits_trans [OF e0 l(2)] by simp
  have "\<forall>m\<in>set (snd_que t1). seg_buf (tc_mss t) m" using l(5) q by (auto simp: tcp_rm_dly_def)
  then have ok: "tx_ok t1" using emits_tx_ok [OF e assms(2)] by blast
  then have "tcp_do_xmit t w = Some (t1, w1)" using l(1) False by (auto simp: tcp_do_xmit_def tx_ok_def)
  then show ?thesis using e l ok by blast
qed

section \<open>Send calls and acknowledgements\<close>

lemma tcb_put_tcb [simp]: "i < length (n_tcbs w) \<Longrightarrow> tcb i (tcb_put i t w) = t"
  by (simp add: tcb_put_def tcb_def)

lemma tcb_put_fields [simp]:
  "n_out (tcb_put i t w) = n_out w" "length (n_tcbs (tcb_put i t w)) = length (n_tcbs w)" "host_ok (tcb_put i t w) = host_ok w"
  by (simp_all add: tcb_put_def host_ok_def)

lemma send_emits:
  assumes w: "host_ok w" "i < length (n_tcbs w)" and t: "tx_ok (tcb i w)"
  shows "\<exists>w' gs ps. tx_step i (TxSend d) w = Some w' \<and> host_ok w' \<and> length (n_tcbs w') = length (n_tcbs w)
    \<and> tx_ok (tcb i w') \<and> emits (tcb i w) gs ps (tcb i w') \<and> n_out w' = n_out w @ ps
    \<and> concat (map snd gs) @ que_data (snd_que (tcb i w')) = que_data (snd_que (tcb i w)) @ d"
proof -
  let ?t = "tcb i w"
  obtain ms w1 where m: "tcp_makeseg d ?t w = Some (?t\<lparr>snd_que := snd_que ?t @ ms\<rparr>, w1)" "sends w [] w1"
    "\<forall>m\<in>set ms. seg_buf (tc_mss ?t) m" "que_data ms = d"
    using tcp_makeseg_ok [OF w(1) t] by blast
  let ?t1 = "?t\<lparr>snd_que := snd_que ?t @ ms\<rparr>"
  have e: "emits ?t [] [] ?t1" by (rule emits_refl) (simp_all add: tx_same_def)
  have ok: "tx_ok ?t1" using t m(3) by (auto simp: tx_ok_def)
  have w1: "host_ok w1" by (rule sends_host [OF m(2) w(1)])
  obtain t' w' gs ps where x: "tcp_do_xmit ?t1 w1 = Some (t', w')" "emits ?t1 gs ps t'" "sends w1 ps w'" "tx_ok t'"
    "concat (map snd gs) @ que_data (snd_que t') = que_data (snd_que ?t1)"
    using tcp_do_xmit_emits [OF w1 ok] by blast
  have s: "tx_step i (TxSend d) w = Some (tcb_put i t' w')" using m(1) x(1) by (simp add: tcp_sendmsg_def)
  have n: "n_tcbs w' = n_tcbs w" "n_out w' = n_out w @ ps" "host_ok w'"
    using sends_fields [OF m(2)] sends_fields [OF x(3)] sends_host [OF x(3) w1] by simp_all
  have "que_data (snd_que ?t1) = que_data (snd_que ?t) @ d" using m(4) by (simp add: que_data_def)
  then show ?thesis
    using s x(4,5) emits_trans [OF e x(2)] n w(2)
    by (intro exI [of _ "tcb_put i t' w'"] exI [of _ gs] exI [of _ ps]) simp
qed

lemma ack_emits:
  assumes w: "host_ok w" "i < length (n_tcbs w)" and t: "tx_ok (tcb i w)" and g: "hd_ack g"
  shows "\<exists>w' gs ps. tx_step i (TxAck g) w = Some w' \<and> host_ok w' \<and> length (n_tcbs w') = length (n_tcbs w)
    \<and> tx_ok (tcb i w') \<and> emits (tcb i w) gs ps (tcb i w') \<and> n_out w' = n_out w @ ps
    \<and> concat (map snd gs) @ que_data (snd_que (tcb i w')) = que_data (snd_que (tcb i w))
    \<and> (snd_que (tcb i w) \<noteq> [] \<and> h_acknr (sg_hdr g) = snd_nxt (tcb i w)
        \<and> \<not> TCP_SEQ_LE (snd_nxt (tcb i w)) (snd_una (tcb i w)) \<and> snd_nxt (tcb i w) \<noteq> 0
        \<longrightarrow> length (snd_que (tcb i w')) < length (snd_que (tcb i w)))"
proof -
  let ?t = "tcb i w" and ?a = "h_acknr (sg_hdr g)"
  consider "TCP_SEQ_LE ?a (snd_una ?t)" | "\<not> TCP_SEQ_LE ?a (snd_una ?t)" "TCP_SEQ_LT (snd_nxt ?t) ?a"
    | "\<not> TCP_SEQ_LE ?a (snd_una ?t)" "\<not> TCP_SEQ_LT (snd_nxt ?t) ?a" by blast
  then show ?thesis
  proof cases
    case 1
    then have "tx_step i (TxAck g) w = Some (tcb_put i ?t w)" using g by (simp add: tcp_x_ack_def Let_def)
    moreover have "emits ?t [] [] ?t" by (simp add: emits_refl)
    ultimately show ?thesis using w t 1 by (intro exI [of _ "tcb_put i ?t w"] exI [of _ "[]"]) auto
  next
    case 2
    obtain w1 p where a: "tcp_tx_ack ?t w = Some w1" "sends w [p] w1" "tx_packet ?t (snd_nxt ?t, []) p"
      using tcp_tx_ack_sends [OF w(1), of ?t] t by (auto simp: tx_ok_def tx_packet_def)
    have "tx_step i (TxAck g) w = Some (tcb_put i ?t w1)" using g 2 a(1) by (simp add: tcp_x_ack_def Let_def)
    moreover have "emits ?t [(snd_nxt ?t, [])] [p] ?t" using a(3) by (simp add: emits_def)
    moreover have "\<not> TCP_SEQ_LT x x" for x by (simp add: TCP_SEQ_LT_def)
    ultimately show ?thesis
      using w t 2 sends_fields [OF a(2)] sends_host [OF a(2)]
      by (intro exI [of _ "tcb_put i ?t w1"] exI [of _ "[(snd_nxt ?t, [])]"] exI [of _ "[p]"]) auto
  next
    case 3
    let ?t1 = "?t\<lparr>una_que := filter (\<lambda>m. \<not> mb_id m < ucast ?a) (una_que ?t), snd_una := ?a\<rparr>"
    have e: "emits ?t [] [] ?t1" by (rule emits_refl) (simp_all add: tx_same_def)
    have ok: "tx_ok ?t1" using t by (simp add: tx_ok_def)
    obtain t' w' gs ps where x: "tcp_do_xmit ?t1 w = Some (t', w')" "emits ?t1 gs ps t'" "sends w ps w'" "tx_ok t'"
      "concat (map snd gs) @ que_data (snd_que t') = que_data (snd_que ?t1)"
      "snd_que ?t1 \<noteq> [] \<and> \<not> snd_una ?t1 < snd_nxt ?t1 - 1 \<longrightarrow> length (snd_que t') < length (snd_que ?t1)"
      using tcp_do_xmit_emits [OF w(1) ok] by blast
    have s: "tx_step i (TxAck g) w = Some (tcb_put i t' w')" using g 3 x(1) by (simp add: tcp_x_ack_def Let_def)
    have n: "n_tcbs w' = n_tcbs w" "n_out w' = n_out w @ ps" "host_ok w'"
      using sends_fields [OF x(3)] sends_host [OF x(3) w(1)] by simp_all
    have "\<not> z < z - 1" if "z \<noteq> 0" for z :: u32
      using that by (metis leD measure_unat order_less_imp_le word_less_nat_alt)
    then have "snd_que ?t \<noteq> [] \<and> ?a = snd_nxt ?t \<and> snd_nxt ?t \<noteq> 0 \<longrightarrow> length (snd_que t') < length (snd_que ?t)"
      using x(6) by auto
    then show ?thesis
      using s x(4,5) emits_trans [OF e x(2)] n w(2)
      by (intro exI [of _ "tcb_put i t' w'"] exI [of _ gs] exI [of _ ps]) simp
  qed
qed

lemma op_emits:
  assumes "host_ok w" "i < length (n_tcbs w)" "tx_ok (tcb i w)" "tx_op_ok op"
  shows "\<exists>w' gs ps. tx_step i op w = Some w' \<and> host_ok w' \<and> length (n_tcbs w') = length (n_tcbs w)
    \<and> tx_ok (tcb i w') \<and> emits (tcb i w) gs ps (tcb i w') \<and> n_out w' = n_out w @ ps
    \<and> concat (map snd gs) @ que_data (snd_que (tcb i w')) = que_data (snd_que (tcb i w)) @ tx_data op"
proof (cases op)
  case (TxSend d)
  then show ?thesis using send_emits [OF assms(1-3), of d] by (simp only: tx_data.simps)
next
  case (TxAck g)
  then have "hd_ack g" using assms(4) by simp
  from ack_emits [OF assms(1-3) this] show ?thesis unfolding TxAck tx_data.simps append_Nil2 by blast
qed

text \<open>
  C7: over any sequence of send calls and acknowledgements on a connection that is not being shut down, all packets that leave are segments
  of the connection, each with at most the maximum segment size and with a sequence number that continues the one before; the data
  in them, followed by the data still queued, are the data of the send calls, in order and
  without loss or repetition.
\<close>

theorem tcp_tx_stream:
  assumes "host_ok w" "i < length (n_tcbs w)" "tx_ok (tcb i w)" "list_all tx_op_ok ops"
  shows "\<exists>w' gs ps. foldM (tx_step i) ops w = Some w' \<and> n_out w' = n_out w @ ps
    \<and> list_all2 (tx_packet (tcb i w)) gs ps \<and> contig (snd_nxt (tcb i w)) gs (snd_nxt (tcb i w'))
    \<and> list_all (\<lambda>g. length (snd g) \<le> tc_mss (tcb i w)) gs
    \<and> concat (map snd gs) @ que_data (snd_que (tcb i w')) = que_data (snd_que (tcb i w)) @ concat (map tx_data ops)"
proof -
  have "\<exists>w' gs ps. foldM (tx_step i) ops w = Some w' \<and> emits (tcb i w) gs ps (tcb i w') \<and> n_out w' = n_out w @ ps
      \<and> concat (map snd gs) @ que_data (snd_que (tcb i w')) = que_data (snd_que (tcb i w)) @ concat (map tx_data ops)"
    using assms
  proof (induction ops arbitrary: w)
    case Nil
    then show ?case by (auto simp: emits_refl intro!: exI [of _ "[]"])
  next
    case (Cons op ops)
    obtain w1 gs ps where 1: "tx_step i op w = Some w1" "host_ok w1" "length (n_tcbs w1) = length (n_tcbs w)" "tx_ok (tcb i w1)"
      "emits (tcb i w) gs ps (tcb i w1)" "n_out w1 = n_out w @ ps"
      "concat (map snd gs) @ que_data (snd_que (tcb i w1)) = que_data (snd_que (tcb i w)) @ tx_data op"
      using op_emits [OF Cons.prems(1-3), of op] Cons.prems(4) by auto
    have "i < length (n_tcbs w1)" "list_all tx_op_ok ops" using 1(3) Cons.prems(2,4) by simp_all
    then obtain w2 hs qs where 2: "foldM (tx_step i) ops w1 = Some w2" "emits (tcb i w1) hs qs (tcb i w2)" "n_out w2 = n_out w1 @ qs"
      "concat (map snd hs) @ que_data (snd_que (tcb i w2)) = que_data (snd_que (tcb i w1)) @ concat (map tx_data ops)"
      using Cons.IH [OF 1(2) _ 1(4)] by blast
    have "concat (map snd (gs @ hs)) @ que_data (snd_que (tcb i w2)) = que_data (snd_que (tcb i w)) @ concat (map tx_data (op # ops))"
    proof -
      let ?q = "\<lambda>w. que_data (snd_que (tcb i w))"
      have "concat (map snd (gs @ hs)) @ ?q w2 = concat (map snd gs) @ concat (map snd hs) @ ?q w2" by simp
      also have "\<dots> = (concat (map snd gs) @ ?q w1) @ concat (map tx_data ops)" by (simp only: 2(4) append_assoc)
      also have "\<dots> = (?q w @ tx_data op) @ concat (map tx_data ops)" by (simp only: 1(7))
      finally show ?thesis by simp
    qed
    then show ?case
      using 1(1,6) 2(1,3) emits_trans [OF 1(5) 2(2)]
      by (intro exI [of _ w2] exI [of _ "gs @ hs"] exI [of _ "ps @ qs"]) simp
  qed
  then show ?thesis unfolding emits_def by blast
qed


text \<open>A send call of three bytes on a fresh connection, and the acknowledgement of its data while two more bytes wait.\<close>

theorem tcp_tx_stream_witness:
  "tx_ok sample_tcb
    \<and> (\<exists>w' gs ps. foldM (tx_step 0) [TxSend [1, 2, 3], TxAck (sample_seg 501 1004 TCP_F_ACK []), TxSend [4]] (sample_host 1 sample_tcb) = Some w'
         \<and> n_out w' = ps \<and> list_all2 (tx_packet sample_tcb) gs ps
         \<and> concat (map snd gs) @ que_data (snd_que (tcb 0 w')) = [1, 2, 3, 4])"
proof -
  have "tx_ok sample_tcb" by (simp add: tx_ok_def sample_tcb_def)
  moreover have "hd_ack (sample_seg 501 1004 TCP_F_ACK [])" by (simp add: sample_seg_def TCP_F_ACK_def bit_simps)
  moreover have "que_data (snd_que sample_tcb) = []" by (simp add: sample_tcb_def que_data_def)
  ultimately show ?thesis
    using tcp_tx_stream [of "sample_host 1 sample_tcb" 0 "[TxSend [1, 2, 3], TxAck (sample_seg 501 1004 TCP_F_ACK []), TxSend [4]]"]
    by auto
qed


end
