(* ===== verification/Net_Tcp_Open.thy ===== *)
theory Net_Tcp_Open
  imports Net_Tcp_Rx
begin

text \<open>
  Opening a connection: the three-way handshake between two hosts, over the packets on the wire.
\<close>

section \<open>Arrival of a packet\<close>

definition arrives :: "u8 list \<Rightarrow> mbuf_t \<Rightarrow> bool" where
  "arrives p r \<longleftrightarrow> mb_ok r \<and> (\<exists>pad. mb_bytes r = p @ pad)"

lemma find_unique:
  assumes "k \<in> set xs" "P k" "\<forall>j\<in>set xs. P j \<longrightarrow> j = k"
  shows "find P xs = Some k"
proof -
  have "find P xs \<noteq> None" using assms(1,2) by (auto simp: find_None_iff)
  then obtain j where j: "find P xs = Some j" by blast
  then have "j \<in> set xs" "P j" by (auto simp: find_Some_iff)
  then show ?thesis using j assms(3) by blast
qed

lemma find_none: "\<forall>j\<in>set xs. \<not> P j \<Longrightarrow> find P xs = None"
  by (simp add: find_None_iff)

definition common_match :: "iphdr_t \<Rightarrow> tcphdr_t \<Rightarrow> net_t \<Rightarrow> nat \<Rightarrow> bool" where
  "common_match ip h w i \<longleftrightarrow> tc_raddr (tcb i w) = i_sip ip \<and> (tc_laddr (tcb i w) = 0 \<or> tc_laddr (tcb i w) = i_dip ip)
     \<and> tc_rport (tcb i w) = h_sport h \<and> tc_lport (tcb i w) = h_dport h"

definition listen_match :: "iphdr_t \<Rightarrow> tcphdr_t \<Rightarrow> net_t \<Rightarrow> nat \<Rightarrow> bool" where
  "listen_match ip h w i \<longleftrightarrow> (tc_laddr (tcb i w) = 0 \<or> tc_laddr (tcb i w) = i_dip ip) \<and> tc_lport (tcb i w) = h_dport h"

lemma find_tcb_match:
  "find_tcb ip h w = (case find (common_match ip h w) (n_common w) of Some i \<Rightarrow> Some i | None \<Rightarrow> find (listen_match ip h w) (n_listen w))"
  unfolding find_tcb_def ip_addr_cmp_def ip_addr_isany_def Let_def common_match_def [abs_def] listen_match_def [abs_def] ..

lemma find_tcb_common:
  assumes "k \<in> set (n_common w)" "common_match ip h w k"
    "\<forall>j\<in>set (n_common w). tc_lport (tcb j w) = h_dport h \<longrightarrow> j = k"
  shows "find_tcb ip h w = Some k"
proof -
  have "\<forall>j\<in>set (n_common w). common_match ip h w j \<longrightarrow> j = k" using assms(3) unfolding common_match_def by blast
  then have "find (common_match ip h w) (n_common w) = Some k" by (rule find_unique [OF assms(1), where P = "common_match ip h w", OF assms(2)])
  then show ?thesis by (simp add: find_tcb_match)
qed

lemma find_tcb_listen:
  assumes "k \<in> set (n_listen w)" "listen_match ip h w k"
    "\<forall>j\<in>set (n_common w). tc_lport (tcb j w) \<noteq> h_dport h" "\<forall>j\<in>set (n_listen w). tc_lport (tcb j w) = h_dport h \<longrightarrow> j = k"
  shows "find_tcb ip h w = Some k"
proof -
  have "\<forall>j\<in>set (n_common w). \<not> common_match ip h w j" using assms(3) unfolding common_match_def by blast
  then have "find (common_match ip h w) (n_common w) = None" by (rule find_none)
  moreover have "\<forall>j\<in>set (n_listen w). listen_match ip h w j \<longrightarrow> j = k" using assms(4) unfolding listen_match_def by blast
  then have "find (listen_match ip h w) (n_listen w) = Some k" by (rule find_unique [OF assms(1), where P = "listen_match ip h w", OF assms(2)])
  ultimately show ?thesis by (simp add: find_tcb_match)
qed

text \<open>A segment without data reaches the socket that the header names.\<close>

lemma host_rx_control:
  assumes p: "is_packet sip dip sport dport seqnr acknr flgs [] p" and r: "arrives p r" and w: "n_nip w = dip"
    and k: "\<And>ip h. i_sip ip = sip \<Longrightarrow> i_dip ip = dip \<Longrightarrow> h_sport h = sport \<Longrightarrow> h_dport h = dport \<Longrightarrow> find_tcb ip h w = Some k"
  obtains g where "host_rx r w = tcp_rx_state k g w" "sg_seqnr g = seqnr" "h_acknr (sg_hdr g) = acknr" "h_flgs (sg_hdr g) = flgs"
    "h_sport (sg_hdr g) = sport" "h_dport (sg_hdr g) = dport" "sg_sip g = sip" "sg_nip g = dip"
    "sg_seqlen g = of_bool (bit flgs 1) + of_bool (bit flgs 0)"
proof -
  obtain pad where "mb_ok r" "mb_bytes r = p @ pad" using r by (auto simp: arrives_def)
  then obtain ip t h u where x: "net_rx_ip dip r = Some (RxTcp ip t)" "i_sip ip = sip" "i_dip ip = dip"
    "tcp_rx_hdr ip t = Some (Some (h, u))" "h_sport h = sport" "h_dport h = dport" "h_seqnr h = seqnr" "h_acknr h = acknr"
    "h_flgs h = flgs" "mb_ok u" "mb_bytes u = []"
    using p unfolding is_packet_def by blast
  have "mb_len u = 0" using length_mb_bytes [OF x(10)] x(11) by (simp add: unat_eq_zero)
  let ?g = "\<lparr>sg_seqnr = h_seqnr h, sg_seqlen = ucast (mb_len u) + of_bool (bit (h_flgs h) 1) + of_bool (bit (h_flgs h) 0),
       sg_sip = i_sip ip, sg_dip = i_dip ip, sg_nip = dip, sg_buf = u\<lparr>mb_id := ucast (h_seqnr h)\<rparr>, sg_hdr = h\<rparr>"
  have "host_rx r w = tcp_rx_state k ?g w"
    using x(1,4) w k [OF x(2,3,5,6)] by (simp add: host_rx_def sock_rx_tcp_def Let_def)
  then show thesis by (rule that) (use x \<open>mb_len u = 0\<close> in simp_all)
qed

section \<open>The steps of the handshake\<close>

lemma flag_bits:
  "bit TCP_F_SYN 1" "\<not> bit TCP_F_SYN 0" "\<not> bit TCP_F_SYN 2" "\<not> bit TCP_F_SYN 4"
  "bit (TCP_F_SYN OR TCP_F_ACK) 1" "\<not> bit (TCP_F_SYN OR TCP_F_ACK) 2" "bit (TCP_F_SYN OR TCP_F_ACK) 4"
  "bit TCP_F_ACK 4" "\<not> bit TCP_F_ACK 1" "\<not> bit TCP_F_ACK 2"
  by (simp_all add: TCP_F_SYN_def TCP_F_ACK_def bit_simps)

lemma tcp_tx_setup_sends:
  assumes "host_ok w"
  shows "\<exists>w' p. tcp_tx_setup t w
      = Some (t\<lparr>snd_iss := tcp_iss w, snd_una := tcp_iss w, snd_nxt := tcp_iss w + 1, tc_state := SYN_SENT\<rparr>, w') \<and> sends w [p] w'
    \<and> is_packet (tc_nip t) (tc_raddr t) (tc_lport t) (tc_rport t) (tcp_iss w) 0 TCP_F_SYN [] p"
proof -
  obtain m w1 m' w' p where "tcp_mbuf w = (m, w1)"
    "tcp_emit (tc_nip t) (tc_raddr t) (tc_lport t) (tc_rport t) (tcp_iss w) 0 TCP_F_SYN TCP_WINDOW m w1 = Some (m', w')" "sends w [p] w'"
    "is_packet (tc_nip t) (tc_raddr t) (tc_lport t) (tc_rport t) (tcp_iss w) 0 TCP_F_SYN [] p"
    by (rule tcp_control_sends [OF assms])
  then show ?thesis by (auto simp: tcp_tx_setup_def Let_def)
qed

lemma tcp_tx_agree_sends:
  assumes "host_ok w"
  shows "\<exists>w' p. tcp_tx_agree t w
      = Some (t\<lparr>snd_iss := tcp_iss w, snd_una := tcp_iss w, snd_nxt := tcp_iss w + 1, tc_state := SYN_RCVD\<rparr>, w') \<and> sends w [p] w'
    \<and> is_packet (tc_nip t) (tc_raddr t) (tc_lport t) (tc_rport t) (tcp_iss w) (rcv_nxt t) (TCP_F_SYN OR TCP_F_ACK) [] p"
proof -
  obtain m w1 m' w' p where "tcp_mbuf w = (m, w1)"
    "tcp_emit (tc_nip t) (tc_raddr t) (tc_lport t) (tc_rport t) (tcp_iss w) (rcv_nxt t) (TCP_F_SYN OR TCP_F_ACK) TCP_WINDOW m w1
       = Some (m', w')" "sends w [p] w'"
    "is_packet (tc_nip t) (tc_raddr t) (tc_lport t) (tc_rport t) (tcp_iss w) (rcv_nxt t) (TCP_F_SYN OR TCP_F_ACK) [] p"
    by (rule tcp_control_sends [OF assms])
  then show ?thesis by (auto simp: tcp_tx_agree_def Let_def)
qed

definition client_ready :: "nat \<Rightarrow> net_t \<Rightarrow> bool" where
  "client_ready i c \<longleftrightarrow> host_ok c \<and> i < length (n_tcbs c) \<and> i \<in> set (n_common c)
     \<and> tc_nip (tcb i c) = n_nip c \<and> (tc_laddr (tcb i c) = 0 \<or> tc_laddr (tcb i c) = n_nip c)
     \<and> tc_rport (tcb i c) = 0 \<and> tc_lport (tcb i c) \<noteq> 0 \<and> syn_waiter (tcb i c) = None
     \<and> (\<forall>j\<in>set (n_common c). tc_lport (tcb j c) = tc_lport (tcb i c) \<longrightarrow> j = i)"

definition server_ready :: "u16 \<Rightarrow> nat \<Rightarrow> net_t \<Rightarrow> bool" where
  "server_ready port l s \<longleftrightarrow> host_ok s \<and> l < length (n_tcbs s) \<and> l \<in> set (n_listen s) \<and> tc_state (tcb l s) = LISTEN
     \<and> tc_nip (tcb l s) = n_nip s \<and> (tc_laddr (tcb l s) = 0 \<or> tc_laddr (tcb l s) = n_nip s) \<and> tc_lport (tcb l s) = port
     \<and> (\<forall>j\<in>set (n_common s). j < length (n_tcbs s) \<and> tc_lport (tcb j s) \<noteq> port)
     \<and> (\<forall>j\<in>set (n_listen s). tc_lport (tcb j s) = port \<longrightarrow> j = l)"

text \<open>A socket that has sent its synchronising segment, and a control block that has answered one.\<close>

definition awaiting :: "nat \<Rightarrow> ipv4_t \<Rightarrow> u16 \<Rightarrow> u16 \<Rightarrow> net_t \<Rightarrow> bool" where
  "awaiting i sip port lport c \<longleftrightarrow> host_ok c \<and> i < length (n_tcbs c) \<and> i \<in> set (n_common c) \<and> tc_state (tcb i c) = SYN_SENT
     \<and> snd_nxt (tcb i c) = snd_iss (tcb i c) + 1 \<and> (tc_laddr (tcb i c) = 0 \<or> tc_laddr (tcb i c) = n_nip c) \<and> tc_nip (tcb i c) = n_nip c
     \<and> tc_raddr (tcb i c) = sip \<and> tc_rport (tcb i c) = port \<and> tc_lport (tcb i c) = lport
     \<and> (\<forall>j\<in>set (n_common c). tc_lport (tcb j c) = lport \<longrightarrow> j = i)"

definition half_open :: "nat \<Rightarrow> nat \<Rightarrow> ipv4_t \<Rightarrow> u16 \<Rightarrow> u16 \<Rightarrow> net_t \<Rightarrow> bool" where
  "half_open k l sip sport port s \<longleftrightarrow> k < length (n_tcbs s) \<and> l < length (n_tcbs s) \<and> l \<noteq> k \<and> k \<in> set (n_common s)
     \<and> tc_state (tcb k s) = SYN_RCVD \<and> tc_ptcp (tcb k s) = Some l \<and> snd_nxt (tcb k s) = snd_una (tcb k s) + 1
     \<and> (tc_laddr (tcb k s) = 0 \<or> tc_laddr (tcb k s) = n_nip s) \<and> tc_raddr (tcb k s) = sip \<and> tc_rport (tcb k s) = sport
     \<and> tc_lport (tcb k s) = port \<and> (\<forall>j\<in>set (n_common s). tc_lport (tcb j s) = port \<longrightarrow> j = k)"

lemma tcb_put_simps:
  "n_out (tcb_put i t w) = n_out w" "n_common (tcb_put i t w) = n_common w" "n_listen (tcb_put i t w) = n_listen w"
  "n_nip (tcb_put i t w) = n_nip w" "n_woken (tcb_put i t w) = n_woken w" "length (n_tcbs (tcb_put i t w)) = length (n_tcbs w)"
  "host_ok (tcb_put i t w) = host_ok w" "i < length (n_tcbs w) \<Longrightarrow> tcb i (tcb_put i t w) = t" "j \<noteq> i \<Longrightarrow> tcb j (tcb_put i t w) = tcb j w"
  by (simp_all add: tcb_put_def tcb_def host_ok_def)

lemma sends_tcb: "sends w ps w' \<Longrightarrow> tcb j w' = tcb j w"
  using sends_fields by (simp add: tcb_def)

lemma connect_step:
  assumes c: "client_ready i c" and port: "port \<noteq> 0"
  obtains c1 p where "tcp_connect cur i dip (htons port) 16 c = Some (None, c1)" "n_out c1 = n_out c @ [p]"
    "is_packet (n_nip c) dip (tc_lport (tcb i c)) port (tcp_iss c) 0 TCP_F_SYN [] p"
    "tcb i c1 = (tcb i c)\<lparr>tc_raddr := dip, tc_rport := port, snd_iss := tcp_iss c, snd_una := tcp_iss c, snd_nxt := tcp_iss c + 1,
       tc_state := SYN_SENT, syn_waiter := Some cur\<rparr>"
    "\<forall>j. j \<noteq> i \<longrightarrow> tcb j c1 = tcb j c" "host_ok c1" "length (n_tcbs c1) = length (n_tcbs c)" "n_common c1 = n_common c"
    "n_nip c1 = n_nip c" "n_woken c1 = n_woken c"
proof -
  let ?t = "(tcb i c)\<lparr>tc_raddr := dip, tc_rport := port\<rparr>"
  have h: "host_ok c" "i < length (n_tcbs c)" "tc_nip (tcb i c) = n_nip c" "tc_rport (tcb i c) = 0" "tc_lport (tcb i c) \<noteq> 0"
    "syn_waiter (tcb i c) = None" using c by (simp_all add: client_ready_def)
  obtain w p where x: "tcp_tx_setup ?t c = Some (?t\<lparr>snd_iss := tcp_iss c, snd_una := tcp_iss c, snd_nxt := tcp_iss c + 1,
       tc_state := SYN_SENT\<rparr>, w)" "sends c [p] w"
    "is_packet (n_nip c) dip (tc_lport (tcb i c)) port (tcp_iss c) 0 TCP_F_SYN [] p"
    using tcp_tx_setup_sends [OF h(1), of ?t] h(3) by auto
  let ?t1 = "?t\<lparr>snd_iss := tcp_iss c, snd_una := tcp_iss c, snd_nxt := tcp_iss c + 1, tc_state := SYN_SENT, syn_waiter := Some cur\<rparr>"
  have "ntohs 0 = 0" by (simp add: ntohs_def)
  then have "htons port \<noteq> 0" using port ntohs_htons [of port] by (auto simp del: ntohs_htons)
  then have r: "tcp_connect cur i dip (htons port) 16 c = Some (None, tcb_put i ?t1 w)"
    using x(1) h(4-6) by (simp add: tcp_connect_def ck_lport_def Let_def)
  note f = sends_fields [OF x(2)] sends_tcb [OF x(2)] sends_host [OF x(2) h(1)]
  show thesis by (rule that [OF r]) (use f x(3) h(2) in \<open>simp_all add: tcb_put_simps\<close>)
qed

lemma handshake_connect:
  assumes c: "client_ready i c" and port: "port \<noteq> 0"
  obtains c1 p where "tcp_connect cur i dip (htons port) 16 c = Some (None, c1)" "n_out c1 = n_out c @ [p]"
    "is_packet (n_nip c) dip (tc_lport (tcb i c)) port (tcp_iss c) 0 TCP_F_SYN [] p"
    "awaiting i dip port (tc_lport (tcb i c)) c1" "snd_nxt (tcb i c1) = tcp_iss c + 1" "syn_waiter (tcb i c1) = Some cur"
    "n_nip c1 = n_nip c" "n_woken c1 = n_woken c"
proof -
  let ?lp = "tc_lport (tcb i c)"
  obtain c1 p1 where c1: "tcp_connect cur i dip (htons port) 16 c = Some (None, c1)" "n_out c1 = n_out c @ [p1]"
    and p1: "is_packet (n_nip c) dip ?lp port (tcp_iss c) 0 TCP_F_SYN [] p1"
    and t1: "tcb i c1 = (tcb i c)\<lparr>tc_raddr := dip, tc_rport := port, snd_iss := tcp_iss c, snd_una := tcp_iss c, snd_nxt := tcp_iss c + 1,
       tc_state := SYN_SENT, syn_waiter := Some cur\<rparr>" "\<forall>j. j \<noteq> i \<longrightarrow> tcb j c1 = tcb j c" "host_ok c1"
       "length (n_tcbs c1) = length (n_tcbs c)" "n_common c1 = n_common c" "n_nip c1 = n_nip c" "n_woken c1 = n_woken c"
    by (rule connect_step [OF assms, of cur dip])
  have i: "i < length (n_tcbs c)" "i \<in> set (n_common c)" "tc_laddr (tcb i c) = 0 \<or> tc_laddr (tcb i c) = n_nip c"
      "tc_nip (tcb i c) = n_nip c" "\<forall>j\<in>set (n_common c). tc_lport (tcb j c) = ?lp \<longrightarrow> j = i"
    using c unfolding client_ready_def by blast+
  have "\<forall>j\<in>set (n_common c1). tc_lport (tcb j c1) = ?lp \<longrightarrow> j = i" using i(5) t1(2) unfolding t1(5) by metis
  then have a: "awaiting i dip port ?lp c1"
    unfolding awaiting_def by (intro conjI) (use i(1-4) in \<open>simp_all add: t1(1,3-6)\<close>)
  show thesis by (rule that [OF c1 p1 a]) (simp_all add: t1)
qed

lemma listen_step:
  assumes s: "server_ready port l s" "tc_backcnt (tcb l s) + 1 = tc_backlog (tcb l s)"
    and g: "h_flgs (sg_hdr g) = TCP_F_SYN"
  obtains s1 p conn t1 where "tcp_rx_state l g s = Some s1" "n_out s1 = n_out s @ [p]"
    "is_packet (n_nip s) (sg_sip g) port (h_sport (sg_hdr g)) (tcp_iss s) (sg_seqnr g + 1) (TCP_F_SYN OR TCP_F_ACK) [] p"
    "tcb (length (n_tcbs s)) s1 = conn" "tcb l s1 = t1" "tc_acpt t1 = tc_acpt (tcb l s)" "tc_lport t1 = port" "syn_waiter t1 = syn_waiter (tcb l s)"
    "tc_state conn = SYN_RCVD" "tc_raddr conn = sg_sip g" "tc_laddr conn = tc_laddr (tcb l s)" "tc_lport conn = port"
    "tc_rport conn = h_sport (sg_hdr g)" "tc_ptcp conn = Some l" "snd_una conn = tcp_iss s" "snd_nxt conn = tcp_iss s + 1"
    "rcv_nxt conn = sg_seqnr g + 1"
    "\<forall>j<length (n_tcbs s). j \<noteq> l \<longrightarrow> tcb j s1 = tcb j s" "host_ok s1" "length (n_tcbs s1) = Suc (length (n_tcbs s))"
    "n_common s1 = length (n_tcbs s) # n_common s" "n_nip s1 = n_nip s" "n_woken s1 = n_woken s"
proof -
  let ?t = "tcb l s" and ?k = "length (n_tcbs s)"
  have h: "host_ok s" "l < ?k" "tc_state ?t = LISTEN" "tc_lport ?t = port" "tc_nip ?t = n_nip s"
    using s(1) by (simp_all add: server_ready_def)
  let ?w = "s\<lparr>n_common := ?k # n_common s\<rparr>"
  let ?conn = "(n_mem s)
          \<lparr>tc_laddr := tc_laddr ?t, tc_raddr := sg_sip g, tc_nip := tc_nip ?t, tc_lport := tc_lport ?t,
           tc_rport := h_sport (sg_hdr g), tc_mss := tc_mss ?t, tc_nagle := True, tc_passive := True,
           tc_ptcp := Some l, tc_state := LISTEN, tc_shutdown := 0, tc_errno := 0,
           snd_que := [], una_que := [], buf_que := [], tmr_ack := None, rx_waiter := None, syn_waiter := None,
           rcv_nxt := sg_seqnr g + 1, rcv_irs := sg_seqnr g\<rparr>"
  have w: "host_ok ?w" "tcp_iss ?w = tcp_iss s" using h(1) by (simp_all add: host_ok_def tcp_iss_def)
  obtain w1 p where x: "tcp_tx_agree ?conn ?w = Some (?conn\<lparr>snd_iss := tcp_iss s, snd_una := tcp_iss s, snd_nxt := tcp_iss s + 1,
      tc_state := SYN_RCVD\<rparr>, w1)" "sends ?w [p] w1"
    "is_packet (n_nip s) (sg_sip g) port (h_sport (sg_hdr g)) (tcp_iss s) (sg_seqnr g + 1) (TCP_F_SYN OR TCP_F_ACK) [] p"
    using tcp_tx_agree_sends [OF w(1), of ?conn] w(2) h(4,5) by auto
  let ?conn1 = "?conn\<lparr>snd_iss := tcp_iss s, snd_una := tcp_iss s, snd_nxt := tcp_iss s + 1, tc_state := SYN_RCVD\<rparr>"
  let ?t1 = "?t\<lparr>tc_backcnt := tc_backcnt ?t + 1, tc_pchd := ?k # tc_pchd ?t\<rparr>"
  have "tcp_rx_listen l g ?t s = Some (?t1, w1\<lparr>n_tcbs := n_tcbs w1 @ [?conn1]\<rparr>)"
    using x(1) s(2) g flag_bits(1-4) unfolding tcp_rx_listen_def by (simp add: Let_def)
  then have r: "tcp_rx_state l g s = Some (tcb_put l ?t1 (w1\<lparr>n_tcbs := n_tcbs w1 @ [?conn1]\<rparr>))"
    using h(3) by (simp add: tcp_rx_state_def tcp_rx_switch_def)
  note f = sends_fields [OF x(2)] sends_host [OF x(2) w(1)]
  show thesis
    by (rule that [OF r, of p ?conn1 ?t1])
      (use f x(3) h in \<open>simp_all add: tcb_put_def tcb_def nth_append host_ok_def\<close>)
qed

lemma sint_one_32: "sint (1 :: u32) = 1" "sint (- 1 :: u32) = - 1"
  by simp_all

lemma sent_step:
  assumes c: "host_ok c" "i < length (n_tcbs c)" "tc_state (tcb i c) = SYN_SENT" "snd_nxt (tcb i c) = snd_iss (tcb i c) + 1"
    and g: "h_flgs (sg_hdr g) = TCP_F_SYN OR TCP_F_ACK" "h_acknr (sg_hdr g) = snd_nxt (tcb i c)"
  obtains c1 p where "tcp_rx_state i g c = Some c1" "n_out c1 = n_out c @ [p]"
    "is_packet (tc_nip (tcb i c)) (tc_raddr (tcb i c)) (tc_lport (tcb i c)) (tc_rport (tcb i c)) (snd_nxt (tcb i c)) (sg_seqnr g + 1)
       TCP_F_ACK [] p"
    "tc_state (tcb i c1) = ESTABLISHED" "rcv_nxt (tcb i c1) = sg_seqnr g + 1" "snd_nxt (tcb i c1) = snd_nxt (tcb i c)"
    "tc_lport (tcb i c1) = tc_lport (tcb i c)" "tc_rport (tcb i c1) = tc_rport (tcb i c)" "tc_raddr (tcb i c1) = tc_raddr (tcb i c)"
    "n_woken c1 = n_woken (try_unblk (syn_waiter (tcb i c)) c)"
proof -
  let ?t = "(tcb i c)\<lparr>rcv_irs := sg_seqnr g, rcv_nxt := sg_seqnr g + 1, snd_una := snd_nxt (tcb i c), tc_state := ESTABLISHED\<rparr>"
  obtain w p where x: "tcp_tx_ack ?t c = Some w" "sends c [p] w"
    "is_packet (tc_nip (tcb i c)) (tc_raddr (tcb i c)) (tc_lport (tcb i c)) (tc_rport (tcb i c)) (snd_nxt (tcb i c)) (sg_seqnr g + 1)
       TCP_F_ACK [] p"
    using tcp_tx_ack_sends [OF c(1), of ?t] by auto
  have "tcp_rx_sent g (tcb i c) c = Some (?t\<lparr>syn_waiter := None\<rparr>, try_unblk (syn_waiter (tcb i c)) w)"
    using x(1) c(4) g flag_bits(5-7) sint_one_32(1) unfolding tcp_rx_sent_def by (simp add: Let_def)
  then have r: "tcp_rx_state i g c = Some (tcb_put i (?t\<lparr>syn_waiter := None\<rparr>) (try_unblk (syn_waiter (tcb i c)) w))"
    using c(3) by (simp add: tcp_rx_state_def tcp_rx_switch_def)
  note f = sends_fields [OF x(2)]
  show thesis
    by (rule that [OF r, of p]) (use f x(3) c(2) in \<open>simp_all add: tcb_put_def tcb_def try_unblk_def split: option.split\<close>)
qed

lemma rcvd_step:
  assumes s: "k < length (n_tcbs s)" "l < length (n_tcbs s)" "l \<noteq> k" "tc_state (tcb k s) = SYN_RCVD" "tc_ptcp (tcb k s) = Some l"
      "snd_nxt (tcb k s) = snd_una (tcb k s) + 1"
    and g: "h_flgs (sg_hdr g) = TCP_F_ACK" "h_acknr (sg_hdr g) = snd_nxt (tcb k s)"
  obtains s1 where "tcp_rx_state k g s = Some s1" "tcb k s1 = (tcb k s)\<lparr>tc_state := ESTABLISHED\<rparr>"
    "tc_acpt (tcb l s1) = k # tc_acpt (tcb l s)" "n_out s1 = n_out s" "n_woken s1 = n_woken (try_unblk (syn_waiter (tcb l s)) s)"
proof -
  let ?t = "(tcb k s)\<lparr>tc_state := ESTABLISHED\<rparr>"
  let ?p = "(tcb l s)\<lparr>tc_acpt := k # tc_acpt (tcb l s), syn_waiter := None\<rparr>"
  have q: "TCP_SEQ_LT (snd_una (tcb k s)) (snd_nxt (tcb k s))" "TCP_SEQ_LE (snd_nxt (tcb k s)) (snd_nxt (tcb k s))"
    using s(6) sint_one_32(2) by (simp_all add: TCP_SEQ_LT_def TCP_SEQ_LE_def)
  have "tcp_rx_rcvd k g (tcb k s) s = Some (?t, try_unblk (syn_waiter (tcb l s)) (tcb_put l ?p s))"
    using q s(5) g flag_bits(8-10) unfolding tcp_rx_rcvd_def by (simp add: Let_def)
  then have r: "tcp_rx_state k g s = Some (tcb_put k ?t (try_unblk (syn_waiter (tcb l s)) (tcb_put l ?p s)))"
    using s(4) by (simp add: tcp_rx_state_def tcp_rx_switch_def)
  show thesis by (rule that [OF r]) (use s(1-3) in \<open>simp_all add: tcb_put_def tcb_def try_unblk_def split: option.split\<close>)
qed

lemma arrives_ex: "is_packet sip dip sport dport seqnr acknr flgs d p \<Longrightarrow> \<exists>r. arrives p r"
  using filled_mbuf_ok [of 0 p] by (auto simp: is_packet_def arrives_def intro!: exI [of _ "filled_mbuf 0 p"])

text \<open>The synchronising segment arrives at the server.\<close>

lemma handshake_server:
  assumes s: "server_ready port l s" "tc_backcnt (tcb l s) + 1 = tc_backlog (tcb l s)"
    and p: "is_packet sip (n_nip s) sport port q 0 TCP_F_SYN [] p" "arrives p r"
  obtains s1 p2 where "host_rx r s = Some s1" "n_out s1 = n_out s @ [p2]"
    "is_packet (n_nip s) sip port sport (tcp_iss s) (q + 1) (TCP_F_SYN OR TCP_F_ACK) [] p2"
    "half_open (length (n_tcbs s)) l sip sport port s1" "snd_nxt (tcb (length (n_tcbs s)) s1) = tcp_iss s + 1"
    "rcv_nxt (tcb (length (n_tcbs s)) s1) = q + 1" "tc_acpt (tcb l s1) = tc_acpt (tcb l s)" "n_nip s1 = n_nip s"
    "n_woken s1 = n_woken s" "syn_waiter (tcb l s1) = syn_waiter (tcb l s)"
proof -
  have k: "find_tcb ip h s = Some l" if "i_dip ip = n_nip s" "h_dport h = port" for ip h
    using s(1) that by (intro find_tcb_listen) (auto simp: server_ready_def listen_match_def)
  obtain g where g: "host_rx r s = tcp_rx_state l g s" "sg_seqnr g = q" "h_flgs (sg_hdr g) = TCP_F_SYN" "h_sport (sg_hdr g) = sport" "sg_sip g = sip"
    using host_rx_control [OF p refl, of l] k by metis
  obtain s1 p2 conn t1 where x: "tcp_rx_state l g s = Some s1" "n_out s1 = n_out s @ [p2]"
    "is_packet (n_nip s) (sg_sip g) port (h_sport (sg_hdr g)) (tcp_iss s) (sg_seqnr g + 1) (TCP_F_SYN OR TCP_F_ACK) [] p2"
    "tcb (length (n_tcbs s)) s1 = conn" "tcb l s1 = t1" "tc_acpt t1 = tc_acpt (tcb l s)" "tc_lport t1 = port" "syn_waiter t1 = syn_waiter (tcb l s)"
    "tc_state conn = SYN_RCVD" "tc_raddr conn = sg_sip g" "tc_laddr conn = tc_laddr (tcb l s)" "tc_lport conn = port"
    "tc_rport conn = h_sport (sg_hdr g)" "tc_ptcp conn = Some l" "snd_una conn = tcp_iss s" "snd_nxt conn = tcp_iss s + 1"
    "rcv_nxt conn = sg_seqnr g + 1"
    and j: "\<forall>j<length (n_tcbs s). j \<noteq> l \<longrightarrow> tcb j s1 = tcb j s" and y: "host_ok s1" "length (n_tcbs s1) = Suc (length (n_tcbs s))"
    "n_common s1 = length (n_tcbs s) # n_common s" "n_nip s1 = n_nip s" "n_woken s1 = n_woken s"
    by (rule listen_step [OF s g(3)])
  have c: "\<forall>j\<in>set (n_common s). j < length (n_tcbs s) \<and> tc_lport (tcb j s) \<noteq> port" and l: "tc_lport (tcb l s) = port" "l < length (n_tcbs s)"
    and a: "tc_laddr (tcb l s) = 0 \<or> tc_laddr (tcb l s) = n_nip s"
    using s(1) by (auto simp: server_ready_def)
  have "tc_lport (tcb j s1) \<noteq> port" if "j \<in> set (n_common s)" for j
    using bspec [OF c that] l(1) j by (cases "j = l") auto
  then have "\<forall>j\<in>set (n_common s1). tc_lport (tcb j s1) = port \<longrightarrow> j = length (n_tcbs s)" using y(3) by auto
  then have h: "half_open (length (n_tcbs s)) l sip sport port s1"
    unfolding half_open_def using g x a l(2) y by simp
  show thesis by (rule that [of s1 p2, OF _ x(2) _ h]) (use g x y in simp_all)
qed

text \<open>The answer arrives at the client that has called \<open>connect\<close>.\<close>

lemma handshake_client:
  assumes c: "awaiting i sip port lport c"
    and p: "is_packet sip (n_nip c) port lport q (snd_nxt (tcb i c)) (TCP_F_SYN OR TCP_F_ACK) [] p" "arrives p r"
  obtains c1 p2 where "host_rx r c = Some c1" "n_out c1 = n_out c @ [p2]"
    "is_packet (n_nip c) sip lport port (snd_nxt (tcb i c)) (q + 1) TCP_F_ACK [] p2"
    "tc_state (tcb i c1) = ESTABLISHED" "rcv_nxt (tcb i c1) = q + 1" "snd_nxt (tcb i c1) = snd_nxt (tcb i c)"
    "tc_lport (tcb i c1) = lport" "tc_rport (tcb i c1) = port" "n_woken c1 = n_woken (try_unblk (syn_waiter (tcb i c)) c)"
proof -
  have a: "host_ok c" "i < length (n_tcbs c)" "i \<in> set (n_common c)" "tc_state (tcb i c) = SYN_SENT"
      "snd_nxt (tcb i c) = snd_iss (tcb i c) + 1" "tc_laddr (tcb i c) = 0 \<or> tc_laddr (tcb i c) = n_nip c" "tc_nip (tcb i c) = n_nip c"
      "tc_raddr (tcb i c) = sip" "tc_rport (tcb i c) = port" "tc_lport (tcb i c) = lport"
      "\<forall>j\<in>set (n_common c). tc_lport (tcb j c) = lport \<longrightarrow> j = i"
    using c unfolding awaiting_def by blast+
  have k: "find_tcb ip h c = Some i" if "i_sip ip = sip" "i_dip ip = n_nip c" "h_sport h = port" "h_dport h = lport" for ip h
    by (rule find_tcb_common [OF a(3)]) (use a(6,8-11) that in \<open>simp_all only: common_match_def simp_thms\<close>)
  obtain g where g: "host_rx r c = tcp_rx_state i g c" "sg_seqnr g = q" "h_acknr (sg_hdr g) = snd_nxt (tcb i c)"
    "h_flgs (sg_hdr g) = TCP_F_SYN OR TCP_F_ACK"
    using host_rx_control [OF p refl, of i] k by metis
  show thesis
    using sent_step [OF a(1,2,4,5) g(4,3)] that unfolding g(1,2) a(7-10) by blast
qed

text \<open>The acknowledgement arrives at the server.\<close>

lemma handshake_done:
  assumes s: "half_open k l sip sport port s"
    and p: "is_packet sip (n_nip s) sport port q (snd_nxt (tcb k s)) TCP_F_ACK [] p" "arrives p r"
  obtains s1 where "host_rx r s = Some s1" "tcb k s1 = (tcb k s)\<lparr>tc_state := ESTABLISHED\<rparr>"
    "tc_acpt (tcb l s1) = k # tc_acpt (tcb l s)" "n_out s1 = n_out s" "n_woken s1 = n_woken (try_unblk (syn_waiter (tcb l s)) s)"
proof -
  have a: "k < length (n_tcbs s)" "l < length (n_tcbs s)" "l \<noteq> k" "k \<in> set (n_common s)" "tc_state (tcb k s) = SYN_RCVD"
      "tc_ptcp (tcb k s) = Some l" "snd_nxt (tcb k s) = snd_una (tcb k s) + 1" "tc_laddr (tcb k s) = 0 \<or> tc_laddr (tcb k s) = n_nip s"
      "tc_raddr (tcb k s) = sip" "tc_rport (tcb k s) = sport" "tc_lport (tcb k s) = port"
      "\<forall>j\<in>set (n_common s). tc_lport (tcb j s) = port \<longrightarrow> j = k"
    using s unfolding half_open_def by blast+
  have f: "find_tcb ip h s = Some k" if "i_sip ip = sip" "i_dip ip = n_nip s" "h_sport h = sport" "h_dport h = port" for ip h
    by (rule find_tcb_common [OF a(4)]) (use a(8-12) that in \<open>simp_all only: common_match_def simp_thms\<close>)
  obtain g where g: "host_rx r s = tcp_rx_state k g s" "h_acknr (sg_hdr g) = snd_nxt (tcb k s)" "h_flgs (sg_hdr g) = TCP_F_ACK"
    using host_rx_control [OF p refl, of k] f by metis
  show thesis using rcvd_step [OF a(1-3,5-7) g(3,2)] that unfolding g(1) by blast
qed

definition connected :: "nat \<Rightarrow> net_t \<Rightarrow> nat \<Rightarrow> net_t \<Rightarrow> bool" where
  "connected i c k s \<longleftrightarrow> tc_state (tcb i c) = ESTABLISHED \<and> tc_state (tcb k s) = ESTABLISHED
     \<and> rcv_nxt (tcb k s) = snd_nxt (tcb i c) \<and> rcv_nxt (tcb i c) = snd_nxt (tcb k s)
     \<and> tc_rport (tcb k s) = tc_lport (tcb i c) \<and> tc_rport (tcb i c) = tc_lport (tcb k s)"

text \<open>
  The packets of the handshake can arrive, and when they do: the third packet makes both ends connected, puts the new control block
  at the front of the accept queue and wakes the task that accepts; the second wakes the
  connecting task and makes the third leave; the first makes the second leave.
\<close>

definition third_ok :: "nat \<Rightarrow> net_t \<Rightarrow> nat \<Rightarrow> net_t \<Rightarrow> net_t \<Rightarrow> u8 list \<Rightarrow> bool" where
  "third_ok i c2 l s s1 p3 \<longleftrightarrow> (\<exists>r. arrives p3 r) \<and> (\<forall>r. arrives p3 r \<longrightarrow>
     (\<exists>s2. host_rx r s1 = Some s2 \<and> connected i c2 (length (n_tcbs s)) s2
        \<and> tc_acpt (tcb l s2) = length (n_tcbs s) # tc_acpt (tcb l s) \<and> n_woken s2 = n_woken (try_unblk (syn_waiter (tcb l s)) s)))"

definition second_ok :: "task_ref \<Rightarrow> nat \<Rightarrow> net_t \<Rightarrow> net_t \<Rightarrow> nat \<Rightarrow> net_t \<Rightarrow> net_t \<Rightarrow> u8 list \<Rightarrow> bool" where
  "second_ok cur i c c1 l s s1 p2 \<longleftrightarrow> (\<exists>r. arrives p2 r) \<and> (\<forall>r. arrives p2 r \<longrightarrow>
     (\<exists>c2 p3. host_rx r c1 = Some c2 \<and> n_out c2 = n_out c1 @ [p3] \<and> n_woken c2 = n_woken c @ [cur] \<and> third_ok i c2 l s s1 p3))"

definition first_ok :: "task_ref \<Rightarrow> nat \<Rightarrow> net_t \<Rightarrow> net_t \<Rightarrow> nat \<Rightarrow> net_t \<Rightarrow> u8 list \<Rightarrow> bool" where
  "first_ok cur i c c1 l s p1 \<longleftrightarrow> (\<exists>r. arrives p1 r) \<and> (\<forall>r. arrives p1 r \<longrightarrow>
     (\<exists>s1 p2. host_rx r s = Some s1 \<and> n_out s1 = n_out s @ [p2] \<and> second_ok cur i c c1 l s s1 p2))"

text \<open>What stays of the server's view when the first packet has arrived.\<close>

definition answered :: "nat \<Rightarrow> net_t \<Rightarrow> net_t \<Rightarrow> bool" where
  "answered l s s1 \<longleftrightarrow> tc_acpt (tcb l s1) = tc_acpt (tcb l s) \<and> n_woken s1 = n_woken s \<and> syn_waiter (tcb l s1) = syn_waiter (tcb l s)"

lemma third_okI:
  assumes s: "half_open (length (n_tcbs s)) l sip sport port s1" "answered l s s1"
    and p: "is_packet sip (n_nip s1) sport port q (snd_nxt (tcb (length (n_tcbs s)) s1)) TCP_F_ACK [] p3"
    and c: "tc_state (tcb i c2) = ESTABLISHED" "rcv_nxt (tcb i c2) = snd_nxt (tcb (length (n_tcbs s)) s1)"
      "snd_nxt (tcb i c2) = rcv_nxt (tcb (length (n_tcbs s)) s1)" "tc_lport (tcb i c2) = sport" "tc_rport (tcb i c2) = port"
  shows "third_ok i c2 l s s1 p3"
proof -
  let ?k = "length (n_tcbs s)"
  have k: "tc_rport (tcb ?k s1) = sport" "tc_lport (tcb ?k s1) = port" using s(1) by (simp_all add: half_open_def)
  have "\<exists>s2. host_rx r s1 = Some s2 \<and> connected i c2 ?k s2 \<and> tc_acpt (tcb l s2) = ?k # tc_acpt (tcb l s)
         \<and> n_woken s2 = n_woken (try_unblk (syn_waiter (tcb l s)) s)" if r: "arrives p3 r" for r
  proof -
    obtain s2 where "host_rx r s1 = Some s2" "tcb ?k s2 = (tcb ?k s1)\<lparr>tc_state := ESTABLISHED\<rparr>"
      "tc_acpt (tcb l s2) = ?k # tc_acpt (tcb l s1)" "n_out s2 = n_out s1" "n_woken s2 = n_woken (try_unblk (syn_waiter (tcb l s1)) s1)"
      by (rule handshake_done [OF s(1) p r])
    then show ?thesis
      using k c s(2) by (auto simp: connected_def answered_def try_unblk_def split: option.split)
  qed
  then show ?thesis using arrives_ex [OF p] by (simp add: third_ok_def)
qed

lemma second_okI:
  assumes c: "awaiting i (n_nip s1) port lport c1" "syn_waiter (tcb i c1) = Some cur" "n_woken c1 = n_woken c"
    and s: "half_open (length (n_tcbs s)) l (n_nip c1) lport port s1" "answered l s s1"
      "snd_nxt (tcb (length (n_tcbs s)) s1) = q + 1" "rcv_nxt (tcb (length (n_tcbs s)) s1) = snd_nxt (tcb i c1)"
    and p: "is_packet (n_nip s1) (n_nip c1) port lport q (snd_nxt (tcb i c1)) (TCP_F_SYN OR TCP_F_ACK) [] p2"
  shows "second_ok cur i c c1 l s s1 p2"
proof -
  have "\<exists>c2 p3. host_rx r c1 = Some c2 \<and> n_out c2 = n_out c1 @ [p3] \<and> n_woken c2 = n_woken c @ [cur] \<and> third_ok i c2 l s s1 p3"
    if r: "arrives p2 r" for r
  proof -
    obtain c2 p3 where x: "host_rx r c1 = Some c2" "n_out c2 = n_out c1 @ [p3]"
      "is_packet (n_nip c1) (n_nip s1) lport port (snd_nxt (tcb i c1)) (q + 1) TCP_F_ACK [] p3"
      "tc_state (tcb i c2) = ESTABLISHED" "rcv_nxt (tcb i c2) = q + 1" "snd_nxt (tcb i c2) = snd_nxt (tcb i c1)"
      "tc_lport (tcb i c2) = lport" "tc_rport (tcb i c2) = port" "n_woken c2 = n_woken (try_unblk (syn_waiter (tcb i c1)) c1)"
      by (rule handshake_client [OF c(1) p r])
    have "third_ok i c2 l s s1 p3"
      by (rule third_okI [OF s(1,2), of "snd_nxt (tcb i c1)"]) (simp_all only: x s)
    moreover have "n_woken c2 = n_woken c @ [cur]" using x(9) c(2,3) by (simp add: try_unblk_def)
    ultimately show ?thesis using x(1,2) by blast
  qed
  then show ?thesis using arrives_ex [OF p] by (simp add: second_ok_def)
qed



end
