(* ===== verification/Mm_Map.thy ===== *)
theory Mm_Map
  imports Mm_Pmm
begin

text \<open>
  Page tables, \<open>src/kernel/mm/map.c\<close>. The kernel reaches the tables of the current address space
  through virtual addresses: entry 511 of the top table points to the top table itself, so that the
  processor, translating such an address, stops at a table instead of a page. The model has physical memory as pages of
  512 entries and the processor's translation \<open>mmu\<close>; every access of the code to a table goes through it, and an access
  to an address that is not mapped stops the kernel (\<open>None\<close>). The translation cache of the processor is not modelled: \<open>invlpg\<close>
  follows every change of an entry. The argument \<open>phy\<close> of \<open>walk\<close>, which it does not use, is left out.
  Physical pages come from the allocator \<open>al\<close>, in the kernel \<open>pmm_allocpages\<close>.
\<close>

section \<open>Entries and addresses\<close>

definition PE_P :: u64 where "PE_P = 1"
definition PE_RW :: u64 where "PE_RW = 2"
definition PE_US :: u64 where "PE_US = 4"

definition FLAG :: "u64 \<Rightarrow> u64" where "FLAG entry = entry AND 0x7FF"
definition ADDR :: "u64 \<Rightarrow> u64" where "ADDR entry = entry AND NOT 0x7FF"

definition VRT :: "u64 \<Rightarrow> u64 \<Rightarrow> u64 \<Rightarrow> u64 \<Rightarrow> addr_t" where
  "VRT iPML4 iPDPT iPD iPT =
     push_bit 48 (if iPML4 > 255 then 0xFFFF else 0)
     OR push_bit 39 (iPML4 AND 0x1FF)
     OR push_bit 30 (iPDPT AND 0x1FF)
     OR push_bit 21 (iPD AND 0x1FF)
     OR push_bit 12 (iPT AND 0x1FF)"

definition IDX :: "addr_t \<Rightarrow> nat \<Rightarrow> u64" where
  "IDX addr level = drop_bit (level * 9 + 12) addr AND 0x1FF"

definition R_IDX :: u64 where "R_IDX = 511"

fun entryget :: "addr_t \<Rightarrow> nat \<Rightarrow> addr_t" where
  "entryget addr level =
     (if level = 3 then VRT R_IDX R_IDX R_IDX R_IDX
      else if level = 2 then VRT R_IDX R_IDX R_IDX (IDX addr 3)
      else if level = 1 then VRT R_IDX R_IDX (IDX addr 3) (IDX addr 2)
      else if level = 0 then VRT R_IDX (IDX addr 3) (IDX addr 2) (IDX addr 1)
      else 0)"

section \<open>The processor's translation\<close>

record 'p vm_t =
  vm_mem :: "addr_t \<Rightarrow> nat \<Rightarrow> u64"
  vm_cr3 :: addr_t
  vm_pmm :: 'p

definition hw_addr :: "u64 \<Rightarrow> addr_t" where
  "hw_addr e = e AND 0x000FFFFFFFFFF000"

text \<open>The frame in a page of level \<open>lv\<close> (2 MiB or 1 GiB) to which an address belongs.\<close>

definition hw_large :: "u64 \<Rightarrow> addr_t \<Rightarrow> nat \<Rightarrow> addr_t" where
  "hw_large e v lv = (hw_addr e AND NOT (mask (lv * 9 + 12))) OR (v AND mask (lv * 9 + 12) AND NOT (mask 12))"

fun mmu_walk :: "(addr_t \<Rightarrow> nat \<Rightarrow> u64) \<Rightarrow> addr_t \<Rightarrow> addr_t \<Rightarrow> nat \<Rightarrow> addr_t option" where
  "mmu_walk mem pg v lv =
     (let e = mem pg (unat (IDX v lv)) in
      if e AND PE_P = 0 then None
      else case lv of
        0 \<Rightarrow> Some (hw_addr e)
      | Suc lv' \<Rightarrow> if bit e 7 then (if lv = 3 then None else Some (hw_large e v lv)) else mmu_walk mem (hw_addr e) v lv')"

declare mmu_walk.simps [simp del]

definition mmu :: "'p vm_t \<Rightarrow> addr_t \<Rightarrow> addr_t option" where
  "mmu s v = mmu_walk (vm_mem s) (vm_cr3 s) v 3"

definition tab_get :: "addr_t \<Rightarrow> nat \<Rightarrow> 'p vm_t \<Rightarrow> u64 option" where
  "tab_get tab idx s = do { p \<leftarrow> mmu s tab; Some (vm_mem s p idx) }"

definition tab_set :: "addr_t \<Rightarrow> nat \<Rightarrow> u64 \<Rightarrow> 'p vm_t \<Rightarrow> 'p vm_t option" where
  "tab_set tab idx x s = do { p \<leftarrow> mmu s tab; Some (s\<lparr>vm_mem := (vm_mem s)(p := (vm_mem s p)(idx := x))\<rparr>) }"

definition tab_zero :: "addr_t \<Rightarrow> 'p vm_t \<Rightarrow> 'p vm_t option" where
  "tab_zero tab s = do { p \<leftarrow> mmu s tab; Some (s\<lparr>vm_mem := (vm_mem s)(p := (\<lambda>_. 0))\<rparr>) }"

section \<open>Operations\<close>

text \<open>The result of \<open>walk\<close> is the address of an entry, as table and index, or \<open>NULL\<close>.\<close>

type_synonym 'p page_fun = "'p \<Rightarrow> size_t \<Rightarrow> ('p \<times> addr_t) option"

definition walk_make :: "'p page_fun \<Rightarrow> addr_t \<Rightarrow> nat \<Rightarrow> 'p vm_t \<Rightarrow> 'p vm_t option" where
  "walk_make al vrt lv s = do {
     (p, new) \<leftarrow> al (vm_pmm s) 1;
     assertk (new \<noteq> 0);
     s \<leftarrow> tab_set (entryget vrt lv) (unat (IDX vrt lv)) (ADDR new OR PE_RW OR PE_P) (s\<lparr>vm_pmm := p\<rparr>);
     tab_zero (entryget vrt (lv - 1)) s
   }"

definition walk_mark :: "addr_t \<Rightarrow> u16 \<Rightarrow> nat \<Rightarrow> 'p vm_t \<Rightarrow> 'p vm_t option" where
  "walk_mark vrt flgs lv s =
     (if ucast flgs AND PE_US \<noteq> 0 then do {
        e \<leftarrow> tab_get (entryget vrt lv) (unat (IDX vrt lv)) s;
        tab_set (entryget vrt lv) (unat (IDX vrt lv)) (e OR PE_US) s
      }
      else Some s)"

fun walk :: "'p page_fun \<Rightarrow> addr_t \<Rightarrow> u16 \<Rightarrow> nat \<Rightarrow> bool \<Rightarrow> 'p vm_t \<Rightarrow> ('p vm_t \<times> (addr_t \<times> nat) option) option" where
  "walk al vrt flgs 0 create s = Some (s, Some (entryget vrt 0, unat (IDX vrt 0)))"
| "walk al vrt flgs (Suc lv) create s = do {
     e \<leftarrow> tab_get (entryget vrt (Suc lv)) (unat (IDX vrt (Suc lv))) s;
     if e AND PE_P = 0 \<and> \<not> create then Some (s, None)
     else do {
       s \<leftarrow> (if e AND PE_P = 0 then walk_make al vrt (Suc lv) s else Some s);
       s \<leftarrow> (if create then walk_mark vrt flgs (Suc lv) s else Some s);
       walk al vrt flgs lv create s
     }
   }"

fun vmap_map_loop :: "'p page_fun \<Rightarrow> addr_t \<Rightarrow> addr_t \<Rightarrow> nat \<Rightarrow> u32 \<Rightarrow> 'p vm_t \<Rightarrow> 'p vm_t option" where
  "vmap_map_loop al phy vrt 0 flgs s = Some s"
| "vmap_map_loop al phy vrt (Suc num) flgs s = do {
     (s, entry) \<leftarrow> walk al vrt (ucast flgs) 3 True s;
     (tab, idx) \<leftarrow> entry;
     s \<leftarrow> tab_set tab idx (ADDR phy OR FLAG (ucast flgs)) s;
     vmap_map_loop al (phy + PAGE_SIZ) (vrt + PAGE_SIZ) num flgs s
   }"

definition vmap_map :: "'p page_fun \<Rightarrow> addr_t \<Rightarrow> addr_t \<Rightarrow> size_t \<Rightarrow> u32 \<Rightarrow> 'p vm_t \<Rightarrow> 'p vm_t option" where
  "vmap_map al phy vrt num flgs s = vmap_map_loop al phy vrt (unat num) flgs s"

fun vmap_unmap_loop :: "'p page_fun \<Rightarrow> addr_t \<Rightarrow> nat \<Rightarrow> 'p vm_t \<Rightarrow> 'p vm_t option" where
  "vmap_unmap_loop al vrt 0 s = Some s"
| "vmap_unmap_loop al vrt (Suc num) s = do {
     (s, entry) \<leftarrow> walk al vrt 0 3 True s;
     (tab, idx) \<leftarrow> entry;
     s \<leftarrow> tab_set tab idx 0 s;
     vmap_unmap_loop al (vrt + PAGE_SIZ) num s
   }"

definition vmap_unmap :: "'p page_fun \<Rightarrow> addr_t \<Rightarrow> size_t \<Rightarrow> 'p vm_t \<Rightarrow> 'p vm_t option" where
  "vmap_unmap al vrt num s = vmap_unmap_loop al vrt (unat num) s"

fun qry_walk :: "addr_t \<Rightarrow> nat \<Rightarrow> 'p vm_t \<Rightarrow> u64 option" where
  "qry_walk vrt lv s = do {
     entry \<leftarrow> tab_get (entryget vrt lv) (unat (IDX vrt lv)) s;
     if entry AND PE_P = 0 then Some 0
     else if lv = 0 \<or> (lv \<noteq> 3 \<and> bit entry 7) then Some (ADDR entry OR (vrt AND mask (lv * 9 + 12)))
     else qry_walk vrt (lv - 1) s
   }"

declare qry_walk.simps [simp del]

definition vmap_query :: "addr_t \<Rightarrow> 'p vm_t \<Rightarrow> addr_t option" where
  "vmap_query vrt s = qry_walk vrt 3 s"

text \<open>\<open>vmap_init\<close> runs while addresses are still physical: it writes the recursive entry into the top table.\<close>

definition vmap_init :: "'p vm_t \<Rightarrow> 'p vm_t" where
  "vmap_init s = s\<lparr>vm_mem := (vm_mem s)(vm_cr3 s := (vm_mem s (vm_cr3 s))(unat R_IDX := ADDR (vm_cr3 s) OR PE_RW OR PE_P))\<rparr>"

section \<open>Indices\<close>

lemma IDX_bit: "bit (IDX v l) n \<longleftrightarrow> n < 9 \<and> bit v (l * 9 + 12 + n)"
proof -
  have m: "(0x1FF :: u64) = mask 9" by (simp add: mask_eq_exp_minus_1)
  show ?thesis unfolding IDX_def m by (auto simp: bit_simps ac_simps dest: bit_imp_le_length)
qed

lemma IDX_lt: "unat (IDX v l) < 512"
proof -
  have "IDX v l \<le> 0x1FF" unfolding IDX_def by (rule word_and_le1)
  then show ?thesis by (simp add: word_le_nat_alt)
qed

lemma VRT_bits:
  assumes "n < 9"
  shows "bit (push_bit 48 h OR push_bit 39 (a AND mask 9) OR push_bit 30 (b AND mask 9) OR push_bit 21 (c AND mask 9)
      OR push_bit 12 (d AND mask 9) :: u64) (39 + n) = bit a n"
    "bit (push_bit 48 h OR push_bit 39 (a AND mask 9) OR push_bit 30 (b AND mask 9) OR push_bit 21 (c AND mask 9)
      OR push_bit 12 (d AND mask 9) :: u64) (30 + n) = bit b n"
    "bit (push_bit 48 h OR push_bit 39 (a AND mask 9) OR push_bit 30 (b AND mask 9) OR push_bit 21 (c AND mask 9)
      OR push_bit 12 (d AND mask 9) :: u64) (21 + n) = bit c n"
    "bit (push_bit 48 h OR push_bit 39 (a AND mask 9) OR push_bit 30 (b AND mask 9) OR push_bit 21 (c AND mask 9)
      OR push_bit 12 (d AND mask 9) :: u64) (12 + n) = bit d n"
  using assms by (simp_all add: bit_or_iff bit_push_bit_iff bit_and_iff bit_mask_iff)

lemma mask_9: "(0x1FF :: u64) = mask 9"
  by (simp add: mask_eq_exp_minus_1)

lemma IDX_eqI:
  assumes "\<And>n. n < 9 \<Longrightarrow> bit v (l * 9 + 12 + n) = bit a n"
  shows "IDX v l = a AND 0x1FF"
proof (rule bit_eqI)
  fix n
  show "bit (IDX v l) n = bit (a AND 0x1FF) n"
  proof (cases "n < 9")
    case True
    then show ?thesis using assms [OF True] by (simp only: IDX_bit mask_9 bit_and_iff bit_mask_iff) simp
  next
    case False
    then show ?thesis by (simp only: IDX_bit mask_9 bit_and_iff bit_mask_iff) simp
  qed
qed

lemma IDX_VRT:
  "IDX (VRT a b c d) 3 = a AND 0x1FF" "IDX (VRT a b c d) 2 = b AND 0x1FF" "IDX (VRT a b c d) 1 = c AND 0x1FF"
  "IDX (VRT a b c d) 0 = d AND 0x1FF"
proof -
  have l: "(3 :: nat) * 9 + 12 = 39" "(2 :: nat) * 9 + 12 = 30" "(1 :: nat) * 9 + 12 = 21" "(0 :: nat) * 9 + 12 = 12" by simp_all
  show "IDX (VRT a b c d) 3 = a AND 0x1FF" by (rule IDX_eqI, unfold l VRT_def mask_9, erule VRT_bits)
  show "IDX (VRT a b c d) 2 = b AND 0x1FF" by (rule IDX_eqI, unfold l VRT_def mask_9, erule VRT_bits)
  show "IDX (VRT a b c d) 1 = c AND 0x1FF" by (rule IDX_eqI, unfold l VRT_def mask_9, erule VRT_bits)
  show "IDX (VRT a b c d) 0 = d AND 0x1FF" by (rule IDX_eqI, unfold l VRT_def mask_9, erule VRT_bits)
qed

lemma IDX_idem: "IDX v l AND 0x1FF = IDX v l"
  by (simp add: IDX_def)

lemma entryget_idx:
  "IDX (entryget v 3) 3 = 511" "IDX (entryget v 3) 2 = 511" "IDX (entryget v 3) 1 = 511" "IDX (entryget v 3) 0 = 511"
  "IDX (entryget v 2) 3 = 511" "IDX (entryget v 2) 2 = 511" "IDX (entryget v 2) 1 = 511" "IDX (entryget v 2) 0 = IDX v 3"
  "IDX (entryget v 1) 3 = 511" "IDX (entryget v 1) 2 = 511" "IDX (entryget v 1) 1 = IDX v 3" "IDX (entryget v 1) 0 = IDX v 2"
  "IDX (entryget v 0) 3 = 511" "IDX (entryget v 0) 2 = IDX v 3" "IDX (entryget v 0) 1 = IDX v 2" "IDX (entryget v 0) 0 = IDX v 1"
  by (simp_all add: IDX_VRT IDX_VRT(3) [simplified] IDX_idem R_IDX_def)

lemmas entryget_idxs = entryget_idx entryget_idx [unfolded One_nat_def]

declare entryget.simps [simp del]

section \<open>Tables of an address\<close>

text \<open>An entry that leads to another table, and the table of depth \<open>d\<close> (of level \<open>3 - d\<close>) on the way to an address.\<close>

definition idx :: "addr_t \<Rightarrow> nat \<Rightarrow> nat" where
  "idx v d = unat (IDX v (3 - d))"

definition link :: "u64 \<Rightarrow> bool" where
  "link e \<longleftrightarrow> e AND PE_P \<noteq> 0 \<and> \<not> bit e 7"

primrec tab_at :: "(addr_t \<Rightarrow> nat \<Rightarrow> u64) \<Rightarrow> addr_t \<Rightarrow> addr_t \<Rightarrow> nat \<Rightarrow> addr_t option" where
  "tab_at mem c v 0 = Some c"
| "tab_at mem c v (Suc d) =
     (case tab_at mem c v d of None \<Rightarrow> None | Some p \<Rightarrow> if link (mem p (idx v d)) then Some (hw_addr (mem p (idx v d))) else None)"

text \<open>The entry of the page of an address; absent tables have only zero entries.\<close>

definition leaf :: "'p vm_t \<Rightarrow> addr_t \<Rightarrow> u64" where
  "leaf s v = (case tab_at (vm_mem s) (vm_cr3 s) v 3 of None \<Rightarrow> 0 | Some p \<Rightarrow> vm_mem s p (idx v 3))"

text \<open>The way to an address has no large page.\<close>

definition small :: "'p vm_t \<Rightarrow> addr_t \<Rightarrow> bool" where
  "small s v \<longleftrightarrow> (\<forall>d<3. \<forall>p. tab_at (vm_mem s) (vm_cr3 s) v d = Some p \<longrightarrow> vm_mem s p (idx v d) AND PE_P \<noteq> 0 \<longrightarrow>
     \<not> bit (vm_mem s p (idx v d)) 7)"

definition rec_ok :: "'p vm_t \<Rightarrow> bool" where
  "rec_ok s \<longleftrightarrow> link (vm_mem s (vm_cr3 s) 511) \<and> hw_addr (vm_mem s (vm_cr3 s) 511) = vm_cr3 s"

lemma mmu_chain:
  assumes "vm_mem s (vm_cr3 s) (unat (IDX a 3)) = e3" "link e3" "vm_mem s (hw_addr e3) (unat (IDX a 2)) = e2" "link e2"
    "vm_mem s (hw_addr e2) (unat (IDX a 1)) = e1" "link e1" "vm_mem s (hw_addr e1) (unat (IDX a 0)) = e0" "link e0"
  shows "mmu s a = Some (hw_addr e0)"
proof -
  have w: "mmu_walk (vm_mem s) pg a (Suc l) = mmu_walk (vm_mem s) (hw_addr e) a l"
    if "vm_mem s pg (unat (IDX a (Suc l))) = e" "link e" for pg l e
    using that by (subst mmu_walk.simps) (simp add: link_def Let_def)
  have "mmu_walk (vm_mem s) (vm_cr3 s) a 3 = mmu_walk (vm_mem s) (hw_addr e3) a 2"
    using w [of _ 2] assms(1,2) by (simp add: numeral_3_eq_3 numeral_2_eq_2)
  also have "\<dots> = mmu_walk (vm_mem s) (hw_addr e2) a 1"
    using w [of _ 1] assms(3,4) by (simp add: numeral_2_eq_2)
  also have "\<dots> = mmu_walk (vm_mem s) (hw_addr e1) a 0"
    using w [of _ 0] assms(5,6) by simp
  also have "\<dots> = Some (hw_addr e0)"
    using assms(7,8) by (subst mmu_walk.simps) (simp add: link_def Let_def)
  finally show ?thesis by (simp add: mmu_def)
qed

lemma tab_at_Suc:
  "tab_at mem c v (Suc d) = Some p \<longleftrightarrow> (\<exists>q. tab_at mem c v d = Some q \<and> link (mem q (idx v d)) \<and> p = hw_addr (mem q (idx v d)))"
  by (auto split: option.split)

lemma mmu_entryget:
  assumes r: "rec_ok s" and t: "tab_at (vm_mem s) (vm_cr3 s) v d = Some p" and d: "d \<le> 3"
  shows "mmu s (entryget v (3 - d)) = Some p"
proof -
  let ?m = "vm_mem s" and ?c = "vm_cr3 s"
  have l: "link (?m ?c 511)" "hw_addr (?m ?c 511) = ?c" using r by (simp_all add: rec_ok_def)
  consider "d = 0" | "d = 1" | "d = 2" | "d = 3" using d by linarith
  then show ?thesis
  proof cases
    case 1
    then show ?thesis
      using t mmu_chain [of s "entryget v 3" "?m ?c 511" "?m ?c 511" "?m ?c 511" "?m ?c 511"] l by (simp add: entryget_idxs)
  next
    case 2
    then have "link (?m ?c (idx v 0))" "p = hw_addr (?m ?c (idx v 0))" using t by (auto simp: tab_at_Suc simp del: tab_at.simps(2))
    then show ?thesis
      using 2 mmu_chain [of s "entryget v 2" "?m ?c 511" "?m ?c 511" "?m ?c 511" "?m ?c (idx v 0)"] l by (simp add: entryget_idxs idx_def)
  next
    case 3
    then obtain q where "link (?m ?c (idx v 0))" "q = hw_addr (?m ?c (idx v 0))" "link (?m q (idx v 1))" "p = hw_addr (?m q (idx v 1))"
      using t by (auto simp: tab_at_Suc numeral_2_eq_2 simp del: tab_at.simps(2))
    then show ?thesis
      using 3 mmu_chain [of s "entryget v 1" "?m ?c 511" "?m ?c 511" "?m ?c (idx v 0)" "?m q (idx v 1)"] l by (simp add: entryget_idxs idx_def)
  next
    case 4
    then obtain q q' where "link (?m ?c (idx v 0))" "q = hw_addr (?m ?c (idx v 0))" "link (?m q (idx v 1))" "q' = hw_addr (?m q (idx v 1))"
      "link (?m q' (idx v 2))" "p = hw_addr (?m q' (idx v 2))"
      using t by (auto simp: tab_at_Suc numeral_3_eq_3 numeral_2_eq_2 simp del: tab_at.simps(2))
    then show ?thesis
      using 4 mmu_chain [of s "entryget v 0" "?m ?c 511" "?m ?c (idx v 0)" "?m q (idx v 1)" "?m q' (idx v 2)"] l by (simp add: entryget_idxs idx_def)
  qed
qed

section \<open>Changing one entry\<close>

definition plain :: "addr_t \<Rightarrow> bool" where
  "plain v \<longleftrightarrow> idx v 0 \<noteq> 511"

definition agree :: "addr_t \<Rightarrow> addr_t \<Rightarrow> nat \<Rightarrow> bool" where
  "agree v v' n \<longleftrightarrow> (\<forall>k<n. idx v k = idx v' k)"

text \<open>Every table outside of the recursive entry is reached in one way only.\<close>

definition unshared :: "(addr_t \<Rightarrow> nat \<Rightarrow> u64) \<Rightarrow> addr_t \<Rightarrow> bool" where
  "unshared mem c \<longleftrightarrow> (\<forall>v v' d d' p. plain v \<and> plain v' \<and> d \<le> 3 \<and> d' \<le> 3 \<and> tab_at mem c v d = Some p \<and> tab_at mem c v' d' = Some p
     \<longrightarrow> d = d' \<and> agree v v' d)"

lemma unsharedD:
  "unshared mem c \<Longrightarrow> plain v \<Longrightarrow> plain v' \<Longrightarrow> d \<le> 3 \<Longrightarrow> d' \<le> 3 \<Longrightarrow> tab_at mem c v d = Some p \<Longrightarrow> tab_at mem c v' d' = Some p
    \<Longrightarrow> d = d' \<and> agree v v' d"
  unfolding unshared_def by blast

lemma agree_Suc: "agree v v' (Suc d) \<longleftrightarrow> agree v v' d \<and> idx v d = idx v' d"
  by (auto simp: agree_def less_Suc_eq)

lemma agree_sym: "agree v v' d \<Longrightarrow> agree v' v d"
  by (simp add: agree_def)

lemma agree_trans: "agree u v d \<Longrightarrow> agree v w d \<Longrightarrow> agree u w d"
  by (simp add: agree_def)

lemma agree_less: "agree v v' d \<Longrightarrow> k \<le> d \<Longrightarrow> agree v v' k"
  by (simp add: agree_def)

lemma tab_at_agree: "agree v v' d \<Longrightarrow> tab_at mem c v d = tab_at mem c v' d"
proof (induction d)
  case (Suc d)
  then have "tab_at mem c v d = tab_at mem c v' d" "idx v d = idx v' d" by (simp_all add: agree_Suc)
  then show ?case by (simp split: option.split)
qed simp

text \<open>An entry that leads to the same table as before.\<close>

lemma tab_at_same:
  assumes "link x = link (mem p i)" "link x \<Longrightarrow> hw_addr x = hw_addr (mem p i)"
  shows "tab_at (mem(p := (mem p)(i := x))) c v k = tab_at mem c v k"
proof (induction k)
  case (Suc k)
  then show ?case using assms by (auto split: option.split)
qed simp

text \<open>An entry of a page: the tables stay.\<close>

lemma tab_at_leaf:
  assumes u: "unshared mem c" "plain v" "plain v'" "tab_at mem c v 3 = Some p" and k: "k \<le> 3"
  shows "tab_at (mem(p := (mem p)(i := x))) c v' k = tab_at mem c v' k"
  using k
proof (induction k)
  case (Suc k)
  have "tab_at mem c v' k \<noteq> Some p" using unsharedD [OF u(1-3), of 3 k] u(4) Suc.prems by auto
  then show ?case using Suc by (auto split: option.split)
qed simp

text \<open>A new, empty table \<open>n\<close>.\<close>

definition extends :: "(addr_t \<Rightarrow> nat \<Rightarrow> u64) \<Rightarrow> addr_t \<Rightarrow> nat \<Rightarrow> u64 \<Rightarrow> addr_t \<Rightarrow> (addr_t \<Rightarrow> nat \<Rightarrow> u64) \<Rightarrow> bool" where
  "extends mem p i x n mem' \<longleftrightarrow> mem' p i = x \<and> (\<forall>j. mem' n j = 0) \<and> (\<forall>q j. q \<noteq> n \<longrightarrow> q \<noteq> p \<or> j \<noteq> i \<longrightarrow> mem' q j = mem q j)"

lemma tab_at_new:
  assumes u: "unshared mem c" "plain v" "d < 3" "tab_at mem c v d = Some p" "link x" "hw_addr x = n"
    and n: "\<forall>v' k. plain v' \<longrightarrow> k \<le> 3 \<longrightarrow> tab_at mem c v' k \<noteq> Some n" and m: "extends mem p (idx v d) x n mem'"
    and v': "plain v'" and k: "k \<le> 3"
  shows "tab_at mem' c v' k = (if d < k \<and> agree v v' (Suc d) then (if k = Suc d then Some n else None) else tab_at mem c v' k)"
  using k
proof (induction k)
  case (Suc k)
  have IH: "tab_at mem' c v' k = (if d < k \<and> agree v v' (Suc d) then (if k = Suc d then Some n else None) else tab_at mem c v' k)"
    by (rule Suc.IH) (use Suc.prems in simp)
  show ?case
  proof (cases "d < Suc k \<and> agree v v' (Suc d)")
    case a: True
    show ?thesis
    proof (cases "k = d")
      case True
      then have "tab_at mem' c v' k = Some p" using IH u(4) tab_at_agree [of v v' d mem c] a by (simp add: agree_Suc)
      moreover have "mem' p (idx v' k) = x" using True a m by (simp add: agree_Suc extends_def)
      ultimately show ?thesis using True a u(5,6) by simp
    next
      case False
      then have "tab_at mem' c v' k = (if k = Suc d then Some n else None)" using IH a by simp
      then show ?thesis using a False m by (simp add: link_def extends_def)
    qed
  next
    case False
    then have eq: "tab_at mem' c v' k = tab_at mem c v' k" using IH by auto
    show ?thesis
    proof (cases "tab_at mem c v' k")
      case None
      then show ?thesis using False eq by simp
    next
      case (Some q)
      have qn: "q \<noteq> n" using n v' Some Suc.prems by auto
      have "\<not> (q = p \<and> idx v' k = idx v d)"
      proof
        assume a: "q = p \<and> idx v' k = idx v d"
        then have "tab_at mem c v' k = Some p" using Some by simp
        then have "d = k \<and> agree v v' d" by (intro unsharedD [OF u(1,2) v' _ _ u(4)]) (use u(3) Suc.prems in simp_all)
        then show False using False a by (auto simp: agree_Suc)
      qed
      then have "mem' q (idx v' k) = mem q (idx v' k)" using qn m by (auto simp: extends_def)
      then show ?thesis using False eq Some by (simp split: if_splits)
    qed
  qed
qed simp

text \<open>
  A well-formed address space: the recursive entry is in place, no table is shared, and no table is among the free frames \<open>av\<close>,
  which are addressable.
\<close>

definition is_tab :: "'p vm_t \<Rightarrow> addr_t \<Rightarrow> bool" where
  "is_tab s p \<longleftrightarrow> (\<exists>v d. plain v \<and> d \<le> 3 \<and> tab_at (vm_mem s) (vm_cr3 s) v d = Some p)"

definition vm_ok :: "nat set \<Rightarrow> 'p vm_t \<Rightarrow> bool" where
  "vm_ok av s \<longleftrightarrow> rec_ok s \<and> unshared (vm_mem s) (vm_cr3 s) \<and> (\<forall>p. is_tab s p \<longrightarrow> unat p div 4096 \<notin> av) \<and> av \<subseteq> {..<2 ^ 40}"

definition keeps :: "'p vm_t \<Rightarrow> 'p vm_t \<Rightarrow> bool" where
  "keeps s s' \<longleftrightarrow> vm_cr3 s' = vm_cr3 s \<and> (\<forall>v. plain v \<longrightarrow> leaf s' v = leaf s v \<and> (small s v \<longrightarrow> small s' v))"

lemma vm_keeps_refl: "keeps s s"
  by (simp add: keeps_def)

lemma vm_keeps_trans: "keeps s s1 \<Longrightarrow> keeps s1 s2 \<Longrightarrow> keeps s s2"
  by (simp add: keeps_def)

lemma rec_ok_write:
  assumes "rec_ok s" "vm_cr3 s' = vm_cr3 s" "vm_mem s' (vm_cr3 s) 511 = vm_mem s (vm_cr3 s) 511"
  shows "rec_ok s'"
  using assms by (simp add: rec_ok_def)

lemma not_rec_entry:
  assumes "unshared (vm_mem s) (vm_cr3 s)" "plain v" "d \<le> 3" "tab_at (vm_mem s) (vm_cr3 s) v d = Some p"
  shows "p \<noteq> vm_cr3 s \<or> idx v d \<noteq> 511"
  using unsharedD [OF assms(1,2,2) assms(3) _ assms(4), of 0] assms(2) by (auto simp: plain_def)

lemma add_table:
  assumes ok: "vm_ok av s" and v: "plain v" "d < 3" "tab_at (vm_mem s) (vm_cr3 s) v d = Some p" "vm_mem s p (idx v d) AND PE_P = 0"
    and x: "link x" "hw_addr x = n" "unat n div 4096 \<in> av" and s': "vm_cr3 s' = vm_cr3 s" "extends (vm_mem s) p (idx v d) x n (vm_mem s')"
  shows "vm_ok (av - {unat n div 4096}) s' \<and> keeps s s' \<and> tab_at (vm_mem s') (vm_cr3 s') v (Suc d) = Some n"
proof -
  let ?m = "vm_mem s" and ?c = "vm_cr3 s" and ?m' = "vm_mem s'"
  have u: "unshared ?m ?c" and r: "rec_ok s" using ok by (simp_all add: vm_ok_def)
  have fresh: "tab_at ?m ?c v' k \<noteq> Some n" if "plain v'" "k \<le> 3" for v' k
    using ok x(3) that by (auto simp: vm_ok_def is_tab_def)
  then have "\<forall>v' k. plain v' \<longrightarrow> k \<le> 3 \<longrightarrow> tab_at ?m ?c v' k \<noteq> Some n" by blast
  note t = tab_at_new [OF u v(1-3) x(1,2) this s'(2)]
  have m': "?m' q j = ?m q j" if "q \<noteq> n" "q \<noteq> p \<or> j \<noteq> idx v d" for q j using s'(2) that by (auto simp: extends_def)
  have mp: "?m' p (idx v d) = x" and mn: "\<And>j. ?m' n j = 0" using s'(2) by (simp_all add: extends_def)
  have gone: "tab_at ?m ?c v' k = None" if a: "plain v'" "d < k" "agree v v' (Suc d)" for v' k
  proof -
    have "tab_at ?m ?c v' d = Some p" "idx v' d = idx v d" using a(3) v(3) tab_at_agree [of v v' d ?m ?c] by (simp_all add: agree_Suc)
    then have "tab_at ?m ?c v' (Suc d) = None" using v(4) by (simp add: link_def)
    then show ?thesis using a(2) by (induction k) (auto simp: less_Suc_eq)
  qed
  have cn: "?c \<noteq> n" using fresh [of v 0] v(1) by simp
  have "rec_ok s'"
    using rec_ok_write [OF r s'(1)] m' [OF cn] not_rec_entry [OF u v(1) _ v(3)] v(2) by auto
  moreover have "unshared ?m' ?c"
    unfolding unshared_def
  proof (intro allI impI)
    fix v1 v2 d1 d2 q
    assume a: "plain v1 \<and> plain v2 \<and> d1 \<le> 3 \<and> d2 \<le> 3 \<and> tab_at ?m' ?c v1 d1 = Some q \<and> tab_at ?m' ?c v2 d2 = Some q"
    then show "d1 = d2 \<and> agree v1 v2 d1"
      using t [of v1 d1] t [of v2 d2] fresh [of v1 d1] fresh [of v2 d2] unsharedD [OF u, of v1 v2 d1 d2 q]
      by (auto split: if_splits intro: agree_trans agree_sym)
  qed
  moreover have "unat q div 4096 \<notin> av - {unat n div 4096}" if "is_tab s' q" for q
  proof -
    obtain v1 d1 where a: "plain v1" "d1 \<le> 3" "tab_at ?m' ?c v1 d1 = Some q" using \<open>is_tab s' q\<close> by (auto simp: is_tab_def s'(1))
    then have "q = n \<or> is_tab s q" using t [of v1 d1] by (auto simp: is_tab_def split: if_splits)
    then show ?thesis using ok by (auto simp: vm_ok_def)
  qed
  moreover have "leaf s' v' = leaf s v'" if p': "plain v'" for v'
  proof (cases "agree v v' (Suc d)")
    case True
    then show ?thesis using t [OF p', of 3] gone [OF p' _ True, of 3] v(2) mn by (simp add: leaf_def s'(1))
  next
    case False
    then have e: "tab_at ?m' ?c v' 3 = tab_at ?m ?c v' 3" using t [OF p', of 3] by simp
    have "?m' q (idx v' 3) = ?m q (idx v' 3)" if q: "tab_at ?m ?c v' 3 = Some q" for q
    proof (rule m')
      show "q \<noteq> n" using fresh [OF p', of 3] q by auto
      show "q \<noteq> p \<or> idx v' 3 \<noteq> idx v d" using unsharedD [OF u v(1) p' _ _ v(3), of 3] q v(2) by auto
    qed
    then show ?thesis using e by (simp add: leaf_def s'(1) split: option.split)
  qed
  moreover have "small s' v'" if p': "plain v'" and sm: "small s v'" for v'
    unfolding small_def s'(1)
  proof (intro allI impI)
    fix k q
    assume k: "k < 3" and q: "tab_at ?m' ?c v' k = Some q" and e: "?m' q (idx v' k) AND PE_P \<noteq> 0"
    show "\<not> bit (?m' q (idx v' k)) 7"
    proof (cases "q = n \<or> q = p \<and> idx v' k = idx v d")
      case True
      then show ?thesis using e mn mp x(1) by (auto simp: link_def)
    next
      case False
      then have "?m' q (idx v' k) = ?m q (idx v' k)" using m' by blast
      moreover have "tab_at ?m ?c v' k = Some q" using q t [OF p', of k] k False by (auto split: if_splits)
      ultimately show ?thesis using sm e k by (auto simp: small_def)
    qed
  qed
  moreover have "tab_at ?m' ?c v (Suc d) = Some n" using t [OF v(1), of "Suc d"] v(2) by (simp add: agree_def)
  ultimately show ?thesis using ok by (auto simp: vm_ok_def keeps_def s'(1))
qed

definition set_entry :: "addr_t \<Rightarrow> nat \<Rightarrow> u64 \<Rightarrow> 'p vm_t \<Rightarrow> 'p vm_t" where
  "set_entry p i x s = s\<lparr>vm_mem := (vm_mem s)(p := (vm_mem s p)(i := x))\<rparr>"

lemma set_entry_simps [simp]:
  "vm_cr3 (set_entry p i x s) = vm_cr3 s" "vm_pmm (set_entry p i x s) = vm_pmm s"
  "vm_mem (set_entry p i x s) q j = (if q = p \<and> j = i then x else vm_mem s q j)"
  by (simp_all add: set_entry_def)

lemma PE_US_bits:
  "(e OR PE_US) AND PE_P = e AND PE_P" "bit (e OR PE_US) 7 = bit e 7" "hw_addr (e OR PE_US) = hw_addr e" "link (e OR PE_US) = link e"
proof -
  show 1: "(e OR PE_US) AND PE_P = e AND PE_P" "bit (e OR PE_US) 7 = bit e 7"
    by (simp_all add: PE_US_def PE_P_def bit.conj_disj_distrib2 bit_simps)
  have "(4 :: u64) AND 0x000FFFFFFFFFF000 = 0" by simp
  then show "hw_addr (e OR PE_US) = hw_addr e" by (simp add: hw_addr_def PE_US_def bit.conj_disj_distrib2)
  show "link (e OR PE_US) = link e" using 1 by (simp add: link_def)
qed

lemma mark_entry:
  assumes ok: "vm_ok av s" and v: "plain v" "d < 3" "tab_at (vm_mem s) (vm_cr3 s) v d = Some p"
  defines "s' \<equiv> set_entry p (idx v d) (vm_mem s p (idx v d) OR PE_US) s"
  shows "vm_ok av s' \<and> keeps s s' \<and> (\<forall>v' k. tab_at (vm_mem s') (vm_cr3 s') v' k = tab_at (vm_mem s) (vm_cr3 s) v' k)"
proof -
  let ?m = "vm_mem s" and ?c = "vm_cr3 s"
  have u: "unshared ?m ?c" and r: "rec_ok s" using ok by (simp_all add: vm_ok_def)
  have t: "tab_at (vm_mem s') ?c v' k = tab_at ?m ?c v' k" for v' k
    unfolding s'_def set_entry_def by (simp add: tab_at_same PE_US_bits)
  have c: "vm_cr3 s' = ?c" by (simp add: s'_def)
  have m: "vm_mem s' q j = (if q = p \<and> j = idx v d then ?m p (idx v d) OR PE_US else ?m q j)" for q j by (simp add: s'_def)
  have "rec_ok s'"
    using rec_ok_write [OF r c] not_rec_entry [OF u v(1) _ v(3)] v(2) by (auto simp: m)
  moreover have "is_tab s' q = is_tab s q" for q by (simp add: is_tab_def t c)
  moreover have "unshared (vm_mem s') ?c" using u by (simp add: unshared_def t)
  moreover have "leaf s' v' = leaf s v'" if "plain v'" for v'
    using unsharedD [OF u v(1) that _ _ v(3), of 3] v(2) by (auto simp: leaf_def t c m split: option.split)
  moreover have "small s' v'" if "small s v'" for v'
    using that unfolding small_def c t by (auto simp: m PE_US_bits)
  ultimately show ?thesis using ok t by (auto simp: vm_ok_def keeps_def c)
qed

lemma set_leaf:
  fixes x :: u64
  assumes ok: "vm_ok av s" and v: "plain v" "tab_at (vm_mem s) (vm_cr3 s) v 3 = Some p"
  defines "s' \<equiv> set_entry p (idx v 3) x s"
  shows "vm_ok av s' \<and> (\<forall>v'. plain v' \<longrightarrow> leaf s' v' = (if agree v v' 4 then x else leaf s v') \<and> (small s v' \<longrightarrow> small s' v'))"
proof -
  let ?m = "vm_mem s" and ?c = "vm_cr3 s"
  have u: "unshared ?m ?c" and r: "rec_ok s" using ok by (simp_all add: vm_ok_def)
  have c: "vm_cr3 s' = ?c" by (simp add: s'_def)
  have m: "vm_mem s' q j = (if q = p \<and> j = idx v 3 then x else ?m q j)" for q j by (simp add: s'_def)
  have t: "tab_at (vm_mem s') ?c v' k = tab_at ?m ?c v' k" if "plain v'" "k \<le> 3" for v' k
    unfolding s'_def set_entry_def using tab_at_leaf [OF u v(1) that(1) v(2) that(2)] by simp
  have "rec_ok s'"
    using rec_ok_write [OF r c] not_rec_entry [OF u v(1) _ v(2)] by (auto simp: m)
  moreover have "is_tab s' q = is_tab s q" for q unfolding is_tab_def c using t by metis
  moreover have "unshared (vm_mem s') ?c" unfolding unshared_def using unsharedD [OF u] t by metis
  moreover have "leaf s' v' = (if agree v v' 4 then x else leaf s v')" if p': "plain v'" for v'
  proof -
    have "tab_at ?m ?c v' 3 = Some p \<longleftrightarrow> agree v v' 3"
      using unsharedD [OF u v(1) p' _ _ v(2), of 3] tab_at_agree [of v v' 3 ?m ?c] v(2) by auto
    then have "tab_at ?m ?c v' 3 = Some p \<and> idx v' 3 = idx v 3 \<longleftrightarrow> agree v v' 4"
      using agree_Suc [of v v' 3] by auto
    then show ?thesis using t [OF p', of 3] by (auto simp: leaf_def c m split: option.split)
  qed
  moreover have "small s' v'" if p': "plain v'" and sm: "small s v'" for v'
    unfolding small_def c
  proof (intro allI impI)
    fix k q
    assume k: "k < 3" and q: "tab_at (vm_mem s') ?c v' k = Some q" and e: "vm_mem s' q (idx v' k) AND PE_P \<noteq> 0"
    have q': "tab_at ?m ?c v' k = Some q" using q t [OF p', of k] k by simp
    then have "q \<noteq> p" using unsharedD [OF u v(1) p' _ _ v(2), of k] k by auto
    then show "\<not> bit (vm_mem s' q (idx v' k)) 7" using sm q' k e by (auto simp: small_def m)
  qed
  ultimately show ?thesis using ok by (auto simp: vm_ok_def c)
qed

section \<open>New tables\<close>

lemma aligned_bits:
  assumes "unat (a :: u64) mod 4096 = 0" "unat a < 2 ^ 52" "bit a n"
  shows "12 \<le> n" "n < 52"
proof -
  have "take_bit 12 a = 0" using assms(1) by (simp add: take_bit_eq_mod unat_arith_simps)
  then have "\<not> bit (take_bit 12 a) n" by simp
  then show "12 \<le> n" using assms(3) by (simp add: bit_take_bit_iff)
  have "take_bit 52 a = a" using assms(2) by (simp add: take_bit_eq_mod unat_arith_simps)
  then have "bit (take_bit 52 a) n" using assms(3) by simp
  then show "n < 52" by (simp add: bit_take_bit_iff)
qed

lemma new_entry:
  assumes "unat (a :: u64) mod 4096 = 0" "unat a < 2 ^ 52"
  shows "link (ADDR a OR PE_RW OR PE_P)" "hw_addr (ADDR a OR PE_RW OR PE_P) = a"
proof -
  have A: "(0x7FF :: u64) = mask 11" by (simp add: mask_eq_exp_minus_1)
  have H: "(0x000FFFFFFFFFF000 :: u64) = mask 52 AND NOT (mask 12)" by (simp add: mask_eq_exp_minus_1)
  have P: "(2 :: u64) OR 1 = mask 2" by (simp add: mask_eq_exp_minus_1)
  have e: "ADDR a OR PE_RW OR PE_P = a OR mask 2"
  proof (rule bit_eqI)
    fix n
    show "bit (ADDR a OR PE_RW OR PE_P) n = bit (a OR mask 2) n"
      unfolding ADDR_def PE_RW_def PE_P_def P A using aligned_bits [OF assms, of n]
      by (auto simp: bit_simps)
  qed
  have "bit (a OR mask 2) 0" "\<not> bit (a OR mask 2) 7"
    using aligned_bits [OF assms, of 7] by (auto simp: bit_simps)
  moreover have "(a OR mask 2) AND PE_P \<noteq> 0"
    using calculation(1) by (metis PE_P_def and_one_eq bit_0 odd_iff_mod_2_eq_one one_neq_zero)
  ultimately show "link (ADDR a OR PE_RW OR PE_P)" unfolding e link_def by simp
  show "hw_addr (ADDR a OR PE_RW OR PE_P) = a"
    unfolding e hw_addr_def H
  proof (rule bit_eqI)
    fix n
    show "bit ((a OR mask 2) AND (mask 52 AND NOT (mask 12))) n = bit a n"
      using aligned_bits [OF assms, of n] by (auto simp: bit_simps)
  qed
qed

lemma vmap_init_rec:
  assumes "unat (vm_cr3 s) mod 4096 = 0" "unat (vm_cr3 s) < 2 ^ 52"
  shows "rec_ok (vmap_init s)"
  using new_entry [OF assms] by (simp add: rec_ok_def vmap_init_def R_IDX_def)

lemma tab_at_prefix:
  assumes u: "unshared mem c" "plain v" "d \<le> 3" "tab_at mem c v d = Some p" and k: "k \<le> d"
  shows "tab_at (mem(p := (mem p)(i := x))) c v k = tab_at mem c v k"
  using k
proof (induction k)
  case (Suc k)
  have "tab_at mem c v k \<noteq> Some p" using unsharedD [OF u(1,2,2) u(3) _ u(4), of k] Suc.prems u(3) by auto
  then show ?case using Suc by (auto split: option.split)
qed simp

lemma tab_set_at:
  assumes "rec_ok s" "tab_at (vm_mem s) (vm_cr3 s) v d = Some p" "d \<le> 3"
  shows "tab_get (entryget v (3 - d)) i s = Some (vm_mem s p i)" "tab_set (entryget v (3 - d)) i x s = Some (set_entry p i x s)"
    "tab_zero (entryget v (3 - d)) s = Some (s\<lparr>vm_mem := (vm_mem s)(p := (\<lambda>_. 0))\<rparr>)"
  using mmu_entryget [OF assms] by (simp_all add: tab_get_def tab_set_def tab_zero_def set_entry_def)

text \<open>The part of \<open>walk\<close> that makes a missing table.\<close>

lemma make_table:
  assumes ok: "vm_ok av s" and v: "plain v" "d < 3" "tab_at (vm_mem s) (vm_cr3 s) v d = Some p" "vm_mem s p (idx v d) AND PE_P = 0"
    and n: "unat n mod 4096 = 0" "unat n div 4096 \<in> av"
  shows "\<exists>s1 s2. tab_set (entryget v (3 - d)) (idx v d) (ADDR n OR PE_RW OR PE_P) s = Some s1
    \<and> tab_zero (entryget v (3 - Suc d)) s1 = Some s2 \<and> vm_pmm s2 = vm_pmm s
    \<and> vm_ok (av - {unat n div 4096}) s2 \<and> keeps s s2 \<and> tab_at (vm_mem s2) (vm_cr3 s2) v (Suc d) = Some n"
proof -
  let ?x = "ADDR n OR PE_RW OR PE_P" and ?c = "vm_cr3 s"
  have u: "unshared (vm_mem s) ?c" and r: "rec_ok s" using ok by (simp_all add: vm_ok_def)
  have "unat n div 4096 < 2 ^ 40" using ok n(2) by (auto simp: vm_ok_def)
  then have "unat n < 2 ^ 52" using n(1) by (simp add: div_less_iff_less_mult)
  note x = new_entry [OF n(1) this]
  define s1 where "s1 = set_entry p (idx v d) ?x s"
  have d: "d \<le> 3" using v(2) by simp
  have 1: "tab_set (entryget v (3 - d)) (idx v d) ?x s = Some s1"
    using tab_set_at(2) [OF r v(3) d] by (simp add: s1_def)
  have r1: "rec_ok s1" using rec_ok_write [OF r, of s1] not_rec_entry [OF u v(1) d v(3)] by (auto simp: s1_def)
  have "tab_at (vm_mem s1) ?c v d = Some p"
    using tab_at_prefix [OF u v(1) d v(3), of d] v(3) by (simp add: s1_def set_entry_def)
  then have t1: "tab_at (vm_mem s1) (vm_cr3 s1) v (Suc d) = Some n"
    using x by (simp add: tab_at_Suc s1_def del: tab_at.simps(2))
  have 2: "tab_zero (entryget v (3 - Suc d)) s1 = Some (s1\<lparr>vm_mem := (vm_mem s1)(n := (\<lambda>_. 0))\<rparr>)"
    by (rule tab_set_at(3) [OF r1 t1]) (use v(2) in simp)
  have "is_tab s p" using v d unfolding is_tab_def by blast
  then have "p \<noteq> n" using ok n(2) by (auto simp: vm_ok_def)
  then have "extends (vm_mem s) p (idx v d) ?x n (vm_mem (s1\<lparr>vm_mem := (vm_mem s1)(n := (\<lambda>_. 0))\<rparr>))"
    by (auto simp: extends_def s1_def)
  from add_table [OF ok v x n(2) _ this] have "vm_ok (av - {unat n div 4096}) (s1\<lparr>vm_mem := (vm_mem s1)(n := (\<lambda>_. 0))\<rparr>)
      \<and> keeps s (s1\<lparr>vm_mem := (vm_mem s1)(n := (\<lambda>_. 0))\<rparr>)
      \<and> tab_at (vm_mem (s1\<lparr>vm_mem := (vm_mem s1)(n := (\<lambda>_. 0))\<rparr>)) (vm_cr3 (s1\<lparr>vm_mem := (vm_mem s1)(n := (\<lambda>_. 0))\<rparr>)) v (Suc d) = Some n"
    by (simp add: s1_def)
  moreover have "vm_pmm (s1\<lparr>vm_mem := (vm_mem s1)(n := (\<lambda>_. 0))\<rparr>) = vm_pmm s" by (simp add: s1_def)
  ultimately show ?thesis using 1 2 by blast
qed

lemma with_pmm:
  "vm_ok av (s\<lparr>vm_pmm := p\<rparr>) = vm_ok av s" "keeps (s\<lparr>vm_pmm := p\<rparr>) s' = keeps s s'"
proof -
  have "leaf (s\<lparr>vm_pmm := p\<rparr>) v = leaf s v" "small (s\<lparr>vm_pmm := p\<rparr>) v = small s v" for v
    by (simp_all add: leaf_def small_def split: option.split)
  then show "vm_ok av (s\<lparr>vm_pmm := p\<rparr>) = vm_ok av s" "keeps (s\<lparr>vm_pmm := p\<rparr>) s' = keeps s s'"
    by (simp_all add: vm_ok_def rec_ok_def is_tab_def keeps_def)
qed

text \<open>What the page tables need of the allocator beyond \<open>page_alloc\<close>: a single page can be had as long as any is left.\<close>

locale page_source = page_alloc +
  assumes alloc_one: "invar s \<Longrightarrow> avail s \<noteq> {} \<Longrightarrow> \<exists>s' a. alloc s 1 = Some (s', a) \<and> a \<noteq> 0"
    and avail_finite: "invar s \<Longrightarrow> finite (avail s)"
begin

lemma alloc_page:
  assumes "invar s" "avail s \<noteq> {}"
  obtains s' a where "alloc s 1 = Some (s', a)" "a \<noteq> 0" "invar s'" "unat a mod 4096 = 0" "unat a div 4096 \<in> avail s"
    "avail s' = avail s - {unat a div 4096}"
proof -
  obtain s' a where a: "alloc s 1 = Some (s', a)" "a \<noteq> 0" using alloc_one [OF assms] by blast
  have f: "run_frames a 1 = {unat a div 4096}" by (auto simp: run_frames_def)
  have o1: "invar s'" "run_ok a 1" "run_frames a 1 \<subseteq> avail s" "avail s' = avail s - run_frames a 1"
    using alloc_ok [OF assms(1) a] by blast+
  have "unat a mod 4096 = 0" using o1(2) unfolding run_ok_def by blast
  then show thesis by (rule that [OF a o1(1)]) (use o1(3,4) f in simp_all)
qed

lemma walk_make_ok:
  assumes "invar (vm_pmm s)" "vm_ok (avail (vm_pmm s)) s" "plain v" "d < 3" "tab_at (vm_mem s) (vm_cr3 s) v d = Some p"
    "vm_mem s p (idx v d) AND PE_P = 0" "avail (vm_pmm s) \<noteq> {}"
  shows "\<exists>s' n. walk_make alloc v (3 - d) s = Some s' \<and> invar (vm_pmm s') \<and> vm_ok (avail (vm_pmm s')) s' \<and> keeps s s'
      \<and> tab_at (vm_mem s') (vm_cr3 s') v (Suc d) = Some n \<and> card (avail (vm_pmm s)) \<le> card (avail (vm_pmm s')) + 1"
proof -
  obtain q a where a: "alloc (vm_pmm s) 1 = Some (q, a)" "a \<noteq> 0" "invar q" "unat a mod 4096 = 0" "unat a div 4096 \<in> avail (vm_pmm s)"
    "avail q = avail (vm_pmm s) - {unat a div 4096}"
    by (rule alloc_page [OF assms(1,7)])
  have v: "vm_ok (avail (vm_pmm s)) (s\<lparr>vm_pmm := q\<rparr>)" "tab_at (vm_mem (s\<lparr>vm_pmm := q\<rparr>)) (vm_cr3 (s\<lparr>vm_pmm := q\<rparr>)) v d = Some p"
    "vm_mem (s\<lparr>vm_pmm := q\<rparr>) p (idx v d) AND PE_P = 0"
    using assms(2,5,6) by (simp_all add: with_pmm)
  obtain s1 s2 where s: "tab_set (entryget v (3 - d)) (idx v d) (ADDR a OR PE_RW OR PE_P) (s\<lparr>vm_pmm := q\<rparr>) = Some s1"
    "tab_zero (entryget v (3 - Suc d)) s1 = Some s2" "vm_pmm s2 = q" "vm_ok (avail q) s2" "keeps s s2"
    "tab_at (vm_mem s2) (vm_cr3 s2) v (Suc d) = Some a"
    using make_table [OF v(1) assms(3,4) v(2,3) a(4,5)] unfolding with_pmm a(6) by auto
  have "card (avail (vm_pmm s)) \<le> card (avail q) + 1"
    using a(5,6) avail_finite [OF assms(1)] by (simp add: card_Diff_singleton)
  moreover have "walk_make alloc v (3 - d) s = Some s2"
    using a(1,2) s(1,2) by (simp add: walk_make_def idx_def)
  ultimately show ?thesis using a(3) s(3-6) by blast
qed

end

lemma walk_mark_ok:
  assumes "vm_ok av s" "plain v" "d < 3" "tab_at (vm_mem s) (vm_cr3 s) v d = Some p"
  shows "\<exists>s'. walk_mark v flgs (3 - d) s = Some s' \<and> vm_pmm s' = vm_pmm s \<and> vm_ok av s' \<and> keeps s s'
      \<and> (\<forall>k. tab_at (vm_mem s') (vm_cr3 s') v k = tab_at (vm_mem s) (vm_cr3 s) v k)"
proof (cases "ucast flgs AND PE_US = 0")
  case True
  then show ?thesis using assms by (simp add: walk_mark_def vm_keeps_refl)
next
  case False
  have r: "rec_ok s" "d \<le> 3" using assms(1,3) by (simp_all add: vm_ok_def)
  have "walk_mark v flgs (3 - d) s = Some (set_entry p (idx v d) (vm_mem s p (idx v d) OR PE_US) s)"
    using False tab_set_at(1,2) [OF r(1) assms(4) r(2)] by (simp add: walk_mark_def idx_def)
  then show ?thesis using mark_entry [OF assms] by simp
qed

context page_source
begin

lemma walk_ok:
  assumes "invar (vm_pmm s)" "vm_ok (avail (vm_pmm s)) s" "plain v" "small s v" "lv \<le> 3" "tab_at (vm_mem s) (vm_cr3 s) v (3 - lv) = Some p"
    "lv \<le> card (avail (vm_pmm s))"
  shows "\<exists>s' q. walk alloc v flgs lv True s = Some (s', Some (entryget v 0, idx v 3)) \<and> invar (vm_pmm s')
    \<and> vm_ok (avail (vm_pmm s')) s' \<and> keeps s s' \<and> tab_at (vm_mem s') (vm_cr3 s') v 3 = Some q
    \<and> card (avail (vm_pmm s)) \<le> card (avail (vm_pmm s')) + lv"
  using assms
proof (induction lv arbitrary: s p)
  case 0
  then show ?case by (auto simp: vm_keeps_refl idx_def)
next
  case (Suc lv)
  let ?d = "3 - Suc lv"
  have d: "?d < 3" "3 - ?d = Suc lv" "Suc ?d = 3 - lv" and i: "idx v ?d = unat (IDX v (Suc lv))" using Suc.prems(5) by (auto simp: idx_def)
  have r: "rec_ok s" using Suc.prems(2) by (simp add: vm_ok_def)
  let ?e = "vm_mem s p (idx v ?d)"
  have "\<exists>s1 n. (if ?e AND PE_P = 0 then walk_make alloc v (Suc lv) s else Some s) = Some s1 \<and> invar (vm_pmm s1) \<and> vm_ok (avail (vm_pmm s1)) s1
      \<and> keeps s s1 \<and> tab_at (vm_mem s1) (vm_cr3 s1) v (Suc ?d) = Some n \<and> card (avail (vm_pmm s)) \<le> card (avail (vm_pmm s1)) + 1"
  proof (cases "?e AND PE_P = 0")
    case True
    have "avail (vm_pmm s) \<noteq> {}" using Suc.prems(7) by auto
    from walk_make_ok [OF Suc.prems(1-3) d(1) Suc.prems(6) True this] show ?thesis using True unfolding d(2) by simp
  next
    case False
    then have "link ?e" using Suc.prems(4,6) d(1) unfolding small_def link_def by blast
    then have "tab_at (vm_mem s) (vm_cr3 s) v (Suc ?d) = Some (hw_addr ?e)" using Suc.prems(6) by simp
    then show ?thesis using False Suc.prems(1,2) vm_keeps_refl [of s] by (intro exI [of _ s] exI [of _ "hw_addr ?e"]) simp
  qed
  then obtain s1 n where s1: "(if ?e AND PE_P = 0 then walk_make alloc v (Suc lv) s else Some s) = Some s1"
      "invar (vm_pmm s1)" "vm_ok (avail (vm_pmm s1)) s1" "keeps s s1"
      "tab_at (vm_mem s1) (vm_cr3 s1) v (Suc ?d) = Some n" "card (avail (vm_pmm s)) \<le> card (avail (vm_pmm s1)) + 1"
    by blast
  obtain q where q: "tab_at (vm_mem s1) (vm_cr3 s1) v ?d = Some q" using s1(5) by (auto simp: tab_at_Suc simp del: tab_at.simps(2))
  obtain s2 where s2: "walk_mark v flgs (Suc lv) s1 = Some s2" "vm_pmm s2 = vm_pmm s1" "vm_ok (avail (vm_pmm s1)) s2" "keeps s1 s2"
      "tab_at (vm_mem s2) (vm_cr3 s2) v (3 - lv) = Some n"
    using walk_mark_ok [OF s1(3) Suc.prems(3) d(1) q, of flgs] s1(5) unfolding d(2,3) by auto
  have k: "keeps s s2" by (rule vm_keeps_trans [OF s1(4) s2(4)])
  have "tab_get (entryget v (Suc lv)) (unat (IDX v (Suc lv))) s = Some ?e"
    using tab_set_at(1) [OF r Suc.prems(6)] unfolding d(2) i by simp
  then have w: "walk alloc v flgs (Suc lv) True s = walk alloc v flgs lv True s2" using s1(1) s2(1) by simp
  have "small s2 v" using k Suc.prems(3,4) by (simp add: keeps_def)
  moreover have "invar (vm_pmm s2)" "vm_ok (avail (vm_pmm s2)) s2" "lv \<le> card (avail (vm_pmm s2))" "lv \<le> 3"
    using s1(2,6) s2(2,3) Suc.prems(5,7) by simp_all
  ultimately obtain s' t where "walk alloc v flgs lv True s2 = Some (s', Some (entryget v 0, idx v 3))" "invar (vm_pmm s')"
    "vm_ok (avail (vm_pmm s')) s'" "keeps s2 s'" "tab_at (vm_mem s') (vm_cr3 s') v 3 = Some t"
    "card (avail (vm_pmm s2)) \<le> card (avail (vm_pmm s')) + lv"
    using Suc.IH [OF _ _ Suc.prems(3) _ _ s2(5)] by blast
  then show ?case using w vm_keeps_trans [OF k, of s'] s1(6) s2(2) by (intro exI [of _ s'] exI [of _ t]) simp
qed

end

end
