(* ===== verification/Mm_Vmap.thy ===== *)
theory Mm_Vmap
  imports Mm_Map
begin

text \<open>
  What \<open>vmap_map\<close>, \<open>vmap_unmap\<close> and \<open>vmap_query\<close> do to an address space, in terms of the processor's translation.
\<close>

section \<open>Page numbers\<close>

definition vpn :: "addr_t \<Rightarrow> nat" where
  "vpn v = unat v div 4096 mod 2 ^ 36"

lemma vpn_bits: "unat (take_bit 36 (drop_bit 12 v)) = vpn v"
  by (simp add: vpn_def drop_bit_eq_div take_bit_eq_mod unat_div_distrib unat_mod_distrib)

lemma agree_vpn: "agree v v' 4 \<longleftrightarrow> vpn v = vpn v'"
proof -
  have b: "IDX v l = IDX v' l \<longleftrightarrow> (\<forall>n<9. bit v (l * 9 + 12 + n) = bit v' (l * 9 + 12 + n))" for l
  proof -
    have "IDX v l = IDX v' l \<longleftrightarrow> (\<forall>n. bit (IDX v l) n = bit (IDX v' l) n)" by (metis bit_eqI)
    then show ?thesis unfolding IDX_bit by blast
  qed
  have "agree v v' 4 \<longleftrightarrow> (\<forall>l<4. IDX v l = IDX v' l)"
  proof
    assume a: "agree v v' 4"
    show "\<forall>l<4. IDX v l = IDX v' l"
    proof (intro allI impI)
      fix l :: nat assume "l < 4"
      then have "idx v (3 - l) = idx v' (3 - l)" "3 - (3 - l) = l" using a by (auto simp: agree_def)
      then show "IDX v l = IDX v' l" by (simp add: idx_def word_unat_eq_iff)
    qed
  qed (auto simp: agree_def idx_def)
  also have "\<dots> \<longleftrightarrow> (\<forall>n<36. bit v (12 + n) = bit v' (12 + n))"
  proof
    assume a: "\<forall>l<4. IDX v l = IDX v' l"
    show "\<forall>n<36. bit v (12 + n) = bit v' (12 + n)"
    proof (intro allI impI)
      fix n :: nat assume n: "n < 36"
      then have "n div 9 < 4" "n mod 9 < 9" "n div 9 * 9 + 12 + n mod 9 = 12 + n" by (simp_all add: less_mult_imp_div_less)
      then show "bit v (12 + n) = bit v' (12 + n)" using a b by metis
    qed
  next
    assume a: "\<forall>n<36. bit v (12 + n) = bit v' (12 + n)"
    have "bit v (l * 9 + 12 + n) = bit v' (l * 9 + 12 + n)" if "l < 4" "n < 9" for l n
      using a [rule_format, of "l * 9 + n"] that by (simp add: ac_simps)
    then show "\<forall>l<4. IDX v l = IDX v' l" using b by blast
  qed
  also have "\<dots> \<longleftrightarrow> take_bit 36 (drop_bit 12 v) = take_bit 36 (drop_bit 12 v')"
  proof -
    have "take_bit 36 (drop_bit 12 v) = take_bit 36 (drop_bit 12 v')
        \<longleftrightarrow> (\<forall>n. bit (take_bit 36 (drop_bit 12 v)) n = bit (take_bit 36 (drop_bit 12 v')) n)" by (metis bit_eqI)
    then show ?thesis unfolding bit_take_bit_iff bit_drop_bit_eq comp_def by blast
  qed
  also have "\<dots> \<longleftrightarrow> vpn v = vpn v'"
    by (simp add: word_unat_eq_iff vpn_bits)
  finally show ?thesis .
qed

lemma vpn_add: "vpn (v + of_nat k * PAGE_SIZ) = (vpn v + k) mod 2 ^ 36"
proof -
  have u: "unat (v + of_nat k * PAGE_SIZ) = take_bit 64 (unat v + k * 4096)"
    by (simp add: PAGE_SIZ_def unat_word_ariths unat_of_nat take_bit_eq_mod mod_simps)
  have "vpn (v + of_nat k * PAGE_SIZ) = take_bit 36 (drop_bit 12 (take_bit 64 (unat v + k * 4096)))"
    unfolding vpn_def u by (simp add: take_bit_eq_mod drop_bit_eq_div)
  also have "\<dots> = take_bit 36 (drop_bit 12 (unat v + k * 4096))" by (simp add: drop_bit_take_bit)
  also have "\<dots> = (unat v div 4096 + k) mod 2 ^ 36" by (simp add: take_bit_eq_mod drop_bit_eq_div add.commute)
  also have "\<dots> = (vpn v + k) mod 2 ^ 36" by (simp add: vpn_def mod_simps)
  finally show ?thesis .
qed

section \<open>Translation and query\<close>

lemma tab_at_None: "tab_at mem c v d = None \<Longrightarrow> d \<le> k \<Longrightarrow> tab_at mem c v k = None"
  by (induction k) (auto simp: le_Suc_eq)

lemma leaf_absent:
  assumes "d < 3" "tab_at (vm_mem s) (vm_cr3 s) v d = Some p" "vm_mem s p (idx v d) AND PE_P = 0"
  shows "leaf s v = 0"
proof -
  have "tab_at (vm_mem s) (vm_cr3 s) v (Suc d) = None" using assms(2,3) by (simp add: link_def)
  then have "tab_at (vm_mem s) (vm_cr3 s) v 3 = None" by (rule tab_at_None) (use assms(1) in simp)
  then show ?thesis by (simp add: leaf_def)
qed

lemma mmu_leaf:
  assumes "small s v"
  shows "mmu s v = (if leaf s v AND PE_P = 0 then None else Some (hw_addr (leaf s v)))"
proof -
  let ?m = "vm_mem s" and ?c = "vm_cr3 s"
  have "mmu_walk ?m p v lv = (if leaf s v AND PE_P = 0 then None else Some (hw_addr (leaf s v)))"
    if "lv \<le> 3" "tab_at ?m ?c v (3 - lv) = Some p" for lv p
    using that
  proof (induction lv arbitrary: p)
    case 0
    then show ?case by (subst mmu_walk.simps) (simp add: leaf_def idx_def Let_def)
  next
    case (Suc lv)
    let ?d = "3 - Suc lv"
    have d: "?d < 3" "Suc ?d = 3 - lv" "idx v ?d = unat (IDX v (Suc lv))" using Suc.prems(1) by (auto simp: idx_def)
    let ?e = "?m p (idx v ?d)"
    show ?case
    proof (cases "?e AND PE_P = 0")
      case True
      then have "leaf s v = 0" by (rule leaf_absent [OF d(1) Suc.prems(2)])
      then show ?thesis using True d(3) by (subst mmu_walk.simps) (simp add: Let_def)
    next
      case False
      then have b: "\<not> bit ?e 7" using assms Suc.prems(2) d(1) unfolding small_def by blast
      then have "tab_at ?m ?c v (Suc ?d) = Some (hw_addr ?e)" using False Suc.prems(2) by (simp add: link_def)
      then have "mmu_walk ?m (hw_addr ?e) v lv = (if leaf s v AND PE_P = 0 then None else Some (hw_addr (leaf s v)))"
        using Suc.IH Suc.prems(1) unfolding d(2) by simp
      moreover have "mmu_walk ?m p v (Suc lv) = mmu_walk ?m (hw_addr ?e) v lv"
        using False b d(3) by (subst mmu_walk.simps) (simp add: Let_def)
      ultimately show ?thesis by simp
    qed
  qed
  from this [of 3 ?c] show ?thesis by (simp add: mmu_def)
qed

lemma vmap_query_leaf:
  assumes "vm_ok av s" "small s v"
  shows "vmap_query v s = Some (if leaf s v AND PE_P = 0 then 0 else ADDR (leaf s v) OR (v AND mask 12))"
proof -
  let ?m = "vm_mem s" and ?c = "vm_cr3 s"
  have r: "rec_ok s" using assms(1) by (simp add: vm_ok_def)
  have "qry_walk v lv s = Some (if leaf s v AND PE_P = 0 then 0 else ADDR (leaf s v) OR (v AND mask 12))"
    if "lv \<le> 3" "tab_at ?m ?c v (3 - lv) = Some p" for lv p
    using that
  proof (induction lv arbitrary: p)
    case 0
    then have "tab_get (entryget v 0) i s = Some (?m p i)" for i using tab_set_at(1) [OF r 0(2)] by simp
    then show ?case using 0 by (subst qry_walk.simps) (simp add: leaf_def idx_def)
  next
    case (Suc lv)
    let ?d = "3 - Suc lv"
    have d: "?d < 3" "Suc ?d = 3 - lv" "3 - ?d = Suc lv" "idx v ?d = unat (IDX v (Suc lv))" using Suc.prems(1) by (auto simp: idx_def)
    let ?e = "?m p (idx v ?d)"
    have g: "tab_get (entryget v (Suc lv)) (unat (IDX v (Suc lv))) s = Some ?e"
      using tab_set_at(1) [OF r Suc.prems(2)] unfolding d(3,4) by simp
    show ?case
    proof (cases "?e AND PE_P = 0")
      case True
      then have "leaf s v = 0" by (rule leaf_absent [OF d(1) Suc.prems(2)])
      then show ?thesis using True g by (subst qry_walk.simps) simp
    next
      case False
      then have b: "\<not> bit ?e 7" using assms(2) Suc.prems(2) d(1) unfolding small_def by blast
      then have "tab_at ?m ?c v (Suc ?d) = Some (hw_addr ?e)" using False Suc.prems(2) by (simp add: link_def)
      then have "qry_walk v lv s = Some (if leaf s v AND PE_P = 0 then 0 else ADDR (leaf s v) OR (v AND mask 12))"
        using Suc.IH Suc.prems(1) unfolding d(2) by simp
      then show ?thesis using False b g by (subst qry_walk.simps) simp
    qed
  qed
  from this [of 3 ?c] show ?thesis by (simp add: vmap_query_def)
qed

section \<open>Runs of pages\<close>

text \<open>The entries of \<open>n\<close> pages from \<open>vrt\<close> on are given by \<open>f\<close>, all others are as before.\<close>

definition mapped :: "'p vm_t \<Rightarrow> 'p vm_t \<Rightarrow> addr_t \<Rightarrow> nat \<Rightarrow> (nat \<Rightarrow> u64) \<Rightarrow> bool" where
  "mapped s s' vrt n f \<longleftrightarrow> (\<forall>v. plain v \<longrightarrow>
     (\<forall>k<n. vpn v = (vpn vrt + k) mod 2 ^ 36 \<longrightarrow> leaf s' v = f k)
     \<and> ((\<forall>k<n. vpn v \<noteq> (vpn vrt + k) mod 2 ^ 36) \<longrightarrow> leaf s' v = leaf s v) \<and> (small s v \<longrightarrow> small s' v))"

lemma mapped_Nil: "mapped s s vrt 0 f"
  by (simp add: mapped_def)

lemma shift_page:
  assumes "(a :: nat) < M" "j < M" "(a + j) mod M = a"
  shows "j = 0"
proof (cases "a + j < M")
  case False
  then have "(a + j) mod M = (a + j - M) mod M" by (simp add: le_mod_geq)
  also have "\<dots> = a + j - M" using assms(1,2) by simp
  finally show ?thesis using assms False by simp
qed (use assms in simp)

lemma mapped_Suc:
  assumes 1: "\<And>v. plain v \<Longrightarrow> leaf s1 v = (if vpn v = vpn vrt then x else leaf s v) \<and> (small s v \<longrightarrow> small s1 v)"
    and 2: "mapped s1 s2 (vrt + PAGE_SIZ) n f" and n: "Suc n \<le> 2 ^ 36"
  shows "mapped s s2 vrt (Suc n) (case_nat x f)"
  unfolding mapped_def
proof (intro allI impI conjI)
  fix v assume v: "plain v"
  have p: "vpn (vrt + PAGE_SIZ) = (vpn vrt + 1) mod 2 ^ 36" using vpn_add [of vrt 1] by simp
  have k: "(vpn (vrt + PAGE_SIZ) + k) mod 2 ^ 36 = (vpn vrt + Suc k) mod 2 ^ 36" for k unfolding p by (simp add: mod_simps)
  have lt: "vpn vrt < 2 ^ 36" by (simp add: vpn_def)
  note m = 2 [unfolded mapped_def k, rule_format, OF v]
  show "leaf s2 v = case_nat x f j" if j: "j < Suc n" "vpn v = (vpn vrt + j) mod 2 ^ 36" for j
  proof (cases j)
    case 0
    then have "vpn v = vpn vrt" using j lt by simp
    moreover have "vpn v \<noteq> (vpn vrt + Suc k) mod 2 ^ 36" if "k < n" for k
      using shift_page [OF lt, of "Suc k"] that n calculation by auto
    ultimately show ?thesis using m 1 [OF v] 0 by auto
  next
    case (Suc k)
    then show ?thesis using m j by auto
  qed
  show "leaf s2 v = leaf s v" if a: "\<forall>k<Suc n. vpn v \<noteq> (vpn vrt + k) mod 2 ^ 36"
  proof -
    have "vpn v \<noteq> vpn vrt" using a [rule_format, of 0] lt by simp
    then show ?thesis using m 1 [OF v] a by auto
  qed
  show "small s2 v" if "small s v" using m 1 [OF v] that by blast
qed

context page_source
begin

lemma page_set:
  assumes s: "invar (vm_pmm s)" "vm_ok (avail (vm_pmm s)) s" "plain v" "small s v" "3 \<le> card (avail (vm_pmm s))"
  shows "\<exists>s1 s2. walk alloc v flgs 3 True s = Some (s1, Some (entryget v 0, idx v 3)) \<and> tab_set (entryget v 0) (idx v 3) x s1 = Some s2
    \<and> invar (vm_pmm s2) \<and> vm_ok (avail (vm_pmm s2)) s2 \<and> card (avail (vm_pmm s)) \<le> card (avail (vm_pmm s2)) + 3
    \<and> (\<forall>v'. plain v' \<longrightarrow> leaf s2 v' = (if vpn v' = vpn v then x else leaf s v') \<and> (small s v' \<longrightarrow> small s2 v'))"
proof -
  have "tab_at (vm_mem s) (vm_cr3 s) v (3 - 3) = Some (vm_cr3 s)" by simp
  from walk_ok [OF s(1-4) _ this s(5), of flgs] obtain s1 q where s1: "walk alloc v flgs 3 True s = Some (s1, Some (entryget v 0, idx v 3))"
    "invar (vm_pmm s1)" "vm_ok (avail (vm_pmm s1)) s1" "keeps s s1" "tab_at (vm_mem s1) (vm_cr3 s1) v 3 = Some q"
    "card (avail (vm_pmm s)) \<le> card (avail (vm_pmm s1)) + 3"
    by auto
  let ?s2 = "set_entry q (idx v 3) x s1"
  have "tab_set (entryget v 0) (idx v 3) x s1 = Some ?s2"
    using tab_set_at(2) [OF _ s1(5)] s1(3) by (simp add: vm_ok_def)
  moreover have "vm_ok (avail (vm_pmm s1)) ?s2"
    "\<forall>v'. plain v' \<longrightarrow> leaf ?s2 v' = (if vpn v' = vpn v then x else leaf s1 v') \<and> (small s1 v' \<longrightarrow> small ?s2 v')"
    using set_leaf [OF s1(3) s(3) s1(5), of x] unfolding agree_vpn by (simp_all add: eq_commute)
  ultimately show ?thesis using s1 by (intro exI [of _ s1] exI [of _ ?s2]) (simp add: keeps_def)
qed

lemma page_range:
  assumes "\<forall>k<Suc n. plain (vrt + of_nat k * PAGE_SIZ) \<and> small s (vrt + of_nat k * PAGE_SIZ)"
    "\<forall>v'. plain v' \<longrightarrow> small s v' \<longrightarrow> small s2 v'"
  shows "plain vrt \<and> small s vrt" "\<forall>k<n. plain (vrt + PAGE_SIZ + of_nat k * PAGE_SIZ) \<and> small s2 (vrt + PAGE_SIZ + of_nat k * PAGE_SIZ)"
proof -
  show "plain vrt \<and> small s vrt" using assms(1) [rule_format, of 0] by simp
  show "\<forall>k<n. plain (vrt + PAGE_SIZ + of_nat k * PAGE_SIZ) \<and> small s2 (vrt + PAGE_SIZ + of_nat k * PAGE_SIZ)"
  proof (intro allI impI)
    fix k assume "k < n"
    then have "plain (vrt + of_nat (Suc k) * PAGE_SIZ) \<and> small s (vrt + of_nat (Suc k) * PAGE_SIZ)" using assms(1) by blast
    moreover have "vrt + of_nat (Suc k) * PAGE_SIZ = vrt + PAGE_SIZ + of_nat k * PAGE_SIZ" by (simp add: algebra_simps)
    ultimately show "plain (vrt + PAGE_SIZ + of_nat k * PAGE_SIZ) \<and> small s2 (vrt + PAGE_SIZ + of_nat k * PAGE_SIZ)"
      using assms(2) by metis
  qed
qed

lemma vmap_map_loop_ok:
  assumes "invar (vm_pmm s)" "vm_ok (avail (vm_pmm s)) s" "3 * n \<le> card (avail (vm_pmm s))" "n \<le> 2 ^ 36"
    "\<forall>k<n. plain (vrt + of_nat k * PAGE_SIZ) \<and> small s (vrt + of_nat k * PAGE_SIZ)"
  shows "\<exists>s'. vmap_map_loop alloc phy vrt n flgs s = Some s' \<and> invar (vm_pmm s') \<and> vm_ok (avail (vm_pmm s')) s'
    \<and> mapped s s' vrt n (\<lambda>k. ADDR (phy + of_nat k * PAGE_SIZ) OR FLAG (ucast flgs))"
  using assms
proof (induction n arbitrary: s vrt phy)
  case 0
  then show ?case by (simp add: mapped_Nil)
next
  case (Suc n)
  let ?f = "\<lambda>phy k. ADDR (phy + of_nat k * PAGE_SIZ) OR FLAG (ucast flgs)"
  have v: "plain vrt" "small s vrt" using Suc.prems(5) [rule_format, of 0] by simp_all
  obtain s1 s2 where s: "walk alloc vrt (ucast flgs) 3 True s = Some (s1, Some (entryget vrt 0, idx vrt 3))"
    "tab_set (entryget vrt 0) (idx vrt 3) (?f phy 0) s1 = Some s2" "invar (vm_pmm s2)" "vm_ok (avail (vm_pmm s2)) s2"
    "card (avail (vm_pmm s)) \<le> card (avail (vm_pmm s2)) + 3"
    "\<forall>v'. plain v' \<longrightarrow> leaf s2 v' = (if vpn v' = vpn vrt then ?f phy 0 else leaf s v') \<and> (small s v' \<longrightarrow> small s2 v')"
    using page_set [OF Suc.prems(1,2) v, of "ucast flgs" "?f phy 0"] Suc.prems(3) by auto
  have r: "\<forall>k<n. plain (vrt + PAGE_SIZ + of_nat k * PAGE_SIZ) \<and> small s2 (vrt + PAGE_SIZ + of_nat k * PAGE_SIZ)"
    using page_range(2) [OF Suc.prems(5), of s2] s(6) by blast
  have c: "3 * n \<le> card (avail (vm_pmm s2))" "n \<le> 2 ^ 36" using Suc.prems(3,4) s(5) by simp_all
  obtain s' where s': "vmap_map_loop alloc (phy + PAGE_SIZ) (vrt + PAGE_SIZ) n flgs s2 = Some s'" "invar (vm_pmm s')"
    "vm_ok (avail (vm_pmm s')) s'" "mapped s2 s' (vrt + PAGE_SIZ) n (?f (phy + PAGE_SIZ))"
    using Suc.IH [OF s(3,4) c r] by blast
  have e: "case_nat (?f phy 0) (?f (phy + PAGE_SIZ)) = ?f phy" by (simp add: fun_eq_iff algebra_simps split: nat.split)
  have "mapped s s' vrt (Suc n) (case_nat (?f phy 0) (?f (phy + PAGE_SIZ)))"
    by (rule mapped_Suc [OF _ s'(4) Suc.prems(4)]) (use s(6) in blast)
  then have "mapped s s' vrt (Suc n) (?f phy)" unfolding e .
  moreover have "vmap_map_loop alloc phy vrt (Suc n) flgs s = Some s'" using s(1,2) s'(1) by simp
  ultimately show ?case using s'(2,3) by blast
qed

lemma vmap_unmap_loop_ok:
  assumes "invar (vm_pmm s)" "vm_ok (avail (vm_pmm s)) s" "3 * n \<le> card (avail (vm_pmm s))" "n \<le> 2 ^ 36"
    "\<forall>k<n. plain (vrt + of_nat k * PAGE_SIZ) \<and> small s (vrt + of_nat k * PAGE_SIZ)"
  shows "\<exists>s'. vmap_unmap_loop alloc vrt n s = Some s' \<and> invar (vm_pmm s') \<and> vm_ok (avail (vm_pmm s')) s' \<and> mapped s s' vrt n (\<lambda>k. 0)"
  using assms
proof (induction n arbitrary: s vrt)
  case 0
  then show ?case by (simp add: mapped_Nil)
next
  case (Suc n)
  have v: "plain vrt" "small s vrt" using Suc.prems(5) [rule_format, of 0] by simp_all
  obtain s1 s2 where s: "walk alloc vrt 0 3 True s = Some (s1, Some (entryget vrt 0, idx vrt 3))"
    "tab_set (entryget vrt 0) (idx vrt 3) 0 s1 = Some s2" "invar (vm_pmm s2)" "vm_ok (avail (vm_pmm s2)) s2"
    "card (avail (vm_pmm s)) \<le> card (avail (vm_pmm s2)) + 3"
    "\<forall>v'. plain v' \<longrightarrow> leaf s2 v' = (if vpn v' = vpn vrt then 0 else leaf s v') \<and> (small s v' \<longrightarrow> small s2 v')"
    using page_set [OF Suc.prems(1,2) v, of 0 0] Suc.prems(3) by auto
  have r: "\<forall>k<n. plain (vrt + PAGE_SIZ + of_nat k * PAGE_SIZ) \<and> small s2 (vrt + PAGE_SIZ + of_nat k * PAGE_SIZ)"
    using page_range(2) [OF Suc.prems(5), of s2] s(6) by blast
  have c: "3 * n \<le> card (avail (vm_pmm s2))" "n \<le> 2 ^ 36" using Suc.prems(3,4) s(5) by simp_all
  obtain s' where s': "vmap_unmap_loop alloc (vrt + PAGE_SIZ) n s2 = Some s'" "invar (vm_pmm s')"
    "vm_ok (avail (vm_pmm s')) s'" "mapped s2 s' (vrt + PAGE_SIZ) n (\<lambda>k. 0)"
    using Suc.IH [OF s(3,4) c r] by blast
  have e: "case_nat 0 (\<lambda>k. 0) = (\<lambda>k. 0 :: u64)" by (simp add: fun_eq_iff split: nat.split)
  have "mapped s s' vrt (Suc n) (case_nat 0 (\<lambda>k. 0))"
    by (rule mapped_Suc [OF _ s'(4) Suc.prems(4)]) (use s(6) in blast)
  then have "mapped s s' vrt (Suc n) (\<lambda>k. 0)" unfolding e .
  moreover have "vmap_unmap_loop alloc vrt (Suc n) s = Some s'" using s(1,2) s'(1) by simp
  ultimately show ?case using s'(2,3) by blast
qed

end

section \<open>On the frames of the physical memory manager\<close>

interpretation ps: page_source "\<lambda>p. list_ok (pm_list p)" "\<lambda>p. frames (pm_list p)" pmm_allocpages
proof unfold_locales
  fix p :: pmm_t
  assume p: "list_ok (pm_list p)"
  show "finite (frames (pm_list p))" by (simp add: frames_def node_frames_def)
  assume f: "frames (pm_list p) \<noteq> {}"
  then have n: "pm_list p \<noteq> []" by auto
  obtain l a where l: "pmm_alloc_loop 1 (pm_list p) = Some (l, a)" using pmm_alloc_loop_total [OF n] by blast
  have post: "alloc_post 1 (pm_list p) l a" by (rule pmm_alloc_loop_correct [OF p l])
  obtain m where m: "m \<in> set (pm_list p)" using n by (cases "pm_list p") auto
  have "fr_pages m \<noteq> 0" using list_ok_nodes [OF p m] by (simp add: node_ok_def)
  then have "\<not> fr_pages m < 1" by (metis word_less_1)
  then have "a \<noteq> 0" using post m by (auto simp: alloc_post_def)
  then show "\<exists>s' a. pmm_allocpages p 1 = Some (s', a) \<and> a \<noteq> 0"
    using l by (simp add: pmm_allocpages_def Let_def)
qed

lemma map_entry:
  "hw_addr (ADDR x OR FLAG f) = hw_addr x" "ADDR (ADDR x OR FLAG f) = ADDR x" "(ADDR x OR FLAG f) AND PE_P = f AND PE_P"
proof -
  have A: "(0x7FF :: u64) = mask 11" by (simp add: mask_eq_exp_minus_1)
  have H: "(0x000FFFFFFFFFF000 :: u64) = mask 52 AND NOT (mask 12)" by (simp add: mask_eq_exp_minus_1)
  have P: "PE_P = mask 1" by (simp add: PE_P_def)
  show "hw_addr (ADDR x OR FLAG f) = hw_addr x"
    unfolding hw_addr_def ADDR_def FLAG_def A H by (rule bit_eqI) (auto simp: bit_simps)
  show "ADDR (ADDR x OR FLAG f) = ADDR x"
    unfolding ADDR_def FLAG_def A by (rule bit_eqI) (auto simp: bit_simps)
  show "(ADDR x OR FLAG f) AND PE_P = f AND PE_P"
    unfolding ADDR_def FLAG_def A P by (rule bit_eqI) (auto simp: bit_simps)
qed

text \<open>
  The processor translates every address of a run of \<open>n\<close> pages to its frame from \<open>phy\<close> on, \<open>vmap_query\<close> returns
  its physical address, and every other address is translated and answered as before.
\<close>

definition maps_run :: "'p vm_t \<Rightarrow> 'p vm_t \<Rightarrow> addr_t \<Rightarrow> addr_t \<Rightarrow> nat \<Rightarrow> bool" where
  "maps_run s s' phy vrt n \<longleftrightarrow> (\<forall>v. plain v \<and> small s v \<longrightarrow>
     (\<forall>k<n. vpn v = (vpn vrt + k) mod 2 ^ 36 \<longrightarrow>
        mmu s' v = Some (hw_addr (phy + of_nat k * PAGE_SIZ)) \<and> vmap_query v s' = Some (ADDR (phy + of_nat k * PAGE_SIZ) OR (v AND mask 12)))
     \<and> ((\<forall>k<n. vpn v \<noteq> (vpn vrt + k) mod 2 ^ 36) \<longrightarrow> mmu s' v = mmu s v \<and> vmap_query v s' = vmap_query v s))"

lemma vmap_map_spec:
  assumes "list_ok (pm_list (vm_pmm s))" "vm_ok (frames (pm_list (vm_pmm s))) s" "3 * unat num \<le> card (frames (pm_list (vm_pmm s)))"
    "unat num \<le> 2 ^ 36" "ucast flgs AND PE_P \<noteq> 0"
    "\<forall>k<unat num. plain (vrt + of_nat k * PAGE_SIZ) \<and> small s (vrt + of_nat k * PAGE_SIZ)"
  shows "\<exists>s'. vmap_map pmm_allocpages phy vrt num flgs s = Some s' \<and> list_ok (pm_list (vm_pmm s')) \<and> vm_ok (frames (pm_list (vm_pmm s'))) s'
    \<and> maps_run s s' phy vrt (unat num)"
proof -
  obtain s' where s': "vmap_map_loop pmm_allocpages phy vrt (unat num) flgs s = Some s'" "list_ok (pm_list (vm_pmm s'))"
    "vm_ok (frames (pm_list (vm_pmm s'))) s'"
    "mapped s s' vrt (unat num) (\<lambda>k. ADDR (phy + of_nat k * PAGE_SIZ) OR FLAG (ucast flgs))"
    using ps.vmap_map_loop_ok [OF assms(1-4,6)] by blast
  have "maps_run s s' phy vrt (unat num)"
    unfolding maps_run_def
  proof (intro allI impI)
    fix v assume v: "plain v \<and> small s v"
    note m = s'(4) [unfolded mapped_def, rule_format, OF conjunct1 [OF v]]
    have sm: "small s' v" using m v by blast
    note q = mmu_leaf [OF sm] mmu_leaf [OF conjunct2 [OF v]] vmap_query_leaf [OF s'(3) sm] vmap_query_leaf [OF assms(2) conjunct2 [OF v]]
    show "(\<forall>k<unat num. vpn v = (vpn vrt + k) mod 2 ^ 36 \<longrightarrow>
        mmu s' v = Some (hw_addr (phy + of_nat k * PAGE_SIZ)) \<and> vmap_query v s' = Some (ADDR (phy + of_nat k * PAGE_SIZ) OR (v AND mask 12)))
     \<and> ((\<forall>k<unat num. vpn v \<noteq> (vpn vrt + k) mod 2 ^ 36) \<longrightarrow> mmu s' v = mmu s v \<and> vmap_query v s' = vmap_query v s)"
      unfolding q using m assms(5) by (auto simp: map_entry)
  qed
  then show ?thesis using s'(1-3) by (auto simp: vmap_map_def)
qed

text \<open>
  C2: mapping a run of pages. With three free frames for every page, \<open>vmap_map\<close> returns and keeps the address space and the free list
  well-formed; afterwards the processor translates every address of the run to its frame, \<open>vmap_query\<close> returns
  its physical address, and every other address is translated and answered as before.
\<close>

theorem vmap_map_translates:
  assumes "list_ok (pm_list (vm_pmm s))" "vm_ok (frames (pm_list (vm_pmm s))) s" "3 * unat num \<le> card (frames (pm_list (vm_pmm s)))"
    "unat num \<le> 2 ^ 36" "ucast flgs AND PE_P \<noteq> 0"
    "\<forall>k<unat num. plain (vrt + of_nat k * PAGE_SIZ) \<and> small s (vrt + of_nat k * PAGE_SIZ)"
  shows "\<exists>s'. vmap_map pmm_allocpages phy vrt num flgs s = Some s' \<and> list_ok (pm_list (vm_pmm s')) \<and> vm_ok (frames (pm_list (vm_pmm s'))) s'
    \<and> maps_run s s' phy vrt (unat num)"
  by (rule vmap_map_spec [OF assms])

text \<open>
  C11: unmapping a run of pages. Afterwards no address of the run is translated, \<open>vmap_query\<close> returns zero for it, and every
  other address is translated and answered as before.
\<close>

theorem vmap_unmap_removes:
  assumes "list_ok (pm_list (vm_pmm s))" "vm_ok (frames (pm_list (vm_pmm s))) s" "3 * unat num \<le> card (frames (pm_list (vm_pmm s)))"
    "unat num \<le> 2 ^ 36" "\<forall>k<unat num. plain (vrt + of_nat k * PAGE_SIZ) \<and> small s (vrt + of_nat k * PAGE_SIZ)"
  shows "\<exists>s'. vmap_unmap pmm_allocpages vrt num s = Some s' \<and> list_ok (pm_list (vm_pmm s')) \<and> vm_ok (frames (pm_list (vm_pmm s'))) s'
    \<and> (\<forall>v. plain v \<and> small s v \<longrightarrow>
         (\<forall>k<unat num. vpn v = (vpn vrt + k) mod 2 ^ 36 \<longrightarrow> mmu s' v = None \<and> vmap_query v s' = Some 0)
         \<and> ((\<forall>k<unat num. vpn v \<noteq> (vpn vrt + k) mod 2 ^ 36) \<longrightarrow> mmu s' v = mmu s v \<and> vmap_query v s' = vmap_query v s))"
proof -
  obtain s' where s': "vmap_unmap_loop pmm_allocpages vrt (unat num) s = Some s'" "list_ok (pm_list (vm_pmm s'))"
    "vm_ok (frames (pm_list (vm_pmm s'))) s'" "mapped s s' vrt (unat num) (\<lambda>k. 0)"
    using ps.vmap_unmap_loop_ok [OF assms] by blast
  have "(\<forall>k<unat num. vpn v = (vpn vrt + k) mod 2 ^ 36 \<longrightarrow> mmu s' v = None \<and> vmap_query v s' = Some 0)
         \<and> ((\<forall>k<unat num. vpn v \<noteq> (vpn vrt + k) mod 2 ^ 36) \<longrightarrow> mmu s' v = mmu s v \<and> vmap_query v s' = vmap_query v s)"
    if v: "plain v" "small s v" for v
  proof -
    note m = s'(4) [unfolded mapped_def, rule_format, OF v(1)]
    have sm: "small s' v" using m v(2) by blast
    note q = mmu_leaf [OF sm] mmu_leaf [OF v(2)] vmap_query_leaf [OF s'(3) sm] vmap_query_leaf [OF assms(2) v(2)]
    show ?thesis unfolding q using m by auto
  qed
  then show ?thesis using s'(1-3) by (auto simp: vmap_unmap_def)
qed

text \<open>An address space without any page, in the frame at \<open>0x1000\<close>.\<close>

definition empty_space :: "pmm_t vm_t" where
  "empty_space = \<lparr>vm_mem = (\<lambda>a i. if a = 0x1000 \<and> i = 511 then 0x1003 else 0), vm_cr3 = 0x1000, vm_pmm = pmm_example\<rparr>"

lemma empty_space_tab:
  assumes "plain v"
  shows "tab_at (vm_mem empty_space) (vm_cr3 empty_space) v d = (if d = 0 then Some 0x1000 else None)"
proof (induction d)
  case (Suc d)
  then show ?case using assms by (cases d) (auto simp: empty_space_def link_def plain_def)
qed (simp add: empty_space_def)

lemma pmm_example_frames: "frames (pm_list pmm_example) = {256..<259} \<union> {512..<520}"
  by (simp add: node_frames_def pfn_def pfn_end_def)

lemma empty_space_ok:
  "vm_ok (frames (pm_list (vm_pmm empty_space))) empty_space" "plain v \<Longrightarrow> small empty_space v" "3 \<le> card (frames (pm_list (vm_pmm empty_space)))"
proof -
  have f: "frames (pm_list (vm_pmm empty_space)) = {256..<259} \<union> {512..<520}"
    using pmm_example_frames by (simp add: empty_space_def)
  have "card ({256..<259} \<union> {512..<520} :: nat set) = 11" by (subst card_Un_disjoint) auto
  then show "3 \<le> card (frames (pm_list (vm_pmm empty_space)))" using f by simp
  have "link (0x1003 :: u64)" "hw_addr (0x1003 :: u64) = 0x1000" by (simp_all add: link_def PE_P_def hw_addr_def bit_simps)
  then have "rec_ok empty_space" by (simp add: rec_ok_def empty_space_def)
  moreover have "unshared (vm_mem empty_space) (vm_cr3 empty_space)"
    by (auto simp: unshared_def empty_space_tab agree_def split: if_splits)
  moreover have "unat p div 4096 = 1" if "is_tab empty_space p" for p
    using that by (auto simp: is_tab_def empty_space_tab split: if_splits)
  ultimately show "vm_ok (frames (pm_list (vm_pmm empty_space))) empty_space" unfolding vm_ok_def f by auto
  show "small empty_space v" if "plain v"
    using that by (auto simp: small_def empty_space_tab empty_space_def plain_def split: if_splits)
qed

lemma sample_page: "plain 0x400123" "plain 0x400000" "vpn 0x400123 = 0x400" "vpn 0x400000 = 0x400"
  by (simp_all add: plain_def idx_def IDX_def vpn_def)

theorem vmap_map_translates_witness:
  "\<exists>s'. vmap_map pmm_allocpages 0x5000 0x400000 1 7 empty_space = Some s' \<and> mmu s' 0x400123 = Some 0x5000 \<and> vmap_query 0x400123 s' = Some 0x5123"
proof -
  have "list_ok (pm_list (vm_pmm empty_space))" using pmm_example_ok by (simp add: empty_space_def)
  from vmap_map_translates [where num = 1 and flgs = 7 and vrt = "0x400000" and phy = "0x5000", OF this empty_space_ok(1)]
  obtain s' where s': "vmap_map pmm_allocpages 0x5000 0x400000 1 7 empty_space = Some s'" "maps_run empty_space s' 0x5000 0x400000 1"
    using empty_space_ok(2,3) sample_page by (auto simp: PE_P_def)
  have "hw_addr (0x5000 :: u64) = 0x5000" "ADDR (0x5000 :: u64) OR (0x400123 AND mask 12) = 0x5123"
    by (simp_all add: hw_addr_def ADDR_def mask_eq_exp_minus_1)
  then show ?thesis using s'(1) s'(2) [unfolded maps_run_def, rule_format, of "0x400123"] sample_page empty_space_ok(2) by auto
qed

theorem vmap_unmap_removes_witness:
  "\<exists>s'. vmap_unmap pmm_allocpages 0x400000 1 empty_space = Some s' \<and> mmu s' 0x400123 = None \<and> vmap_query 0x400123 s' = Some 0"
proof -
  have "list_ok (pm_list (vm_pmm empty_space))" using pmm_example_ok by (simp add: empty_space_def)
  from vmap_unmap_removes [where num = 1 and vrt = "0x400000", OF this empty_space_ok(1)]
  obtain s' where "vmap_unmap pmm_allocpages 0x400000 1 empty_space = Some s'"
    "\<forall>v. plain v \<and> small empty_space v \<longrightarrow> (\<forall>k<unat (1 :: size_t). vpn v = (vpn 0x400000 + k) mod 2 ^ 36 \<longrightarrow>
            mmu s' v = None \<and> vmap_query v s' = Some 0)"
    using empty_space_ok(2,3) sample_page by auto
  then show ?thesis using sample_page empty_space_ok(2) by auto
qed

end
