(* ===== verification/Mm_Vmm.thy ===== *)
theory Mm_Vmm
  imports Mm_Vmap
begin

text \<open>
  Kernel pages, \<open>src/kernel/mm/vmm.c\<close>: frames of the physical memory manager mapped into the page tables. The loop of
  \<open>vmm_phyauto\<close> is a partial function: \<open>None\<close> also where it would not end. The static counter of \<open>vmm_allocvrt\<close> is an argument
  and a result.
\<close>

definition vmm_canadjust :: "addr_t \<Rightarrow> bool \<times> addr_t" where
  "vmm_canadjust vrt =
     (if drop_bit 47 vrt AND 1 \<noteq> 0 then
        (if drop_bit 48 vrt = 0xFFFF then (True, vrt) else (False, vrt OR push_bit 44 0xffff8))
      else (True, vrt))"

partial_function (option) phyauto_loop ::
  "addr_t \<Rightarrow> size_t \<Rightarrow> size_t \<Rightarrow> u32 \<Rightarrow> pmm_t vm_t \<Rightarrow> (addr_t \<times> pmm_t vm_t) option" where
  "phyauto_loop vrt num unit flgs s =
     (if num = 0 then Some (vrt, s)
      else do {
        (p, page) \<leftarrow> pmm_allocpages (vm_pmm s) num;
        if page = 0 then do {
          assertk (unit div 2 \<noteq> 0);
          phyauto_loop vrt num (unit div 2) flgs (s\<lparr>vm_pmm := p\<rparr>)
        }
        else do {
          s \<leftarrow> vmap_map pmm_allocpages page vrt num flgs (s\<lparr>vm_pmm := p\<rparr>);
          phyauto_loop (vrt + unit * PAGE_SIZ) (num - unit) unit flgs s
        }
      })"

definition vmm_phyauto :: "addr_t \<Rightarrow> size_t \<Rightarrow> u32 \<Rightarrow> pmm_t vm_t \<Rightarrow> (addr_t \<times> pmm_t vm_t) option" where
  "vmm_phyauto vrt num flgs s = do {
     assertk (vrt AND PAGE_MASK = 0 \<and> vrt \<noteq> 0);
     let vrt = snd (vmm_canadjust vrt);
     phyauto_loop vrt num num flgs s
   }"

definition kern_vmm_pages :: addr_t where
  "kern_vmm_pages = 0xffffb00000000000"

definition vmm_allocvrt :: "size_t \<Rightarrow> u64 \<Rightarrow> addr_t \<times> u64" where
  "vmm_allocvrt num n = (kern_vmm_pages + PAGE_SIZ * n, n + num)"

definition vmm_allocpages :: "size_t \<Rightarrow> u32 \<Rightarrow> u64 \<times> pmm_t vm_t \<Rightarrow> (addr_t \<times> u64 \<times> pmm_t vm_t) option" where
  "vmm_allocpages num flgs st = do {
     let (n, s) = st;
     let (page, n) = vmm_allocvrt num n;
     (_, s) \<leftarrow> vmm_phyauto page num flgs s;
     Some (page, n, s)
   }"

definition vmm_allocpv :: "size_t \<Rightarrow> u64 \<times> pmm_t vm_t \<Rightarrow> (addr_t \<times> addr_t \<times> u64 \<times> pmm_t vm_t) option" where
  "vmm_allocpv num st = do {
     let (n, s) = st;
     let (vp, n) = vmm_allocvrt num n;
     (p, pp) \<leftarrow> pmm_allocpages (vm_pmm s) num;
     s \<leftarrow> vmap_map pmm_allocpages pp vp num 3 (s\<lparr>vm_pmm := p\<rparr>);
     Some (vp, pp, n, s)
   }"

section \<open>Allocation of mapped pages\<close>

lemma vm_ok_subset: "vm_ok av s \<Longrightarrow> av' \<subseteq> av \<Longrightarrow> vm_ok av' s"
  unfolding vm_ok_def by blast

lemma canadjust_idem: "vmm_canadjust vrt = (True, vrt) \<or> \<not> fst (vmm_canadjust vrt)"
  by (simp add: vmm_canadjust_def)

lemma with_pmm_query: "vmap_query v (s\<lparr>vm_pmm := p\<rparr>) = vmap_query v s"
proof -
  have "tab_get t i (s\<lparr>vm_pmm := p\<rparr>) = tab_get t i s" for t i by (simp add: tab_get_def mmu_def)
  then have "qry_walk v lv (s\<lparr>vm_pmm := p\<rparr>) = qry_walk v lv s" for lv
  proof (induction lv)
    case 0
    then show ?case by (subst (1 2) qry_walk.simps) (simp cong: if_cong)
  next
    case (Suc lv)
    then show ?case by (subst (1 2) qry_walk.simps) (simp cong: if_cong)
  qed
  then show ?thesis by (simp add: vmap_query_def)
qed

lemma phyauto_fails:
  assumes "list_ok (pm_list (vm_pmm s))" "pm_list (vm_pmm s) \<noteq> []" "\<forall>n\<in>set (pm_list (vm_pmm s)). fr_pages n < num" "num \<noteq> 0"
  shows "phyauto_loop vrt num unit flgs s = None"
proof -
  obtain l a where l: "pmm_alloc_loop num (pm_list (vm_pmm s)) = Some (l, a)" using pmm_alloc_loop_total [OF assms(2)] by blast
  have post: "alloc_post num (pm_list (vm_pmm s)) l a" by (rule pmm_alloc_loop_correct [OF assms(1) l])
  have "a = 0"
  proof (rule ccontr)
    assume "a \<noteq> 0"
    then obtain us n vs where "pm_list (vm_pmm s) = us @ n # vs" "num \<le> fr_pages n" using post by (auto simp: alloc_post_def)
    then show False using assms(3) by auto
  qed
  then have "l = pm_list (vm_pmm s)" using post by (simp add: alloc_post_def)
  then have al: "pmm_allocpages (vm_pmm s) num = Some (vm_pmm s, 0)" using l \<open>a = 0\<close> by (simp add: pmm_allocpages_def Let_def)
  show ?thesis
  proof (induction "unat unit" arbitrary: unit rule: less_induct)
    case less
    show ?case
    proof (cases "unit div 2 = 0")
      case True
      then show ?thesis using al assms(4) by (subst phyauto_loop.simps) simp
    next
      case False
      then have "unit \<noteq> 0" by auto
      then have "unat (unit div 2) < unat unit" by (simp add: unat_div_distrib unat_gt_0 word_gt_0)
      then have "phyauto_loop vrt num (unit div 2) flgs s = None" by (rule less)
      then show ?thesis using al assms(4) False by (subst phyauto_loop.simps) simp
    qed
  qed
qed

lemma phyauto_succeeds:
  assumes s: "list_ok (pm_list (vm_pmm s))" "vm_ok (frames (pm_list (vm_pmm s))) s" "n \<in> set (pm_list (vm_pmm s))" "num \<le> fr_pages n" "num \<noteq> 0"
    "4 * unat num \<le> card (frames (pm_list (vm_pmm s)))" "unat num \<le> 2 ^ 36" "ucast flgs AND PE_P \<noteq> 0"
    "\<forall>k<unat num. plain (vrt + of_nat k * PAGE_SIZ) \<and> small s (vrt + of_nat k * PAGE_SIZ)"
  shows "\<exists>s' a. phyauto_loop vrt num num flgs s = Some (vrt + num * PAGE_SIZ, s') \<and> list_ok (pm_list (vm_pmm s'))
    \<and> vm_ok (frames (pm_list (vm_pmm s'))) s' \<and> run_frames a num \<subseteq> frames (pm_list (vm_pmm s)) \<and> maps_run s s' a vrt (unat num)"
proof -
  let ?p = "vm_pmm s"
  have ne: "pm_list ?p \<noteq> []" using s(3) by auto
  obtain l a where l: "pmm_alloc_loop num (pm_list ?p) = Some (l, a)" using pmm_alloc_loop_total [OF ne] by blast
  have post: "alloc_post num (pm_list ?p) l a" by (rule pmm_alloc_loop_correct [OF s(1) l])
  have "a \<noteq> 0" using post s(3,4) by (auto simp: alloc_post_def dest!: bspec)
  then have a: "list_ok l" "run_frames a num \<subseteq> frames (pm_list ?p)" "frames l = frames (pm_list ?p) - run_frames a num"
    using post by (simp_all add: alloc_post_def)
  define q where "q = ?p\<lparr>pm_list := l, page_free := page_free ?p - num\<rparr>"
  have al: "pmm_allocpages ?p num = Some (q, a)" using l \<open>a \<noteq> 0\<close> by (simp add: pmm_allocpages_def Let_def q_def)
  have q: "pm_list q = l" by (simp add: q_def)
  let ?s = "s\<lparr>vm_pmm := q\<rparr>"
  have fin: "finite (frames (pm_list ?p))" by (simp add: frames_def node_frames_def)
  have "card (run_frames a num) = unat num" by (simp add: run_frames_def)
  then have c: "3 * unat num \<le> card (frames (pm_list (vm_pmm ?s)))"
    using s(6) card_Diff_subset [OF _ a(2)] finite_subset [OF a(2) fin] by (simp add: q a(3))
  have "frames (pm_list (vm_pmm ?s)) \<subseteq> frames (pm_list ?p)" using a(3) by (simp add: q)
  then have ok: "vm_ok (frames (pm_list (vm_pmm ?s))) ?s" using vm_ok_subset [OF s(2)] by (simp add: with_pmm)
  have sm: "small ?s v = small s v" "mmu ?s v = mmu s v" "vmap_query v ?s = vmap_query v s" for v
    by (simp_all add: small_def mmu_def with_pmm_query)
  have lok: "list_ok (pm_list (vm_pmm ?s))" using a(1) by (simp add: q)
  have rng: "\<forall>k<unat num. plain (vrt + of_nat k * PAGE_SIZ) \<and> small ?s (vrt + of_nat k * PAGE_SIZ)" using s(9) sm(1) by simp
  obtain s' where s': "vmap_map pmm_allocpages a vrt num flgs ?s = Some s'" "list_ok (pm_list (vm_pmm s'))" "vm_ok (frames (pm_list (vm_pmm s'))) s'"
    "maps_run ?s s' a vrt (unat num)"
    using vmap_map_spec [OF lok ok c s(7,8) rng] by blast
  have "maps_run s s' a vrt (unat num)" using s'(4) by (simp add: maps_run_def sm)
  moreover have "phyauto_loop vrt num num flgs s = Some (vrt + num * PAGE_SIZ, s')"
    using al \<open>a \<noteq> 0\<close> s(5) s'(1) by (subst phyauto_loop.simps) (simp add: phyauto_loop.simps)
  ultimately show ?thesis using s'(2,3) a(2) by blast
qed

text \<open>
  C33: \<open>vmm_phyauto\<close> on a canonical page address maps a run of free frames, and with enough frames left for the tables it
  returns; but it does so only when one region of the free list has all the pages: otherwise the kernel stops,
  however many frames are free, although the code halves the unit to try again.
\<close>

theorem vmm_phyauto_contiguous:
  assumes "list_ok (pm_list (vm_pmm s))" "vm_ok (frames (pm_list (vm_pmm s))) s" "num \<noteq> 0" "4 * unat num \<le> card (frames (pm_list (vm_pmm s)))"
    "unat num \<le> 2 ^ 36" "ucast flgs AND PE_P \<noteq> 0" "vrt AND PAGE_MASK = 0" "vrt \<noteq> 0" "fst (vmm_canadjust vrt)"
    "\<forall>k<unat num. plain (vrt + of_nat k * PAGE_SIZ) \<and> small s (vrt + of_nat k * PAGE_SIZ)"
  shows "if \<exists>n\<in>set (pm_list (vm_pmm s)). num \<le> fr_pages n
    then \<exists>s' a. vmm_phyauto vrt num flgs s = Some (vrt + num * PAGE_SIZ, s') \<and> list_ok (pm_list (vm_pmm s'))
      \<and> vm_ok (frames (pm_list (vm_pmm s'))) s' \<and> run_frames a num \<subseteq> frames (pm_list (vm_pmm s)) \<and> maps_run s s' a vrt (unat num)
    else vmm_phyauto vrt num flgs s = None"
proof -
  have v: "vmm_phyauto vrt num flgs s = phyauto_loop vrt num num flgs s"
    using assms(7-9) canadjust_idem [of vrt] by (auto simp: vmm_phyauto_def)
  have "0 < unat num" using assms(3) by (simp add: unat_gt_0)
  then have ne: "pm_list (vm_pmm s) \<noteq> []" using assms(4) by auto
  show ?thesis
  proof (cases "\<exists>n\<in>set (pm_list (vm_pmm s)). num \<le> fr_pages n")
    case True
    then obtain n where "n \<in> set (pm_list (vm_pmm s))" "num \<le> fr_pages n" by blast
    from phyauto_succeeds [OF assms(1,2) this assms(3-6,10)] show ?thesis using True unfolding v by simp
  next
    case False
    then have "\<forall>n\<in>set (pm_list (vm_pmm s)). fr_pages n < num" by (auto simp: not_le)
    from phyauto_fails [OF assms(1) ne this assms(3)] show ?thesis using False unfolding v by simp
  qed
qed

theorem vmm_phyauto_contiguous_witness:
  "\<exists>s' a. vmm_phyauto 0x400000 2 7 empty_space = Some (0x402000, s') \<and> run_frames a 2 \<subseteq> frames (pm_list (vm_pmm empty_space))
     \<and> mmu s' 0x401000 = Some (hw_addr (a + PAGE_SIZ))"
proof -
  have e: "vm_pmm empty_space = pmm_example" by (simp add: empty_space_def)
  have l: "list_ok (pm_list (vm_pmm empty_space))" using pmm_example_ok by (simp add: e)
  have "card ({256..<259} \<union> {512..<520} :: nat set) = 11" by (subst card_Un_disjoint) auto
  then have c: "4 * unat (2 :: size_t) \<le> card (frames (pm_list (vm_pmm empty_space)))" using pmm_example_frames by (simp add: e)
  have p: "plain 0x400000" "plain 0x401000" "vpn 0x401000 = 0x401" "vpn 0x400000 = 0x400" by (simp_all add: plain_def idx_def IDX_def vpn_def)
  have r: "\<forall>k<unat (2 :: size_t). plain (0x400000 + of_nat k * PAGE_SIZ) \<and> small empty_space (0x400000 + of_nat k * PAGE_SIZ)"
  proof (intro allI impI)
    fix k assume "k < unat (2 :: size_t)"
    then have "k = 0 \<or> k = 1" by auto
    then show "plain (0x400000 + of_nat k * PAGE_SIZ) \<and> small empty_space (0x400000 + of_nat k * PAGE_SIZ)"
      using p empty_space_ok(2) by (auto simp: PAGE_SIZ_def)
  qed
  have "\<exists>n\<in>set (pm_list (vm_pmm empty_space)). 2 \<le> fr_pages n" by (simp add: e)
  then obtain s' a where "vmm_phyauto 0x400000 2 7 empty_space = Some (0x400000 + 2 * PAGE_SIZ, s')"
    "run_frames a 2 \<subseteq> frames (pm_list (vm_pmm empty_space))" "maps_run empty_space s' a 0x400000 2"
    using vmm_phyauto_contiguous [OF l empty_space_ok(1) _ c _ _ _ _ _ r, of 7]
    by (auto simp: PE_P_def PAGE_MASK_def vmm_canadjust_def)
  moreover from this(3) have "mmu s' 0x401000 = Some (hw_addr (a + PAGE_SIZ))"
    using p empty_space_ok(2) by (auto simp: maps_run_def dest!: spec [of _ "0x401000"] spec [of _ "1 :: nat"])
  ultimately show ?thesis by (auto simp: PAGE_SIZ_def)
qed

end
