(* ===== verification/Fs_Pipe.thy ===== *)
theory Fs_Pipe
  imports Klib_Fifo Fs_Poll
begin

text \<open>
  Pipes, \<open>src/kernel/fs/drift/pipe.c\<close>. The code between \<open>lock_acquire\<close> and \<open>lock_release\<close> is one step: the lock admits one task
  at a time. A task that has to wait leaves its reference in the pipe, releases the lock and then calls \<open>task_block\<close>; other tasks can
  run between the two. \<open>task_unblock\<close> makes a blocked task ready and has no effect on one that is not blocked (yet).
  The tasks it is called on are returned. A failed assertion stops the kernel (\<open>None\<close>).
\<close>

section \<open>Operations\<close>

record pipe_t =
  rd_alive :: int
  wr_alive :: int
  pi_fifo :: fifo_t
  rd_waiter :: "task_ref option"
  wr_waiter :: "task_ref option"
  rd_pollee :: fs_pollee
  wr_pollee :: fs_pollee

definition wake :: "task_ref option \<Rightarrow> task_ref list" where
  "wake w = (case w of None \<Rightarrow> [] | Some t \<Rightarrow> [t])"

text \<open>
  One round of the loop of \<open>pipe_read\<close>: either the data that are returned (none at end of file), or the task \<open>cur\<close> goes to sleep.
  \<open>nb\<close> is the flag \<open>O_NONBLOCK\<close>.
\<close>

datatype pipe_result = Returns "u8 list" | Sleeps "u8 list"

definition pipe_read_round :: "task_ref \<Rightarrow> size_t \<Rightarrow> bool \<Rightarrow> pipe_t \<Rightarrow> (pipe_t \<times> task_ref list \<times> pipe_result) option" where
  "pipe_read_round cur siz nb pi =
     (let (f, out) = fifo_read (pi_fifo pi) siz; pi = pi\<lparr>pi_fifo := f\<rparr> in
      if out = [] then
        (if wr_alive pi = 0 \<or> nb then Some (pi, [], Returns [])
         else do {
           assertk (rd_waiter pi = None);
           Some (pi\<lparr>rd_waiter := Some cur\<rparr>, [], Sleeps [])
         })
      else
        let (pollee, ts, _) = fs_poll_deliver (wr_pollee pi) POLLOUT
        in Some (pi\<lparr>wr_pollee := pollee\<rparr>, ts @ wake (wr_waiter pi), Returns out))"

text \<open>
  The loop of \<open>pipe_write\<close> until it returns or sleeps; the result has the data that are not yet written.
\<close>

function pipe_write_loop :: "task_ref \<Rightarrow> u8 list \<Rightarrow> bool \<Rightarrow> pipe_t \<Rightarrow> (pipe_t \<times> task_ref list \<times> pipe_result) option" where
  "pipe_write_loop cur d nb pi =
     (let (f, n) = fifo_write (pi_fifo pi) d; pi = pi\<lparr>pi_fifo := f\<rparr> in
      if n = 0 then do {
        assertk (wr_waiter pi = None);
        Some (pi\<lparr>wr_waiter := Some cur\<rparr>, [], Sleeps d)
      }
      else
        let d' = drop (unat n) d;
            (pollee, ts, _) = fs_poll_deliver (rd_pollee pi) POLLIN;
            pi = pi\<lparr>rd_pollee := pollee\<rparr>;
            ts = ts @ wake (rd_waiter pi)
        in if d' = [] \<or> rd_alive pi = 0 \<or> nb then Some (pi, ts, Returns d')
           else do {
             (pi, ts', r) \<leftarrow> pipe_write_loop cur d' nb pi;
             Some (pi, ts @ ts', r)
           })"
  by pat_completeness auto
termination
  by (relation "measure (\<lambda>(_, d, _, _). length d)") (auto simp: word_gt_0 unat_gt_0 intro: diff_less)

declare pipe_write_loop.simps [simp del]

text \<open>What \<open>pipe_read\<close> and \<open>pipe_write\<close> do before they take the lock: \<open>Some\<close> is the result of an early return.\<close>

definition O_RDONLY :: u64 where "O_RDONLY = 0"
definition O_WRONLY :: u64 where "O_WRONLY = 1"
definition O_ACCMODE :: u64 where "O_ACCMODE = 3"

definition is_rpipe :: "u64 \<Rightarrow> bool" where "is_rpipe fl \<longleftrightarrow> fl AND O_ACCMODE = O_RDONLY"
definition is_wpipe :: "u64 \<Rightarrow> bool" where "is_wpipe fl \<longleftrightarrow> fl AND O_ACCMODE = O_WRONLY"

definition EBADF :: int where "EBADF = 9"

definition pipe_read_enter :: "u64 \<Rightarrow> size_t \<Rightarrow> int option" where
  "pipe_read_enter fl siz = (if is_wpipe fl then Some (- EBADF) else if siz = 0 then Some 0 else None)"

definition pipe_write_enter :: "u64 \<Rightarrow> u8 list \<Rightarrow> pipe_t \<Rightarrow> int option" where
  "pipe_write_enter fl d pi =
     (if is_rpipe fl then Some (- EBADF) else if d = [] then Some 0 else if rd_alive pi = 0 then Some 0 else None)"

text \<open>The end of a sleep: the task takes its reference back.\<close>

definition rd_awake :: "pipe_t \<Rightarrow> pipe_t" where "rd_awake pi = pi\<lparr>rd_waiter := None\<rparr>"
definition wr_awake :: "pipe_t \<Rightarrow> pipe_t" where "wr_awake pi = pi\<lparr>wr_waiter := None\<rparr>"

text \<open>\<open>pipe__fini_pctx\<close>: an end is closed. With no end left the pipe is gone (\<open>None\<close> in the second component).\<close>

definition pipe_fini_pctx :: "u64 \<Rightarrow> pipe_t \<Rightarrow> task_ref list \<times> pipe_t option" where
  "pipe_fini_pctx fl pi =
     (let pi = (if is_rpipe fl then pi\<lparr>rd_alive := rd_alive pi - 1\<rparr> else pi);
          pi = (if is_wpipe fl then pi\<lparr>wr_alive := wr_alive pi - 1\<rparr> else pi);
          alive = of_bool (rd_alive pi \<noteq> 0) + of_bool (wr_alive pi \<noteq> 0) :: nat in
      if alive = 1 then
        let (wp, ts1, _) = fs_poll_deliver (wr_pollee pi) POLLHUP;
            (rp, ts2, _) = fs_poll_deliver (rd_pollee pi) POLLHUP
        in (ts1 @ ts2 @ wake (rd_waiter pi) @ wake (wr_waiter pi), Some (pi\<lparr>wr_pollee := wp, rd_pollee := rp\<rparr>))
      else if alive = 0 then ([], None)
      else ([], Some pi))"

definition pipe_poll_setup :: "u64 \<Rightarrow> nat list \<Rightarrow> fs_poller \<Rightarrow> pipe_t \<Rightarrow> int \<times> pipe_t \<times> nat list \<times> fs_poller" where
  "pipe_poll_setup fl ctx poller pi =
     (if is_rpipe fl then
        let (poller, _, ok) = (if wr_alive pi = 0 then fs_poll_deliver_to POLLHUP poller False else (poller, [], False)) in
        if ok then (1, pi, ctx, poller)
        else
          let (poller, _, ok) = (if \<not> fifo_empty (pi_fifo pi) then fs_poll_deliver_to POLLIN poller False else (poller, [], False)) in
          if ok then (1, pi, ctx, poller)
          else let (pollee, ctx, poller) = fs_poll_setup (rd_pollee pi) ctx poller in (0, pi\<lparr>rd_pollee := pollee\<rparr>, ctx, poller)
      else if is_wpipe fl then
        let (poller, _, ok) = (if rd_alive pi = 0 then fs_poll_deliver_to POLLHUP poller False else (poller, [], False)) in
        if ok then (1, pi, ctx, poller)
        else
          let (poller, _, ok) = (if \<not> fifo_full (pi_fifo pi) then fs_poll_deliver_to POLLOUT poller False else (poller, [], False)) in
          if ok then (1, pi, ctx, poller)
          else let (pollee, ctx, poller) = fs_poll_setup (wr_pollee pi) ctx poller in (0, pi\<lparr>wr_pollee := pollee\<rparr>, ctx, poller)
      else (-1, pi, ctx, poller))"

definition pipe_poll_teardown :: "u64 \<Rightarrow> nat list \<Rightarrow> fs_poller \<Rightarrow> pipe_t \<Rightarrow> int \<times> pipe_t \<times> nat list" where
  "pipe_poll_teardown fl ctx poller pi =
     (if is_rpipe fl then let (pollee, ctx) = fs_poll_teardown (rd_pollee pi) ctx poller in (0, pi\<lparr>rd_pollee := pollee\<rparr>, ctx)
      else if is_wpipe fl then let (pollee, ctx) = fs_poll_teardown (wr_pollee pi) ctx poller in (0, pi\<lparr>wr_pollee := pollee\<rparr>, ctx)
      else (-1, pi, ctx))"

text \<open>
  A new pipe in the page \<open>pb\<close> and the memory \<open>mem\<close> of a control block, where \<open>None\<close> is a failed allocation. The initialisation of the
  queue cannot fail here.
\<close>

definition PIPE_SIZ :: size_t where "PIPE_SIZ = 4096"

definition pipe_dead :: "pipe_t \<Rightarrow> u8 list \<Rightarrow> pipe_t" where
  "pipe_dead mem pb =
     \<lparr>rd_alive = 0, wr_alive = 0, pi_fifo = fifo_clear ((pi_fifo mem)\<lparr>fifo_buf := pb, fifo_siz := PIPE_SIZ\<rparr>),
      rd_waiter = None, wr_waiter = None, rd_pollee = fs_pollee_init (rd_pollee mem), wr_pollee = fs_pollee_init (wr_pollee mem)\<rparr>"

definition pipe_anony :: "pipe_t \<Rightarrow> u8 list \<Rightarrow> pipe_t" where
  "pipe_anony mem pb = (pipe_dead mem pb)\<lparr>rd_alive := 1, wr_alive := 1\<rparr>"

definition ENOMEM :: int where "ENOMEM = 12"

definition vfs_pipe_create_dead :: "u8 list option \<Rightarrow> pipe_t option \<Rightarrow> int \<times> pipe_t option" where
  "vfs_pipe_create_dead pb mem =
     (case pb of
        None \<Rightarrow> (- ENOMEM, None)
      | Some pb \<Rightarrow> (case mem of None \<Rightarrow> (- ENOMEM, None) | Some mem \<Rightarrow> (0, Some (pipe_dead mem pb))))"

definition vfs_pipe_create_anony :: "u8 list option \<Rightarrow> pipe_t option \<Rightarrow> int \<times> pipe_t option" where
  "vfs_pipe_create_anony pb mem =
     (let (ret, pi) = vfs_pipe_create_dead pb mem in
      (ret, map_option (\<lambda>pi. pi\<lparr>rd_alive := 1, wr_alive := 1\<rparr>) pi))"

text \<open>
  Opening a named pipe, up to the point where the task \<open>cur\<close> waits for the other end (\<open>True\<close> in the last component).
\<close>

definition pipe_open :: "task_ref \<Rightarrow> u64 \<Rightarrow> pipe_t \<Rightarrow> pipe_t \<times> task_ref list \<times> bool" where
  "pipe_open cur args pi =
     (if args AND O_ACCMODE = O_RDONLY then
        let pi = pi\<lparr>rd_alive := rd_alive pi + 1\<rparr> in
        if wr_alive pi \<noteq> 0 then (pi, [], False)
        else case wr_waiter pi of None \<Rightarrow> (pi\<lparr>rd_waiter := Some cur\<rparr>, [], True) | Some t \<Rightarrow> (pi, [t], False)
      else if args AND O_ACCMODE = O_WRONLY then
        let pi = pi\<lparr>wr_alive := wr_alive pi + 1\<rparr> in
        if rd_alive pi \<noteq> 0 then (pi, [], False)
        else case rd_waiter pi of None \<Rightarrow> (pi\<lparr>wr_waiter := Some cur\<rparr>, [], True) | Some t \<Rightarrow> (pi, [t], False)
      else (pi, [], False))"

definition vfs_drift_cb_pipe_open ::
  "task_ref \<Rightarrow> u64 \<Rightarrow> u8 list option \<Rightarrow> pipe_t option \<Rightarrow> pipe_t option \<Rightarrow> int + pipe_t \<times> task_ref list \<times> bool" where
  "vfs_drift_cb_pipe_open cur args pb mem pdata =
     (case pdata of
        Some pi \<Rightarrow> Inr (pipe_open cur args pi)
      | None \<Rightarrow> (case vfs_pipe_create_dead pb mem of (ret, None) \<Rightarrow> Inl ret | (_, Some pi) \<Rightarrow> Inr (pipe_open cur args pi)))"

section \<open>Tasks at a pipe\<close>

text \<open>
  Where a task is: not in a pipe operation, at the lock of \<open>pipe_read\<close> or \<open>pipe_write\<close> (\<open>True\<close>: back from a sleep), between the release
  of the lock and \<open>task_block\<close>, or blocked.
\<close>

datatype pipe_pc =
  Outside
| AtRead size_t bool bool | PreRead size_t bool | InRead size_t bool
| AtWrite "u8 list" bool bool | PreWrite "u8 list" bool | InWrite "u8 list" bool

text \<open>\<open>sy_in\<close> and \<open>sy_out\<close> are the bytes that writes have stored and reads have returned.\<close>

record pipe_sys =
  sy_pipe :: pipe_t
  sy_pc :: "task_ref \<Rightarrow> pipe_pc"
  sy_in :: "u8 list"
  sy_out :: "u8 list"

definition unblock1 :: "task_ref \<Rightarrow> (task_ref \<Rightarrow> pipe_pc) \<Rightarrow> task_ref \<Rightarrow> pipe_pc" where
  "unblock1 t pc = (case pc t of InRead n b \<Rightarrow> pc(t := AtRead n b True) | InWrite d b \<Rightarrow> pc(t := AtWrite d b True) | _ \<Rightarrow> pc)"

definition unblock :: "task_ref list \<Rightarrow> (task_ref \<Rightarrow> pipe_pc) \<Rightarrow> task_ref \<Rightarrow> pipe_pc" where
  "unblock ts pc = fold unblock1 ts pc"

definition read_section :: "task_ref \<Rightarrow> size_t \<Rightarrow> bool \<Rightarrow> bool \<Rightarrow> pipe_sys \<Rightarrow> pipe_sys option" where
  "read_section t siz nb back s = do {
     (pi, ts, r) \<leftarrow> pipe_read_round t siz nb (if back then rd_awake (sy_pipe s) else sy_pipe s);
     let pc = unblock ts (sy_pc s);
     Some (case r of
        Returns out \<Rightarrow> s\<lparr>sy_pipe := pi, sy_pc := pc(t := Outside), sy_out := sy_out s @ out\<rparr>
      | Sleeps _ \<Rightarrow> s\<lparr>sy_pipe := pi, sy_pc := pc(t := PreRead siz nb)\<rparr>)
   }"

definition write_section :: "task_ref \<Rightarrow> u8 list \<Rightarrow> bool \<Rightarrow> bool \<Rightarrow> pipe_sys \<Rightarrow> pipe_sys option" where
  "write_section t d nb back s = do {
     (pi, ts, r) \<leftarrow> pipe_write_loop t d nb (if back then wr_awake (sy_pipe s) else sy_pipe s);
     let pc = unblock ts (sy_pc s);
     Some (case r of
        Returns d' \<Rightarrow> s\<lparr>sy_pipe := pi, sy_pc := pc(t := Outside), sy_in := sy_in s @ take (length d - length d') d\<rparr>
      | Sleeps d' \<Rightarrow> s\<lparr>sy_pipe := pi, sy_pc := pc(t := PreWrite d' nb), sy_in := sy_in s @ take (length d - length d') d\<rparr>)
   }"

definition close_section :: "u64 \<Rightarrow> pipe_sys \<Rightarrow> pipe_sys option" where
  "close_section fl s =
     (let (ts, pi) = pipe_fini_pctx fl (sy_pipe s) in
      case pi of None \<Rightarrow> None | Some pi \<Rightarrow> Some (s\<lparr>sy_pipe := pi, sy_pc := unblock ts (sy_pc s)\<rparr>))"

text \<open>
  A step of task \<open>t\<close>. A task can only read or write through an end that is open; closing the last end ends the pipe and is no step.
\<close>

inductive pipe_step :: "task_ref \<Rightarrow> pipe_sys \<Rightarrow> pipe_sys \<Rightarrow> bool" where
  call_read: "sy_pc s t = Outside \<Longrightarrow> 0 < rd_alive (sy_pipe s) \<Longrightarrow> pipe_read_enter fl siz = None \<Longrightarrow>
    pipe_step t s (s\<lparr>sy_pc := (sy_pc s)(t := AtRead siz nb False)\<rparr>)"
| call_write: "sy_pc s t = Outside \<Longrightarrow> 0 < wr_alive (sy_pipe s) \<Longrightarrow> pipe_write_enter fl d (sy_pipe s) = None \<Longrightarrow> length d < 2 ^ 64 \<Longrightarrow>
    pipe_step t s (s\<lparr>sy_pc := (sy_pc s)(t := AtWrite d nb False)\<rparr>)"
| do_read: "sy_pc s t = AtRead siz nb back \<Longrightarrow> read_section t siz nb back s = Some s' \<Longrightarrow> pipe_step t s s'"
| block_read: "sy_pc s t = PreRead siz nb \<Longrightarrow> pipe_step t s (s\<lparr>sy_pc := (sy_pc s)(t := InRead siz nb)\<rparr>)"
| do_write: "sy_pc s t = AtWrite d nb back \<Longrightarrow> write_section t d nb back s = Some s' \<Longrightarrow> pipe_step t s s'"
| block_write: "sy_pc s t = PreWrite d nb \<Longrightarrow> pipe_step t s (s\<lparr>sy_pc := (sy_pc s)(t := InWrite d nb)\<rparr>)"
| do_close: "sy_pc s t = Outside \<Longrightarrow> (is_rpipe fl \<longrightarrow> 0 < rd_alive (sy_pipe s)) \<Longrightarrow> (is_wpipe fl \<longrightarrow> 0 < wr_alive (sy_pipe s)) \<Longrightarrow>
    close_section fl s = Some s' \<Longrightarrow> pipe_step t s s'"

inductive_cases pipe_stepE: "pipe_step t s s'"

inductive pipe_run :: "pipe_sys \<Rightarrow> pipe_sys \<Rightarrow> bool" where
  refl: "pipe_run s s"
| step: "pipe_run s s' \<Longrightarrow> pipe_step t s' s'' \<Longrightarrow> pipe_run s s''"

definition pipe_start :: "pipe_t \<Rightarrow> u8 list \<Rightarrow> pipe_sys" where
  "pipe_start mem pb = \<lparr>sy_pipe = pipe_anony mem pb, sy_pc = (\<lambda>_. Outside), sy_in = [], sy_out = []\<rparr>"

lemmas pipe_enter_defs = pipe_read_enter_def pipe_write_enter_def is_rpipe_def is_wpipe_def O_RDONLY_def O_WRONLY_def O_ACCMODE_def

section \<open>The stream\<close>

text \<open>Pending writes have less than \<open>2 ^ 64\<close> bytes.\<close>

fun pc_small :: "pipe_pc \<Rightarrow> bool" where
  "pc_small (AtWrite d _ _) \<longleftrightarrow> length d < 2 ^ 64"
| "pc_small (PreWrite d _) \<longleftrightarrow> length d < 2 ^ 64"
| "pc_small (InWrite d _) \<longleftrightarrow> length d < 2 ^ 64"
| "pc_small _ \<longleftrightarrow> True"

definition pipe_inv :: "pipe_sys \<Rightarrow> bool" where
  "pipe_inv s \<longleftrightarrow> fifo_invar (pi_fifo (sy_pipe s)) \<and> sy_in s = sy_out s @ fifo_contents (pi_fifo (sy_pipe s)) \<and> (\<forall>t. pc_small (sy_pc s t))"

lemma unblock_small: "\<forall>t. pc_small (pc t) \<Longrightarrow> \<forall>t. pc_small (unblock ts pc t)"
proof (induction ts arbitrary: pc)
  case (Cons u ts)
  have "\<forall>t. pc_small (unblock1 u pc t)"
    using Cons.prems [rule_format, of u] Cons.prems by (cases "pc u") (auto simp: unblock1_def)
  then show ?case using Cons.IH by (simp add: unblock_def)
qed (simp add: unblock_def)

lemma pipe_read_round_fifo:
  assumes "fifo_invar (pi_fifo pi)" "pipe_read_round t siz nb pi = Some (pi', ts, r)"
  shows "fifo_invar (pi_fifo pi')" "fifo_contents (pi_fifo pi) = (case r of Returns out \<Rightarrow> out | Sleeps _ \<Rightarrow> []) @ fifo_contents (pi_fifo pi')"
proof -
  let ?f = "fst (fifo_read (pi_fifo pi) siz)" and ?out = "snd (fifo_read (pi_fifo pi) siz)"
  have "pi_fifo pi' = ?f" "(case r of Returns out \<Rightarrow> out | Sleeps _ \<Rightarrow> []) = ?out"
    using assms(2) by (auto simp: pipe_read_round_def split_beta Let_def bind_eq_Some_conv split: if_splits)
  then show "fifo_invar (pi_fifo pi')" "fifo_contents (pi_fifo pi) = (case r of Returns out \<Rightarrow> out | Sleeps _ \<Rightarrow> []) @ fifo_contents (pi_fifo pi')"
    using fifo.rd_invar [OF assms(1)] fifo.rd_contents [OF assms(1)] fifo.rd_data [OF assms(1)] by simp_all
qed

lemma pipe_write_loop_full:
  assumes "snd (fifo_write (pi_fifo pi) d) = 0" "pipe_write_loop t d nb pi = Some (pi', ts, r)"
  shows "pi' = pi\<lparr>pi_fifo := fst (fifo_write (pi_fifo pi) d), wr_waiter := Some t\<rparr> \<and> ts = [] \<and> r = Sleeps d \<and> wr_waiter pi = None"
  using assms by (subst (asm) pipe_write_loop.simps) (auto simp: split_beta Let_def bind_eq_Some_conv)

lemma pipe_write_loop_room:
  assumes "snd (fifo_write (pi_fifo pi) d) \<noteq> 0" "pipe_write_loop t d nb pi = Some (pi', ts, r)"
  defines "n \<equiv> unat (snd (fifo_write (pi_fifo pi) d))"
  defines "pi1 \<equiv> pi\<lparr>pi_fifo := fst (fifo_write (pi_fifo pi) d), rd_pollee := fst (fs_poll_deliver (rd_pollee pi) POLLIN)\<rparr>"
  shows "(drop n d = [] \<or> rd_alive pi = 0 \<or> nb) \<and> pi' = pi1 \<and> r = Returns (drop n d)
    \<or> drop n d \<noteq> [] \<and> rd_alive pi \<noteq> 0 \<and> \<not> nb \<and> (\<exists>ts'. pipe_write_loop t (drop n d) nb pi1 = Some (pi', ts', r))"
  using assms(1,2) unfolding n_def pi1_def
  by (subst (asm) pipe_write_loop.simps) (auto simp: split_beta Let_def bind_eq_Some_conv split: if_splits)

lemma pipe_write_loop_fifo:
  assumes "fifo_invar (pi_fifo pi)" "length d < 2 ^ 64" "pipe_write_loop t d nb pi = Some (pi', ts, r)"
  shows "fifo_invar (pi_fifo pi') \<and> (\<exists>k \<le> length d. (case r of Returns d' \<Rightarrow> d' | Sleeps d' \<Rightarrow> d') = drop k d
    \<and> fifo_contents (pi_fifo pi') = fifo_contents (pi_fifo pi) @ take k d)"
  using assms
proof (induction "length d" arbitrary: d pi ts rule: less_induct)
  case less
  let ?f = "fst (fifo_write (pi_fifo pi) d)" and ?n = "snd (fifo_write (pi_fifo pi) d)"
  have f: "fifo_invar ?f" "fifo_contents ?f = fifo_contents (pi_fifo pi) @ take (unat ?n) d" "unat ?n \<le> length d"
    using fifo.wr_invar [OF less.prems(1,2)] fifo.wr_accepted [OF less.prems(1,2)] fifo.wr_count [OF less.prems(1,2)] by simp_all
  show ?case
  proof (cases "?n = 0")
    case True
    then show ?thesis using f pipe_write_loop_full [OF True less.prems(3)] by (auto intro!: exI [of _ 0])
  next
    case False
    then have pos: "0 < unat ?n" by (simp add: unat_gt_0)
    let ?pi = "pi\<lparr>pi_fifo := ?f, rd_pollee := fst (fs_poll_deliver (rd_pollee pi) POLLIN)\<rparr>"
    consider "pi' = ?pi" "r = Returns (drop (unat ?n) d)"
      | ts' where "drop (unat ?n) d \<noteq> []" "pipe_write_loop t (drop (unat ?n) d) nb ?pi = Some (pi', ts', r)"
      using pipe_write_loop_room [OF False less.prems(3)] by blast
    then show ?thesis
    proof cases
      case 1
      then show ?thesis using f by (auto intro!: exI [of _ "unat ?n"])
    next
      case (2 ts')
      then have lt: "length (drop (unat ?n) d) < length d" using pos by simp
      obtain k where "fifo_invar (pi_fifo pi')" "k \<le> length (drop (unat ?n) d)"
        "(case r of Returns d' \<Rightarrow> d' | Sleeps d' \<Rightarrow> d') = drop k (drop (unat ?n) d)"
        "fifo_contents (pi_fifo pi') = fifo_contents ?f @ take k (drop (unat ?n) d)"
        using less.hyps [OF lt _ _ 2(2)] f(1) lt less.prems(2) by auto
      then show ?thesis using f by (intro conjI exI [of _ "unat ?n + k"]) (auto simp: take_add drop_drop [of k, unfolded add.commute [of k]] simp del: drop_drop)
    qed
  qed
qed

lemma read_section_inv:
  assumes "pipe_inv s" "read_section t siz nb back s = Some s'"
  shows "pipe_inv s'"
proof -
  obtain pi ts r where r: "pipe_read_round t siz nb (if back then rd_awake (sy_pipe s) else sy_pipe s) = Some (pi, ts, r)"
    using assms(2) by (auto simp: read_section_def bind_eq_Some_conv)
  have "pi_fifo (if back then rd_awake (sy_pipe s) else sy_pipe s) = pi_fifo (sy_pipe s)" by (simp add: rd_awake_def)
  then show ?thesis using pipe_read_round_fifo [OF _ r] assms r
      unblock_small [of "sy_pc s" ts]
    by (auto simp: read_section_def pipe_inv_def Let_def split: pipe_result.splits)
qed

lemma write_section_inv:
  assumes "pipe_inv s" "length d < 2 ^ 64" "write_section t d nb back s = Some s'"
  shows "pipe_inv s'"
proof -
  obtain pi ts r where r: "pipe_write_loop t d nb (if back then wr_awake (sy_pipe s) else sy_pipe s) = Some (pi, ts, r)"
    using assms(3) by (auto simp: write_section_def bind_eq_Some_conv)
  have "pi_fifo (if back then wr_awake (sy_pipe s) else sy_pipe s) = pi_fifo (sy_pipe s)" by (simp add: wr_awake_def)
  then obtain k where "fifo_invar (pi_fifo pi)" "k \<le> length d" "(case r of Returns d' \<Rightarrow> d' | Sleeps d' \<Rightarrow> d') = drop k d"
    "fifo_contents (pi_fifo pi) = fifo_contents (pi_fifo (sy_pipe s)) @ take k d"
    using pipe_write_loop_fifo [OF _ assms(2) r] assms(1) by (auto simp: pipe_inv_def)
  then show ?thesis using assms r unblock_small [of "sy_pc s" ts]
    by (auto simp: write_section_def pipe_inv_def Let_def split: pipe_result.splits)
qed

lemma close_section_inv:
  assumes "pipe_inv s" "close_section fl s = Some s'"
  shows "pipe_inv s'"
  using assms unblock_small [of "sy_pc s"]
  by (auto simp: close_section_def pipe_inv_def pipe_fini_pctx_def Let_def split_beta split: if_splits)

lemma pipe_step_inv:
  assumes "pipe_step t s s'" "pipe_inv s"
  shows "pipe_inv s'"
  using assms
proof (cases rule: pipe_step.cases)
  case (do_read siz nb bk)
  then show ?thesis using read_section_inv assms(2) by blast
next
  case (do_write d nb bk)
  then have "length d < 2 ^ 64" using assms(2) unfolding pipe_inv_def by (metis pc_small.simps(1))
  then show ?thesis using write_section_inv assms(2) do_write by blast
next
  case (do_close fl)
  then show ?thesis using close_section_inv assms(2) by blast
next
  case (block_write d nb)
  then have "length d < 2 ^ 64" using assms(2) unfolding pipe_inv_def by (metis pc_small.simps(2))
  then show ?thesis using block_write assms(2) by (simp add: pipe_inv_def)
qed (simp_all add: pipe_inv_def)

lemma pipe_create_fifo:
  fixes mem :: pipe_t
  assumes "length pb = 4096"
  defines "f \<equiv> pi_fifo (pipe_anony mem pb)"
  shows "fifo_invar f" "fifo_contents f = []" "fifo_cap f = 4096"
  using fifo_clear_invar [of "(pi_fifo mem)\<lparr>fifo_buf := pb, fifo_siz := PIPE_SIZ\<rparr>"] assms
  by (simp_all add: pipe_anony_def pipe_dead_def PIPE_SIZ_def fifo_clear_def fifo_cap_def)

lemma vfs_pipe_create_anony_eq: "vfs_pipe_create_anony (Some pb) (Some mem) = (0, Some (pipe_anony mem pb))"
  by (simp add: vfs_pipe_create_anony_def vfs_pipe_create_dead_def pipe_anony_def)

lemma pipe_start_inv: "length pb = 4096 \<Longrightarrow> pipe_inv (pipe_start mem pb)"
  using pipe_create_fifo [of pb mem] by (simp add: pipe_inv_def pipe_start_def)

section \<open>Waking up\<close>

fun is_reading :: "pipe_pc \<Rightarrow> bool" where
  "is_reading (AtRead _ _ _) \<longleftrightarrow> True"
| "is_reading (PreRead _ _) \<longleftrightarrow> True"
| "is_reading (InRead _ _) \<longleftrightarrow> True"
| "is_reading _ \<longleftrightarrow> False"

fun is_asleep :: "pipe_pc \<Rightarrow> bool" where
  "is_asleep (InRead _ _) \<longleftrightarrow> True"
| "is_asleep (InWrite _ _) \<longleftrightarrow> True"
| "is_asleep _ \<longleftrightarrow> False"

lemma unblock_awake: "\<forall>t. \<not> is_asleep (pc t) \<Longrightarrow> unblock ts pc = pc"
proof (induction ts)
  case (Cons t ts)
  then have "unblock1 t pc = pc" by (cases "pc t") (auto simp: unblock1_def dest: spec [of _ t])
  then show ?case using Cons by (simp add: unblock_def)
qed (simp add: unblock_def)

lemma unblock1_keeps:
  "unblock1 t pc u = Outside \<longleftrightarrow> pc u = Outside" "is_reading (unblock1 t pc u) \<longleftrightarrow> is_reading (pc u)"
  by (cases "pc t"; auto simp: unblock1_def)+

lemma unblock_keeps:
  "unblock ts pc u = Outside \<longleftrightarrow> pc u = Outside" "is_reading (unblock ts pc u) \<longleftrightarrow> is_reading (pc u)"
  by (induction ts arbitrary: pc) (simp_all add: unblock_def unblock1_keeps)

lemma pipe_read_empty:
  assumes "fifo_invar (pi_fifo pi)" "fifo_contents (pi_fifo pi) = []" "wr_alive pi \<noteq> 0" "rd_waiter pi = None"
  obtains f where "pipe_read_round t siz False pi = Some (pi\<lparr>pi_fifo := f, rd_waiter := Some t\<rparr>, [], Sleeps [])"
    "fifo_invar f" "fifo_contents f = []" "fifo_cap f = fifo_cap (pi_fifo pi)"
proof (rule that)
  show "pipe_read_round t siz False pi = Some (pi\<lparr>pi_fifo := fst (fifo_read (pi_fifo pi) siz), rd_waiter := Some t\<rparr>, [], Sleeps [])"
    using assms fifo.rd_data [OF assms(1)] by (simp add: pipe_read_round_def split_beta Let_def)
qed (use assms fifo.rd_invar [OF assms(1)] fifo.rd_contents [OF assms(1)] fifo.rd_cap [OF assms(1)] in auto)

lemma pipe_write_fits:
  assumes "fifo_invar (pi_fifo pi)" "length d < 2 ^ 64" "fifo_contents (pi_fifo pi) = []" "d \<noteq> []" "length d \<le> fifo_cap (pi_fifo pi)"
  obtains f p ts where "pipe_write_loop t d nb pi = Some (pi\<lparr>pi_fifo := f, rd_pollee := p\<rparr>, ts, Returns [])" "fifo_contents f = d"
proof (rule that)
  let ?w = "fifo_write (pi_fifo pi) d"
  have n: "unat (snd ?w) = length d" using fifo.wr_count [OF assms(1,2)] assms by simp
  then have "snd ?w \<noteq> 0" using assms(4) by auto
  then show "pipe_write_loop t d nb pi = Some (pi\<lparr>pi_fifo := fst ?w, rd_pollee := fst (fs_poll_deliver (rd_pollee pi) POLLIN)\<rparr>,
      fst (snd (fs_poll_deliver (rd_pollee pi) POLLIN)) @ wake (rd_waiter pi), Returns [])"
    using n by (subst pipe_write_loop.simps) (simp add: split_beta Let_def)
  show "fifo_contents (fst ?w) = d" using fifo.wr_contents [OF assms(1,2)] assms by simp
qed

lemma pipe_run_step: "pipe_step t s s' \<Longrightarrow> pipe_run s s'"
  by (rule pipe_run.step [OF pipe_run.refl])

lemma pipe_lost_run:
  assumes "length pb = 4096" "t \<noteq> u" "siz \<noteq> 0"
  shows "\<exists>s. pipe_run (pipe_start mem pb) s \<and> sy_pc s = (\<lambda>_. Outside)(t := InRead siz False)
    \<and> rd_waiter (sy_pipe s) = Some t \<and> fifo_contents (pi_fifo (sy_pipe s)) = [c] \<and> sy_in s = [c]"
proof -
  let ?p0 = "pipe_anony mem pb" and ?s0 = "pipe_start mem pb"
  have p0: "rd_alive ?p0 = 1" "wr_alive ?p0 = 1" "rd_waiter ?p0 = None"
    by (simp_all add: pipe_anony_def pipe_dead_def)
  obtain f where r: "pipe_read_round t siz False ?p0 = Some (?p0\<lparr>pi_fifo := f, rd_waiter := Some t\<rparr>, [], Sleeps [])"
    and f: "fifo_invar f" "fifo_contents f = []" "fifo_cap f = 4096"
    using pipe_create_fifo [OF assms(1), of mem] p0 by (auto elim!: pipe_read_empty [of ?p0 t siz])
  let ?p1 = "?p0\<lparr>pi_fifo := f, rd_waiter := Some t\<rparr>"
  obtain g p ts where w: "pipe_write_loop u [c] False ?p1 = Some (?p1\<lparr>pi_fifo := g, rd_pollee := p\<rparr>, ts, Returns [])"
    and g: "fifo_contents g = [c]"
    by (rule pipe_write_fits [of ?p1 "[c]" u False]) (use f in \<open>(simp; fail) | blast\<close>)+
  define sys where "sys pi pc i = \<lparr>sy_pipe = pi, sy_pc = pc, sy_in = i, sy_out = []\<rparr>" for pi pc i
  let ?pc1 = "(\<lambda>_. Outside)(t := AtRead siz False False)" and ?pc2 = "(\<lambda>_. Outside)(t := PreRead siz False)"
  let ?p2 = "?p1\<lparr>pi_fifo := g, rd_pollee := p\<rparr>"
  have 1: "pipe_step t ?s0 (sys ?p0 ?pc1 [])"
    using call_read [of ?s0 t O_RDONLY siz False] assms p0 by (simp add: pipe_start_def sys_def pipe_enter_defs)
  have 2: "pipe_step t (sys ?p0 ?pc1 []) (sys ?p1 ?pc2 [])"
    by (rule do_read [of _ _ siz False False]) (simp_all add: sys_def read_section_def r unblock_def)
  have 3: "pipe_step u (sys ?p1 ?pc2 []) (sys ?p1 (?pc2(u := AtWrite [c] False False)) [])"
    using call_write [of "sys ?p1 ?pc2 []" u O_WRONLY "[c]" False] assms p0 by (simp add: sys_def pipe_enter_defs)
  have "unblock ts (?pc2(u := AtWrite [c] False False)) = ?pc2(u := AtWrite [c] False False)" by (rule unblock_awake) simp
  then have 4: "pipe_step u (sys ?p1 (?pc2(u := AtWrite [c] False False)) []) (sys ?p2 ?pc2 [c])"
    using assms(2) by (intro do_write [of _ _ "[c]" False False]) (auto simp: sys_def write_section_def w)
  have 5: "pipe_step t (sys ?p2 ?pc2 [c]) (sys ?p2 ((\<lambda>_. Outside)(t := InRead siz False)) [c])"
    using block_read [of "sys ?p2 ?pc2 [c]" t siz False] by (simp add: sys_def)
  have "pipe_run ?s0 (sys ?p2 ((\<lambda>_. Outside)(t := InRead siz False)) [c])"
    using pipe_run.step [OF pipe_run.step [OF pipe_run.step [OF pipe_run.step [OF pipe_run_step [OF 1] 2] 3] 4] 5] .
  then show ?thesis using g by (intro exI conjI) (assumption, simp_all add: sys_def)
qed


definition pipe_mem0 :: pipe_t where
  "pipe_mem0 = \<lparr>rd_alive = 5, wr_alive = 0, pi_fifo = \<lparr>fifo_buf = [], fifo_siz = 0, fifo_head = 9, fifo_tail = 0\<rparr>,
    rd_waiter = None, wr_waiter = None, rd_pollee = \<lparr>npollers = 3, r_pollee = []\<rparr>, wr_pollee = \<lparr>npollers = 0, r_pollee = []\<rparr>\<rparr>"


text \<open>
  C4: whatever tasks do with a pipe, in whatever order: the bytes that its reads have returned followed by the bytes in the queue are the
  bytes that its writes have stored. Nothing is lost, duplicated or reordered, also over sleeps and partial writes.
\<close>

theorem pipe_stream:
  assumes "pipe_run (pipe_start mem pb) s" "length pb = 4096"
  shows "fifo_invar (pi_fifo (sy_pipe s)) \<and> sy_in s = sy_out s @ fifo_contents (pi_fifo (sy_pipe s))"
proof -
  have "pipe_inv s" using assms(1)
  proof (induction "pipe_start mem pb" s rule: pipe_run.induct)
    case refl then show ?case using pipe_start_inv assms(2) by blast
  qed (use pipe_step_inv in blast)
  then show ?thesis by (simp add: pipe_inv_def)
qed

theorem pipe_stream_witness:
  "\<exists>s. pipe_run (pipe_start pipe_mem0 (replicate 4096 0)) s \<and> sy_in s = sy_out s @ [7]"
proof -
  obtain s where s: "pipe_run (pipe_start pipe_mem0 (replicate 4096 0)) s" "fifo_contents (pi_fifo (sy_pipe s)) = [7]"
    using pipe_lost_run [of "replicate 4096 0" 1 2 16 pipe_mem0 7] by auto
  show ?thesis using pipe_stream [OF s(1)] s by auto
qed

section \<open>A writer without readers\<close>

text \<open>No reader is left, the queue is full and \<open>t\<close> is in a write.\<close>

definition hanging :: "task_ref \<Rightarrow> pipe_sys \<Rightarrow> bool" where
  "hanging t s \<longleftrightarrow> pipe_inv s \<and> rd_alive (sy_pipe s) = 0 \<and> length (fifo_contents (pi_fifo (sy_pipe s))) = fifo_cap (pi_fifo (sy_pipe s))
     \<and> (\<forall>u. \<not> is_reading (sy_pc s u)) \<and> sy_pc s t \<noteq> Outside"

lemma fifo_write_full:
  assumes "fifo_invar f" "length d < 2 ^ 64" "length (fifo_contents f) = fifo_cap f"
  shows "snd (fifo_write f d) = 0" "length (fifo_contents (fst (fifo_write f d))) = fifo_cap (fst (fifo_write f d))"
proof -
  show "snd (fifo_write f d) = 0" using fifo.wr_count [OF assms(1,2)] assms(3) by (simp add: unat_eq_zero)
  show "length (fifo_contents (fst (fifo_write f d))) = fifo_cap (fst (fifo_write f d))"
    using fifo.wr_contents [OF assms(1,2)] fifo.wr_cap [OF assms(1,2)] assms(3) by simp
qed

lemma write_section_hanging:
  assumes "hanging t s" "sy_pc s u = AtWrite d nb bk" "write_section u d nb bk s = Some s'"
  shows "hanging t s'"
proof -
  let ?pi = "if bk then wr_awake (sy_pipe s) else sy_pipe s"
  have d: "length d < 2 ^ 64" using assms(1,2) unfolding hanging_def pipe_inv_def by (metis pc_small.simps(1))
  have pi: "pi_fifo ?pi = pi_fifo (sy_pipe s)" "rd_alive ?pi = rd_alive (sy_pipe s)" by (simp_all add: wr_awake_def)
  obtain pi' ts r where r: "pipe_write_loop u d nb ?pi = Some (pi', ts, r)"
    using assms(3) by (auto simp: write_section_def bind_eq_Some_conv)
  have full: "snd (fifo_write (pi_fifo ?pi) d) = 0"
    "length (fifo_contents (fst (fifo_write (pi_fifo ?pi) d))) = fifo_cap (fst (fifo_write (pi_fifo ?pi) d))"
    using fifo_write_full [OF _ d] assms(1) by (simp_all add: pi hanging_def pipe_inv_def)
  have r': "pi' = ?pi\<lparr>pi_fifo := fst (fifo_write (pi_fifo ?pi) d), wr_waiter := Some u\<rparr>" "ts = []" "r = Sleeps d"
    using pipe_write_loop_full [OF full(1) r] by simp_all
  have "sy_pipe s' = pi'" "sy_pc s' = (sy_pc s)(u := PreWrite d nb)"
    using assms(3) r r'(2,3) by (auto simp: write_section_def unblock_def)
  moreover have "pipe_inv s'" using write_section_inv [OF _ d assms(3)] assms(1) by (simp add: hanging_def)
  ultimately show ?thesis using assms(1) r'(1) full(2) pi by (simp add: hanging_def)
qed

lemma pipe_step_hanging:
  assumes "pipe_step u s s'" "hanging t s"
  shows "hanging t s'"
proof -
  have inv: "pipe_inv s'" using pipe_step_inv assms unfolding hanging_def by blast
  have nr: "\<not> is_reading (sy_pc s u)" for u using assms(2) by (simp add: hanging_def)
  show ?thesis using assms(1)
  proof (cases rule: pipe_step.cases)
    case (do_write d nb bk)
    then show ?thesis using write_section_hanging assms(2) by blast
  next
    case (do_close fl)
    then show ?thesis using assms(2) inv
      by (auto simp: hanging_def close_section_def pipe_fini_pctx_def Let_def split_beta unblock_keeps split: if_splits)
  next
    case (do_read siz nb bk)
    then show ?thesis using nr [of u] by simp
  next
    case (block_read siz nb)
    then show ?thesis using nr [of u] by simp
  qed (use assms(2) inv in \<open>auto simp: hanging_def pipe_enter_defs split: if_splits\<close>)
qed

lemma pipe_run_hanging: "pipe_run s s' \<Longrightarrow> hanging t s \<Longrightarrow> hanging t s'"
  by (induction rule: pipe_run.induct) (auto intro: pipe_step_hanging)

lemma pipe_write_overfull:
  assumes "fifo_invar (pi_fifo pi)" "length d < 2 ^ 64" "fifo_contents (pi_fifo pi) = []" "0 < fifo_cap (pi_fifo pi)" "fifo_cap (pi_fifo pi) < length d"
    "rd_alive pi \<noteq> 0" "wr_waiter pi = None"
  obtains f p ts d' where "pipe_write_loop t d False pi = Some (pi\<lparr>pi_fifo := f, rd_pollee := p, wr_waiter := Some t\<rparr>, ts, Sleeps d')"
    "fifo_invar f" "length (fifo_contents f) = fifo_cap f" "length d' = length d - fifo_cap (pi_fifo pi)"
proof -
  let ?w = "fifo_write (pi_fifo pi) d"
  have n: "unat (snd ?w) = fifo_cap (pi_fifo pi)" using fifo.wr_count [OF assms(1,2)] assms by simp
  then have n0: "snd ?w \<noteq> 0" using assms(4) by auto
  have f: "fifo_invar (fst ?w)" "length (fifo_contents (fst ?w)) = fifo_cap (fst ?w)"
    using fifo.wr_invar [OF assms(1,2)] fifo.wr_contents [OF assms(1,2)] fifo.wr_cap [OF assms(1,2)] assms by simp_all
  let ?d = "drop (unat (snd ?w)) d"
  have d: "length ?d < 2 ^ 64" "?d \<noteq> []" using assms n by simp_all
  note full = fifo_write_full [OF f(1) d(1) f(2)]
  let ?p = "fst (fs_poll_deliver (rd_pollee pi) POLLIN)"
  have "pipe_write_loop t ?d False (pi\<lparr>pi_fifo := fst ?w, rd_pollee := ?p\<rparr>)
      = Some (pi\<lparr>pi_fifo := fst (fifo_write (fst ?w) ?d), rd_pollee := ?p, wr_waiter := Some t\<rparr>, [], Sleeps ?d)"
    using full(1) assms(7) by (subst pipe_write_loop.simps) (simp add: split_beta Let_def)
  then have "\<exists>ts. pipe_write_loop t d False pi
      = Some (pi\<lparr>pi_fifo := fst (fifo_write (fst ?w) ?d), rd_pollee := ?p, wr_waiter := Some t\<rparr>, ts, Sleeps ?d)"
    using n0 d(2) assms(6) by (subst pipe_write_loop.simps) (simp add: split_beta Let_def)
  then show thesis using that full(2) fifo.wr_invar [OF f(1) d(1)] n by (metis length_drop)
qed



section \<open>Named pipes\<close>

text \<open>
  C32: opening a named pipe can end in a deadlock. A task that opens it for writing first sleeps until there is a reader. The open for reading
  does not wake it up: the writer already counts as alive. The reader then finds no data and a live writer, and sleeps as well.
\<close>

theorem pipe_open_deadlock:
  assumes "length pb = 4096"
  shows "\<exists>pi1 pi2 pi3. vfs_drift_cb_pipe_open t O_WRONLY (Some pb) (Some mem) None = Inr (pi1, [], True)
    \<and> vfs_drift_cb_pipe_open u O_RDONLY pb2 mem2 (Some pi1) = Inr (pi2, [], False)
    \<and> pipe_read_round u siz False pi2 = Some (pi3, [], Sleeps [])
    \<and> wr_waiter pi3 = Some t \<and> rd_waiter pi3 = Some u"
proof -
  let ?p = "pipe_dead mem pb"
  let ?p1 = "?p\<lparr>wr_alive := 1, wr_waiter := Some t\<rparr>"
  let ?p2 = "?p1\<lparr>rd_alive := 1\<rparr>"
  have p: "rd_alive ?p = 0" "wr_alive ?p = 0" "rd_waiter ?p = None" "wr_waiter ?p = None"
    by (simp_all add: pipe_dead_def)
  have "pi_fifo ?p2 = pi_fifo (pipe_anony mem pb)" by (simp add: pipe_anony_def)
  then have f: "fifo_invar (pi_fifo ?p2)" "fifo_contents (pi_fifo ?p2) = []" using pipe_create_fifo [OF assms, of mem] by simp_all
  obtain g where "pipe_read_round u siz False ?p2 = Some (?p2\<lparr>pi_fifo := g, rd_waiter := Some u\<rparr>, [], Sleeps [])"
    by (rule pipe_read_empty [OF f, of u siz]) (use p in \<open>(simp; fail) | blast\<close>)+
  moreover have "vfs_drift_cb_pipe_open t O_WRONLY (Some pb) (Some mem) None = Inr (?p1, [], True)"
    "vfs_drift_cb_pipe_open u O_RDONLY pb2 mem2 (Some ?p1) = Inr (?p2, [], False)"
    using p by (simp_all add: vfs_drift_cb_pipe_open_def vfs_pipe_create_dead_def pipe_open_def O_RDONLY_def O_WRONLY_def O_ACCMODE_def)
  ultimately show ?thesis by (intro exI conjI) (assumption, assumption, assumption, simp_all)
qed

theorem pipe_open_deadlock_witness:
  "\<exists>pi1 pi2 pi3. vfs_drift_cb_pipe_open 1 O_WRONLY (Some (replicate 4096 0)) (Some pipe_mem0) None = Inr (pi1, [], True)
    \<and> vfs_drift_cb_pipe_open 2 O_RDONLY None None (Some pi1) = Inr (pi2, [], False)
    \<and> pipe_read_round 2 10 False pi2 = Some (pi3, [], Sleeps [])
    \<and> wr_waiter pi3 = Some 1 \<and> rd_waiter pi3 = Some 2"
  by (rule pipe_open_deadlock) simp

end
