(* ===== verification/Spec2Isabelle.thy ===== *)
theory Spec2Isabelle
  imports Klib_Fifo Klib_Bitmap Mm_Pmm Tty_Line Task_Signal Tty_Console Task_Ktimer Task_Lock Klib_Time Mm_Heap Net_Tcp_Recv Net_Tcp_Tx Net_Tcp_Open Mm_Vmm Fs_Pipe
begin

text \<open>
  A verification development for the textos kernel (sources under \<open>src/src/kernel\<close>).
\<close>

end
